(* ===== verification/Tunnel_Prelude.thy ===== *)
theory Tunnel_Prelude
  imports Main "HOL-Library.Monad_Syntax"
begin

text \<open>
  Shared vocabulary of the development: the exceptions the C++ code throws, the result type of
  code that may throw, the end-of-stream marker of a channel element, and the generic lemmas on
  lists, finite sums and relations that the component theories use.
\<close>

named_theorems eof_simps \<open>counting end-of-stream markers in queue contents\<close>
named_theorems chan_simps \<open>reading and writing the channel fields of a processor\<close>

section \<open>Exceptions and results\<close>

text \<open>
  A C++ exception is either derived from \<^verbatim>\<open>std::exception\<close> (with the string that
  \<^verbatim>\<open>what()\<close> returns) or any other thrown value; \<^verbatim>\<open>processor.h\<close> tells the two apart
  in its \<^verbatim>\<open>catch (const std::exception &e)\<close> clause.
\<close>

datatype exn = StdException string | OtherException

type_synonym 'a result = "exn + 'a"

abbreviation is_std :: "exn \<Rightarrow> bool" where
  "is_std e \<equiv> (case e of StdException _ \<Rightarrow> True | OtherException \<Rightarrow> False)"

section \<open>End-of-stream markers\<close>

text \<open>
  Every queue of a pipeline carries \<^verbatim>\<open>std::optional<T>\<close>: the empty optional is the EOF
  information.
\<close>

definition count_eof :: "'v option list \<Rightarrow> nat" where
  "count_eof xs = length (filter (\<lambda>x. x = None) xs)"

lemma count_eof_Nil [simp, eof_simps]: "count_eof [] = 0"
  by (simp add: count_eof_def)

lemma count_eof_Cons [simp, eof_simps]:
  "count_eof (x # xs) = (if x = None then 1 else 0) + count_eof xs"
  by (simp add: count_eof_def)

lemma count_eof_append [simp, eof_simps]: "count_eof (xs @ ys) = count_eof xs + count_eof ys"
  by (simp add: count_eof_def)

section \<open>Finite sums and relations\<close>

lemma sum_fun_upd_remove:
  fixes f :: "'a \<Rightarrow> nat"
  assumes "finite A" "a \<in> A"
  shows "(\<Sum>x\<in>A. f x) = f a + (\<Sum>x\<in>A - {a}. f x)"
  using assms by (simp add: sum.remove)

lemma sum_change_one:
  fixes f g :: "'a \<Rightarrow> nat"
  assumes "finite A" "a \<in> A" "\<And>x. x \<in> A \<Longrightarrow> x \<noteq> a \<Longrightarrow> g x = f x"
  shows "(\<Sum>x\<in>A. g x) + f a = (\<Sum>x\<in>A. f x) + g a"
proof -
  have "(\<Sum>x\<in>A - {a}. g x) = (\<Sum>x\<in>A - {a}. f x)"
    using assms(3) by (intro sum.cong) auto
  then show ?thesis
    using assms(1,2) by (simp add: sum_fun_upd_remove)
qed

lemma sum_pos_member:
  fixes f :: "'a \<Rightarrow> nat"
  assumes "finite A" "0 < (\<Sum>x\<in>A. f x)"
  shows "\<exists>a\<in>A. 0 < f a"
  using assms by (metis gr0I sum.neutral less_irrefl)

lemma member_sum_pos:
  fixes f :: "'a \<Rightarrow> nat"
  assumes "finite A" "a \<in> A" "0 < f a"
  shows "0 < (\<Sum>x\<in>A. f x)"
  using assms by (metis sum_fun_upd_remove add_gr_0)

text \<open>A relation along which a rank grows has no cycle.\<close>

lemma acyclic_ranked:
  fixes rk :: "'a \<Rightarrow> nat"
  assumes "\<And>i j. (i, j) \<in> r \<Longrightarrow> rk i < rk j"
  shows "acyclic r"
  using assms
  by (intro acyclic_subset[OF wf_acyclic[OF wf_measure[of rk]]]) auto

lemma sum_zero_on:
  fixes f :: "'a \<Rightarrow> nat"
  shows "(\<And>x. x \<in> A \<Longrightarrow> f x = 0) \<Longrightarrow> (\<Sum>x\<in>A. f x) = 0"
  by simp

end
