(* ===== verification/Bounded_Queue.thy ===== *)
theory Bounded_Queue
  imports Tunnel_Prelude
begin

text \<open>
  \<^verbatim>\<open>include/queue/boundedqueue.h\<close>: the bounded queue through which processors exchange
  elements. Every operation runs under the coroutine mutex of the queue, so this theory gives each
  operation as one atomic function of the deque and the capacity; a blocking operation returns
  \<^const>\<open>None\<close> where the coroutine suspends on its condition variable. The wake-up discipline
  of the two condition variables is the subject of \<open>Queue_Monitor\<close>.
\<close>

section \<open>State and operations\<close>

record 'e bounded_queue =
  bq_queue :: "'e list"
  bq_capacity :: nat

definition BoundedQueue :: "nat \<Rightarrow> 'e bounded_queue" where
  "BoundedQueue capacity = \<lparr>bq_queue = [], bq_capacity = capacity\<rparr>"

definition Capacity :: "'e bounded_queue \<Rightarrow> nat" where
  "Capacity q = bq_capacity q"

text \<open>\<open>BoundedQueue_Pop q = None\<close>: the queue is empty and the caller waits on \<^verbatim>\<open>empty_cv_\<close>.\<close>

definition BoundedQueue_Pop :: "'e bounded_queue \<Rightarrow> ('e \<times> 'e bounded_queue) option" where
  "BoundedQueue_Pop q =
     (case bq_queue q of
        [] \<Rightarrow> None
      | x # xs \<Rightarrow> Some (x, q\<lparr>bq_queue := xs\<rparr>))"

text \<open>An empty \<^verbatim>\<open>Try\<close> is \<^const>\<open>None\<close>.\<close>

definition BoundedQueue_TryPop :: "'e bounded_queue \<Rightarrow> 'e option \<times> 'e bounded_queue" where
  "BoundedQueue_TryPop q =
     (case bq_queue q of
        [] \<Rightarrow> (None, q)
      | x # xs \<Rightarrow> (Some x, q\<lparr>bq_queue := xs\<rparr>))"

text \<open>\<open>BoundedQueue_Push e q = None\<close>: the queue is full and the caller waits on \<^verbatim>\<open>filled_cv_\<close>.\<close>

definition BoundedQueue_Push :: "'e \<Rightarrow> 'e bounded_queue \<Rightarrow> 'e bounded_queue option" where
  "BoundedQueue_Push e q =
     (if length (bq_queue q) = Capacity q then None
      else Some (q\<lparr>bq_queue := bq_queue q @ [e]\<rparr>))"

definition BoundedQueue_TryPush :: "'e \<Rightarrow> 'e bounded_queue \<Rightarrow> bool \<times> 'e bounded_queue" where
  "BoundedQueue_TryPush e q =
     (if length (bq_queue q) = Capacity q then (False, q)
      else (True, q\<lparr>bq_queue := bq_queue q @ [e]\<rparr>))"

text \<open>The representation invariant: the deque never outgrows the capacity.\<close>

definition queue_inv :: "'e bounded_queue \<Rightarrow> bool" where
  "queue_inv q \<longleftrightarrow> length (bq_queue q) \<le> bq_capacity q"

section \<open>Sequences of operations on one queue\<close>

datatype 'e queue_op = OpPush 'e | OpPop

text \<open>
  One operation applied through the push and pop of an implementation; a step that would
  suspend the caller leaves the queue unchanged and logs nothing. The log pairs the elements
  accepted by the queue with the elements it handed out.
\<close>

fun run_op :: "('e \<Rightarrow> 'q \<Rightarrow> 'q option) \<Rightarrow> ('q \<Rightarrow> ('e \<times> 'q) option) \<Rightarrow>
    'e queue_op \<Rightarrow> 'e list \<times> 'e list \<times> 'q \<Rightarrow> 'e list \<times> 'e list \<times> 'q" where
  "run_op push pop (OpPush e) (ins, outs, q) =
     (case push e q of None \<Rightarrow> (ins, outs, q) | Some q' \<Rightarrow> (ins @ [e], outs, q'))"
| "run_op push pop OpPop (ins, outs, q) =
     (case pop q of None \<Rightarrow> (ins, outs, q) | Some (e, q') \<Rightarrow> (ins, outs @ [e], q'))"

definition run_ops :: "('e \<Rightarrow> 'q \<Rightarrow> 'q option) \<Rightarrow> ('q \<Rightarrow> ('e \<times> 'q) option) \<Rightarrow>
    'e queue_op list \<Rightarrow> 'q \<Rightarrow> 'e list \<times> 'e list \<times> 'q" where
  "run_ops push pop ops q = fold (run_op push pop) ops ([], [], q)"

section \<open>The contract of a bounded FIFO queue\<close>

locale fifo_queue =
  fixes contents :: "'q \<Rightarrow> 'e list"
    and cap :: "'q \<Rightarrow> nat"
    and push :: "'e \<Rightarrow> 'q \<Rightarrow> 'q option"
    and pop :: "'q \<Rightarrow> ('e \<times> 'q) option"
  assumes push_blocks: "push e q = None \<longleftrightarrow> length (contents q) = cap q"
    and push_appends: "push e q = Some q' \<Longrightarrow> contents q' = contents q @ [e] \<and> cap q' = cap q"
    and pop_blocks: "pop q = None \<longleftrightarrow> contents q = []"
    and pop_takes: "pop q = Some (e, q') \<Longrightarrow> contents q = e # contents q' \<and> cap q' = cap q"
begin

lemma push_within:
  assumes "push e q = Some q'" "length (contents q) \<le> cap q"
  shows "length (contents q') \<le> cap q'"
proof -
  have "length (contents q) \<noteq> cap q"
    using assms(1) push_blocks[of e q] by auto
  with assms push_appends[OF assms(1)] show ?thesis by simp
qed

lemma pop_within:
  assumes "pop q = Some (e, q')" "length (contents q) \<le> cap q"
  shows "length (contents q') \<le> cap q'"
  using pop_takes[OF assms(1)] assms(2) by simp

text \<open>The queue neither loses, duplicates nor reorders elements, and it stays within its bound.\<close>

definition log_ok :: "'q \<Rightarrow> 'e list \<times> 'e list \<times> 'q \<Rightarrow> bool" where
  "log_ok q0 = (\<lambda>(ins, outs, q). contents q0 @ ins = outs @ contents q \<and> cap q = cap q0 \<and>
     length (contents q) \<le> cap q)"

lemma run_op_log_ok:
  assumes "log_ok q0 s"
  shows "log_ok q0 (run_op push pop a s)"
proof (cases s)
  case (fields ins outs q)
  show ?thesis
  proof (cases a)
    case (OpPush e)
    then show ?thesis
      using assms fields push_appends[of e q] push_within[of e q]
      by (auto simp: log_ok_def split: option.splits)
  next
    case OpPop
    then show ?thesis
      using assms fields pop_takes[of q] pop_within[of q]
      by (fastforce simp: log_ok_def split: option.splits)
  qed
qed

lemma fold_log_ok: "log_ok q0 s \<Longrightarrow> log_ok q0 (fold (run_op push pop) ops s)"
  by (induction ops arbitrary: s) (simp_all add: run_op_log_ok)

lemma run_ops_fifo:
  assumes "run_ops push pop ops q = (ins, outs, q')" "length (contents q) \<le> cap q"
  shows "contents q @ ins = outs @ contents q' \<and> cap q' = cap q \<and> length (contents q') \<le> cap q'"
proof -
  have "log_ok q ([], [], q)"
    using assms(2) by (simp add: log_ok_def)
  then have "log_ok q (run_ops push pop ops q)"
    unfolding run_ops_def by (rule fold_log_ok)
  then show ?thesis using assms(1) by (simp add: log_ok_def)
qed

end

section \<open>The queue implements the contract\<close>

interpretation bq: fifo_queue bq_queue bq_capacity BoundedQueue_Push BoundedQueue_Pop
  by unfold_locales
    (auto simp: BoundedQueue_Push_def BoundedQueue_Pop_def Capacity_def split: if_splits list.splits)

lemma BoundedQueue_inv [simp]: "queue_inv (BoundedQueue n)"
  by (simp add: queue_inv_def BoundedQueue_def)

lemma BoundedQueue_Push_inv:
  "queue_inv q \<Longrightarrow> BoundedQueue_Push e q = Some q' \<Longrightarrow> queue_inv q'"
  by (auto simp: queue_inv_def dest: bq.push_within)

lemma BoundedQueue_Pop_inv:
  "queue_inv q \<Longrightarrow> BoundedQueue_Pop q = Some (e, q') \<Longrightarrow> queue_inv q'"
  by (auto simp: queue_inv_def dest: bq.pop_within)

lemma BoundedQueue_TryPush_inv:
  "queue_inv q \<Longrightarrow> queue_inv (snd (BoundedQueue_TryPush e q))"
  by (auto simp: queue_inv_def BoundedQueue_TryPush_def Capacity_def)

lemma BoundedQueue_TryPop_inv:
  "queue_inv q \<Longrightarrow> queue_inv (snd (BoundedQueue_TryPop q))"
  by (auto simp: queue_inv_def BoundedQueue_TryPop_def split: list.splits)

section \<open>Properties of the queue\<close>

text \<open>
  C27: over any sequence of pushes and pops that starts from a queue within its capacity, the
  elements handed out followed by those still queued are the elements queued at the start
  followed by those accepted, in order; nothing is lost, duplicated or reordered, and the queue
  never exceeds its capacity.
\<close>

theorem bounded_queue_fifo:
  assumes "queue_inv q" "run_ops BoundedQueue_Push BoundedQueue_Pop ops q = (ins, outs, q')"
  shows "bq_queue q @ ins = outs @ bq_queue q' \<and> queue_inv q' \<and> Capacity q' = Capacity q"
  using bq.run_ops_fifo[OF assms(2)] assms(1) by (simp add: queue_inv_def Capacity_def)

theorem bounded_queue_fifo_witness:
  "run_ops BoundedQueue_Push BoundedQueue_Pop [OpPush (1 :: nat), OpPush 2, OpPush 3, OpPop] (BoundedQueue 2) =
     ([1, 2], [1], \<lparr>bq_queue = [2 :: nat], bq_capacity = 2\<rparr>) \<and> queue_inv \<lparr>bq_queue = [2 :: nat], bq_capacity = 2\<rparr>"
proof -
  have run: "run_ops BoundedQueue_Push BoundedQueue_Pop [OpPush (1 :: nat), OpPush 2, OpPush 3, OpPop] (BoundedQueue 2) =
      ([1, 2], [1], \<lparr>bq_queue = [2 :: nat], bq_capacity = 2\<rparr>)"
    by (simp add: run_ops_def BoundedQueue_Push_def BoundedQueue_Pop_def BoundedQueue_def Capacity_def)
  then show ?thesis using bounded_queue_fifo[OF BoundedQueue_inv run] by simp
qed

text \<open>
  C37: the non-blocking operations agree with the blocking ones: \<^verbatim>\<open>TryPop\<close> and
  \<^verbatim>\<open>TryPush\<close> do exactly what \<^verbatim>\<open>Pop\<close> and \<^verbatim>\<open>Push\<close> do when these would not suspend, and
  leave the queue unchanged when they would.
\<close>

theorem try_ops_agree:
  "BoundedQueue_TryPop q =
     (case BoundedQueue_Pop q of None \<Rightarrow> (None, q) | Some (e, q') \<Rightarrow> (Some e, q')) \<and>
   BoundedQueue_TryPush e q =
     (case BoundedQueue_Push e q of None \<Rightarrow> (False, q) | Some q' \<Rightarrow> (True, q'))"
  by (auto simp: BoundedQueue_TryPop_def BoundedQueue_Pop_def BoundedQueue_TryPush_def BoundedQueue_Push_def
      split: list.splits)

text \<open>
  Nothing can ever be pushed into a queue of capacity 0, the capacity \<^verbatim>\<open>MergePipeline\<close>
  leaves in the options of the merged pipeline: \<^verbatim>\<open>Push\<close> suspends in every state such a queue
  can reach.
\<close>

lemma capacity_zero_blocks:
  fixes ops :: "'a queue_op list"
  assumes "run_ops BoundedQueue_Push BoundedQueue_Pop ops (BoundedQueue 0) = (ins, outs, q)"
  shows "ins = [] \<and> BoundedQueue_Push e q = None"
proof -
  let ?s = "([], [], BoundedQueue 0)"
  have "run_op BoundedQueue_Push BoundedQueue_Pop a ?s = ?s" for a :: "'a queue_op"
    by (cases a) (simp_all add: BoundedQueue_Push_def BoundedQueue_Pop_def BoundedQueue_def Capacity_def)
  then have "fold (run_op BoundedQueue_Push BoundedQueue_Pop) ops ?s = ?s"
    by (induction ops) simp_all
  with assms show ?thesis
    by (auto simp: run_ops_def BoundedQueue_Push_def BoundedQueue_def Capacity_def)
qed

end
