(* ===== verification/Queue_Monitor.thy ===== *)
theory Queue_Monitor
  imports Bounded_Queue "HOL-Library.Multiset"
begin

text \<open>
  The suspension protocol of \<^verbatim>\<open>include/queue/boundedqueue.h\<close>: which coroutines sleep on
  the two condition variables of a queue, which have been notified and still have to retake the
  mutex, and what each critical section does to them. The mutex and the condition variables
  belong to async\_simple. Mutual exclusion makes one critical section one step; the choice of the
  waiter that \<^verbatim>\<open>notifyOne\<close> resumes is the parameter \<open>notify\<close>, whose documented
  behaviour is \<open>notifies_one\<close>.
\<close>

section \<open>Waiters and critical sections\<close>

text \<open>A suspended coroutine: its identity and, for a producer, the element it is pushing.\<close>

type_synonym ('t, 'e) waiter = "'t \<times> 'e option"

type_synonym ('t, 'e) notifier =
  "('t, 'e) waiter list \<Rightarrow> ('t, 'e) waiter list \<Rightarrow> ('t, 'e) waiter list \<times> ('t, 'e) waiter list"

definition notifies_one :: "('t, 'e) notifier \<Rightarrow> bool" where
  "notifies_one notify \<longleftrightarrow>
     (\<forall>woken. notify [] woken = ([], woken)) \<and>
     (\<forall>waiting woken. waiting \<noteq> [] \<longrightarrow>
        (\<exists>w\<in>set waiting. notify waiting woken = (remove1 w waiting, woken @ [w])))"

record ('t, 'e) monitor =
  mon_queue :: "'e bounded_queue"
  empty_cv :: "('t, 'e) waiter list"
  empty_woken :: "('t, 'e) waiter list"
  filled_cv :: "('t, 'e) waiter list"
  filled_woken :: "('t, 'e) waiter list"

definition new_monitor :: "nat \<Rightarrow> ('t, 'e) monitor" where
  "new_monitor capacity =
     \<lparr>mon_queue = BoundedQueue capacity, empty_cv = [], empty_woken = [],
      filled_cv = [], filled_woken = []\<rparr>"

definition notify_empty :: "('t, 'e) notifier \<Rightarrow> ('t, 'e) monitor \<Rightarrow> ('t, 'e) monitor" where
  "notify_empty notify m =
     (let (waiting, woken) = notify (empty_cv m) (empty_woken m)
      in m\<lparr>empty_cv := waiting, empty_woken := woken\<rparr>)"

definition notify_filled :: "('t, 'e) notifier \<Rightarrow> ('t, 'e) monitor \<Rightarrow> ('t, 'e) monitor" where
  "notify_filled notify m =
     (let (waiting, woken) = notify (filled_cv m) (filled_woken m)
      in m\<lparr>filled_cv := waiting, filled_woken := woken\<rparr>)"

text \<open>
  \<^verbatim>\<open>Pop\<close>: the section from taking the mutex, which ends asleep on \<^verbatim>\<open>empty_cv_\<close> when the
  deque is empty, and the same section when the wait predicate is evaluated again after a
  notification. The result is the popped element, if the call completes.
\<close>

definition mon_Pop :: "('t, 'e) notifier \<Rightarrow> 't \<Rightarrow> ('t, 'e) monitor \<Rightarrow> 'e option \<times> ('t, 'e) monitor" where
  "mon_Pop notify t m =
     (case BoundedQueue_Pop (mon_queue m) of
        None \<Rightarrow> (None, m\<lparr>empty_cv := empty_cv m @ [(t, None)]\<rparr>)
      | Some (e, q) \<Rightarrow> (Some e, notify_filled notify (m\<lparr>mon_queue := q\<rparr>)))"

definition mon_Pop_resume :: "('t, 'e) notifier \<Rightarrow> 't \<Rightarrow> ('t, 'e) monitor \<Rightarrow> 'e option \<times> ('t, 'e) monitor" where
  "mon_Pop_resume notify t m =
     mon_Pop notify t (m\<lparr>empty_woken := remove1 (t, None) (empty_woken m)\<rparr>)"

definition mon_Push :: "('t, 'e) notifier \<Rightarrow> 't \<Rightarrow> 'e \<Rightarrow> ('t, 'e) monitor \<Rightarrow> bool \<times> ('t, 'e) monitor" where
  "mon_Push notify t e m =
     (case BoundedQueue_Push e (mon_queue m) of
        None \<Rightarrow> (False, m\<lparr>filled_cv := filled_cv m @ [(t, Some e)]\<rparr>)
      | Some q \<Rightarrow> (True, notify_empty notify (m\<lparr>mon_queue := q\<rparr>)))"

definition mon_Push_resume :: "('t, 'e) notifier \<Rightarrow> 't \<Rightarrow> 'e \<Rightarrow> ('t, 'e) monitor \<Rightarrow> bool \<times> ('t, 'e) monitor" where
  "mon_Push_resume notify t e m =
     mon_Push notify t e (m\<lparr>filled_woken := remove1 (t, Some e) (filled_woken m)\<rparr>)"

definition mon_TryPop :: "('t, 'e) notifier \<Rightarrow> ('t, 'e) monitor \<Rightarrow> 'e option \<times> ('t, 'e) monitor" where
  "mon_TryPop notify m =
     (case BoundedQueue_TryPop (mon_queue m) of
        (None, q) \<Rightarrow> (None, m)
      | (Some e, q) \<Rightarrow> (Some e, notify_filled notify (m\<lparr>mon_queue := q\<rparr>)))"

definition mon_TryPush :: "('t, 'e) notifier \<Rightarrow> 'e \<Rightarrow> ('t, 'e) monitor \<Rightarrow> bool \<times> ('t, 'e) monitor" where
  "mon_TryPush notify e m =
     (case BoundedQueue_TryPush e (mon_queue m) of
        (False, q) \<Rightarrow> (False, m)
      | (True, q) \<Rightarrow> (True, notify_empty notify (m\<lparr>mon_queue := q\<rparr>)))"

section \<open>Interleaving\<close>

text \<open>
  One step is one critical section of some coroutine: a fresh call, or a notified waiter that
  has retaken the mutex.
\<close>

inductive mon_step :: "('t, 'e) notifier \<Rightarrow> ('t, 'e) monitor \<Rightarrow> ('t, 'e) monitor \<Rightarrow> bool"
  for notify where
  pop: "mon_step notify m (snd (mon_Pop notify t m))"
| pop_resume: "(t, None) \<in> set (empty_woken m) \<Longrightarrow> mon_step notify m (snd (mon_Pop_resume notify t m))"
| push: "mon_step notify m (snd (mon_Push notify t e m))"
| push_resume: "(t, Some e) \<in> set (filled_woken m) \<Longrightarrow>
    mon_step notify m (snd (mon_Push_resume notify t e m))"
| try_pop: "mon_step notify m (snd (mon_TryPop notify m))"
| try_push: "mon_step notify m (snd (mon_TryPush notify e m))"

inductive mon_reach :: "('t, 'e) notifier \<Rightarrow> nat \<Rightarrow> ('t, 'e) monitor \<Rightarrow> bool"
  for notify capacity where
  init: "mon_reach notify capacity (new_monitor capacity)"
| step: "mon_reach notify capacity m \<Longrightarrow> mon_step notify m m' \<Longrightarrow> mon_reach notify capacity m'"

text \<open>
  What every critical section keeps. While a consumer sleeps, every element in the deque has a
  notified consumer on its way; while a producer sleeps, so has every free slot. Sleepers on
  \<^verbatim>\<open>empty_cv_\<close> are consumers, sleepers on \<^verbatim>\<open>filled_cv_\<close> are producers.
\<close>

definition mon_inv :: "('t, 'e) monitor \<Rightarrow> bool" where
  "mon_inv m \<longleftrightarrow>
     queue_inv (mon_queue m) \<and>
     (empty_cv m \<noteq> [] \<longrightarrow> length (bq_queue (mon_queue m)) \<le> length (empty_woken m)) \<and>
     (filled_cv m \<noteq> [] \<longrightarrow>
        bq_capacity (mon_queue m) \<le> length (bq_queue (mon_queue m)) + length (filled_woken m)) \<and>
     (\<forall>w \<in> set (empty_cv m) \<union> set (empty_woken m). snd w = None) \<and>
     (\<forall>w \<in> set (filled_cv m) \<union> set (filled_woken m). snd w \<noteq> None)"

section \<open>Every critical section keeps the invariant\<close>

lemma notifies_one_cases:
  assumes "notifies_one notify"
  obtains "waiting = []" "notify waiting woken = ([], woken)"
    | w where "w \<in> set waiting" "notify waiting woken = (remove1 w waiting, woken @ [w])"
  using assms unfolding notifies_one_def by (cases "waiting = []") (simp, blast)

lemma notify_empty_inv:
  assumes "notifies_one notify" "queue_inv (mon_queue m)"
    "empty_cv m \<noteq> [] \<Longrightarrow> length (bq_queue (mon_queue m)) \<le> Suc (length (empty_woken m))"
    "filled_cv m \<noteq> [] \<Longrightarrow>
       bq_capacity (mon_queue m) \<le> length (bq_queue (mon_queue m)) + length (filled_woken m)"
    "\<forall>w \<in> set (empty_cv m) \<union> set (empty_woken m). snd w = None"
    "\<forall>w \<in> set (filled_cv m) \<union> set (filled_woken m). snd w \<noteq> None"
  shows "mon_inv (notify_empty notify m)"
  using assms(1)
proof (cases rule: notifies_one_cases[of notify "empty_cv m" "empty_woken m"])
  case 1
  then show ?thesis using assms by (simp add: notify_empty_def mon_inv_def)
next
  case (2 w)
  then have "empty_cv m \<noteq> []" by auto
  with 2 assms show ?thesis
    by (auto simp: notify_empty_def mon_inv_def dest: notin_set_remove1 set_mp[OF set_remove1_subset])
qed

lemma notify_filled_inv:
  assumes "notifies_one notify" "queue_inv (mon_queue m)"
    "empty_cv m \<noteq> [] \<Longrightarrow> length (bq_queue (mon_queue m)) \<le> length (empty_woken m)"
    "filled_cv m \<noteq> [] \<Longrightarrow>
       bq_capacity (mon_queue m) \<le> Suc (length (bq_queue (mon_queue m)) + length (filled_woken m))"
    "\<forall>w \<in> set (empty_cv m) \<union> set (empty_woken m). snd w = None"
    "\<forall>w \<in> set (filled_cv m) \<union> set (filled_woken m). snd w \<noteq> None"
  shows "mon_inv (notify_filled notify m)"
  using assms(1)
proof (cases rule: notifies_one_cases[of notify "filled_cv m" "filled_woken m"])
  case 1
  then show ?thesis using assms by (simp add: notify_filled_def mon_inv_def)
next
  case (2 w)
  then have "filled_cv m \<noteq> []" by auto
  with 2 assms show ?thesis
    by (auto simp: notify_filled_def mon_inv_def dest: set_mp[OF set_remove1_subset])
qed


text \<open>A woken waiter that retakes the mutex stops counting as woken before it acts.\<close>

definition mon_inv_unwoken :: "bool \<Rightarrow> bool \<Rightarrow> ('t, 'e) monitor \<Rightarrow> bool" where
  "mon_inv_unwoken consumer producer m \<longleftrightarrow>
     queue_inv (mon_queue m) \<and>
     (empty_cv m \<noteq> [] \<longrightarrow>
        length (bq_queue (mon_queue m)) \<le> length (empty_woken m) + (if consumer then 1 else 0)) \<and>
     (filled_cv m \<noteq> [] \<longrightarrow>
        bq_capacity (mon_queue m) \<le>
          length (bq_queue (mon_queue m)) + length (filled_woken m) + (if producer then 1 else 0)) \<and>
     (\<forall>w \<in> set (empty_cv m) \<union> set (empty_woken m). snd w = None) \<and>
     (\<forall>w \<in> set (filled_cv m) \<union> set (filled_woken m). snd w \<noteq> None)"

lemma mon_inv_unwokenI:
  "mon_inv m \<Longrightarrow> mon_inv_unwoken c p m"
  by (auto simp: mon_inv_def mon_inv_unwoken_def)

lemma mon_Pop_inv:
  assumes "notifies_one notify" "mon_inv_unwoken True False m"
  shows "mon_inv (snd (mon_Pop notify t m))"
proof (cases "BoundedQueue_Pop (mon_queue m)")
  case None
  then have "bq_queue (mon_queue m) = []" by (simp add: bq.pop_blocks)
  with None assms(2) show ?thesis
    by (auto simp: mon_Pop_def mon_inv_def mon_inv_unwoken_def)
next
  case (Some r)
  then obtain e q where r: "BoundedQueue_Pop (mon_queue m) = Some (e, q)" by (cases r) auto
  then have "bq_queue (mon_queue m) = e # bq_queue q" "bq_capacity q = bq_capacity (mon_queue m)"
    by (auto dest: bq.pop_takes)
  moreover from r assms(2) have "queue_inv q"
    by (auto simp: mon_inv_unwoken_def dest: BoundedQueue_Pop_inv)
  ultimately have "mon_inv (notify_filled notify (m\<lparr>mon_queue := q\<rparr>))"
    using assms by (intro notify_filled_inv) (auto simp: mon_inv_unwoken_def)
  with r show ?thesis by (simp add: mon_Pop_def)
qed

lemma mon_Push_inv:
  assumes "notifies_one notify" "mon_inv_unwoken False True m"
  shows "mon_inv (snd (mon_Push notify t e m))"
proof (cases "BoundedQueue_Push e (mon_queue m)")
  case None
  then have "length (bq_queue (mon_queue m)) = bq_capacity (mon_queue m)"
    by (simp add: bq.push_blocks)
  with None assms(2) show ?thesis
    by (auto simp: mon_Push_def mon_inv_def mon_inv_unwoken_def)
next
  case (Some q)
  then have "bq_queue q = bq_queue (mon_queue m) @ [e]" "bq_capacity q = bq_capacity (mon_queue m)"
    by (auto dest: bq.push_appends)
  moreover from Some assms(2) have "queue_inv q"
    by (auto simp: mon_inv_unwoken_def dest: BoundedQueue_Push_inv)
  ultimately have "mon_inv (notify_empty notify (m\<lparr>mon_queue := q\<rparr>))"
    using assms by (intro notify_empty_inv) (auto simp: mon_inv_unwoken_def)
  with Some show ?thesis by (simp add: mon_Push_def)
qed

lemma mon_TryPop_as_Pop:
  "mon_TryPop notify m =
     (if bq_queue (mon_queue m) = [] then (None, m) else mon_Pop notify t m)"
  by (auto simp: mon_TryPop_def mon_Pop_def BoundedQueue_TryPop_def BoundedQueue_Pop_def
      split: list.splits)

lemma mon_TryPush_as_Push:
  "mon_TryPush notify e m =
     (if length (bq_queue (mon_queue m)) = bq_capacity (mon_queue m) then (False, m)
      else mon_Push notify t e m)"
  by (simp add: mon_TryPush_def mon_Push_def BoundedQueue_TryPush_def BoundedQueue_Push_def
      Capacity_def)

lemma unwoken_consumer:
  assumes "mon_inv m" "(t, None) \<in> set (empty_woken m)"
  shows "mon_inv_unwoken True False (m\<lparr>empty_woken := remove1 (t, None) (empty_woken m)\<rparr>)"
  using assms
  by (auto simp: mon_inv_def mon_inv_unwoken_def length_remove1
      dest: set_mp[OF set_remove1_subset])

lemma unwoken_producer:
  assumes "mon_inv m" "(t, Some e) \<in> set (filled_woken m)"
  shows "mon_inv_unwoken False True (m\<lparr>filled_woken := remove1 (t, Some e) (filled_woken m)\<rparr>)"
  using assms
  by (auto simp: mon_inv_def mon_inv_unwoken_def length_remove1
      dest: set_mp[OF set_remove1_subset])

lemma mon_step_inv:
  assumes "notifies_one notify" "mon_step notify m m'" "mon_inv m"
  shows "mon_inv m'"
  using assms(2,3)
proof cases
  case (pop t)
  then show ?thesis using assms by (simp add: mon_Pop_inv mon_inv_unwokenI)
next
  case (pop_resume t)
  then show ?thesis using assms by (simp add: mon_Pop_resume_def mon_Pop_inv unwoken_consumer)
next
  case (push t e)
  then show ?thesis using assms by (simp add: mon_Push_inv mon_inv_unwokenI)
next
  case (push_resume t e)
  then show ?thesis using assms by (simp add: mon_Push_resume_def mon_Push_inv unwoken_producer)
next
  case try_pop
  then show ?thesis
    using assms by (simp add: mon_TryPop_as_Pop[where t = undefined] mon_Pop_inv mon_inv_unwokenI)
next
  case (try_push e)
  then show ?thesis
    using assms by (simp add: mon_TryPush_as_Push[where t = undefined] mon_Push_inv mon_inv_unwokenI)
qed

lemma new_monitor_inv: "mon_inv (new_monitor n)"
  by (simp add: mon_inv_def new_monitor_def)

lemma mon_reach_inv:
  assumes "mon_reach notify capacity m" "notifies_one notify"
  shows "mon_inv m"
  using assms by (induction rule: mon_reach.induct) (auto intro: new_monitor_inv mon_step_inv)

section \<open>Histories\<close>

text \<open>
  One entry per critical section: whether it starts a call or continues one after a notification, whose call it is,
  and its result. A blocking call whose section has no result goes to sleep.
\<close>

datatype ('t, 'e) critical =
    Pop_section bool 't "'e option"
  | Push_section bool 't 'e bool
  | TryPop_section "'e option"
  | TryPush_section 'e bool

inductive mon_run :: "('t, 'e) notifier \<Rightarrow> nat \<Rightarrow> ('t, 'e) critical list \<Rightarrow> ('t, 'e) monitor \<Rightarrow> bool"
  for notify capacity where
  start: "mon_run notify capacity [] (new_monitor capacity)"
| pop: "mon_run notify capacity h m \<Longrightarrow> mon_Pop notify t m = (r, m') \<Longrightarrow>
    mon_run notify capacity (h @ [Pop_section True t r]) m'"
| pop_resume: "mon_run notify capacity h m \<Longrightarrow> (t, None) \<in> set (empty_woken m) \<Longrightarrow>
    mon_Pop_resume notify t m = (r, m') \<Longrightarrow> mon_run notify capacity (h @ [Pop_section False t r]) m'"
| push: "mon_run notify capacity h m \<Longrightarrow> mon_Push notify t e m = (ok, m') \<Longrightarrow>
    mon_run notify capacity (h @ [Push_section True t e ok]) m'"
| push_resume: "mon_run notify capacity h m \<Longrightarrow> (t, Some e) \<in> set (filled_woken m) \<Longrightarrow>
    mon_Push_resume notify t e m = (ok, m') \<Longrightarrow> mon_run notify capacity (h @ [Push_section False t e ok]) m'"
| try_pop: "mon_run notify capacity h m \<Longrightarrow> mon_TryPop notify m = (r, m') \<Longrightarrow>
    mon_run notify capacity (h @ [TryPop_section r]) m'"
| try_push: "mon_run notify capacity h m \<Longrightarrow> mon_TryPush notify e m = (ok, m') \<Longrightarrow>
    mon_run notify capacity (h @ [TryPush_section e ok]) m'"

text \<open>The runs are the ways to reach a state.\<close>

lemma mon_run_reach: "mon_run notify capacity h m \<Longrightarrow> mon_reach notify capacity m"
proof (induction rule: mon_run.induct)
  case (pop h m t r m')
  then show ?case using mon_step.pop[of notify m t] by (auto intro: mon_reach.step)
next
  case (pop_resume h m t r m')
  then show ?case using mon_step.pop_resume[of t m notify] by (auto intro: mon_reach.step)
next
  case (push h m t e ok m')
  then show ?case using mon_step.push[of notify m t e] by (auto intro: mon_reach.step)
next
  case (push_resume h m t e ok m')
  then show ?case using mon_step.push_resume[of t e m notify] by (auto intro: mon_reach.step)
next
  case (try_pop h m r m')
  then show ?case using mon_step.try_pop[of notify m] by (auto intro: mon_reach.step)
next
  case (try_push h m e ok m')
  then show ?case using mon_step.try_push[of notify m e] by (auto intro: mon_reach.step)
qed (rule mon_reach.init)

text \<open>
  The atomic queue as an acceptor of histories: a section is accepted where the atomic operation with
  this argument has this result, and a call that goes to sleep where the operation would block.
\<close>

fun atomic :: "('t, 'e) critical \<Rightarrow> 'e bounded_queue \<Rightarrow> 'e bounded_queue option" where
  "atomic (Pop_section _ _ r) q =
     (case BoundedQueue_Pop q of
        None \<Rightarrow> if r = None then Some q else None
      | Some (e, q') \<Rightarrow> if r = Some e then Some q' else None)"
| "atomic (Push_section _ _ e ok) q =
     (case BoundedQueue_Push e q of
        None \<Rightarrow> if ok then None else Some q
      | Some q' \<Rightarrow> if ok then Some q' else None)"
| "atomic (TryPop_section r) q = (case BoundedQueue_TryPop q of (r', q') \<Rightarrow> if r = r' then Some q' else None)"
| "atomic (TryPush_section e ok) q = (case BoundedQueue_TryPush e q of (ok', q') \<Rightarrow> if ok = ok' then Some q' else None)"

fun atomic_run :: "('t, 'e) critical list \<Rightarrow> 'e bounded_queue \<Rightarrow> 'e bounded_queue option" where
  "atomic_run [] q = Some q"
| "atomic_run (c # h) q = Option.bind (atomic c q) (atomic_run h)"

lemma atomic_run_snoc: "atomic_run (h @ [c]) q = Option.bind (atomic_run h q) (atomic c)"
  by (induction h arbitrary: q) (auto split: Option.bind_splits)

text \<open>The elements that were pushed and popped, in this order.\<close>

fun pushes :: "('t, 'e) critical \<Rightarrow> 'e list" where
  "pushes (Push_section _ _ e ok) = (if ok then [e] else [])"
| "pushes (TryPush_section e ok) = (if ok then [e] else [])"
| "pushes _ = []"

fun pops :: "('t, 'e) critical \<Rightarrow> 'e list" where
  "pops (Pop_section _ _ (Some e)) = [e]"
| "pops (TryPop_section (Some e)) = [e]"
| "pops _ = []"

text \<open>The blocking calls that were made and those that have returned, as waiters.\<close>

fun called :: "('t, 'e) critical \<Rightarrow> ('t, 'e) waiter multiset" where
  "called (Pop_section fresh t _) = (if fresh then {#(t, None)#} else {#})"
| "called (Push_section fresh t e _) = (if fresh then {#(t, Some e)#} else {#})"
| "called _ = {#}"

fun returned :: "('t, 'e) critical \<Rightarrow> ('t, 'e) waiter multiset" where
  "returned (Pop_section _ t r) = (if r \<noteq> None then {#(t, None)#} else {#})"
| "returned (Push_section _ t e ok) = (if ok then {#(t, Some e)#} else {#})"
| "returned _ = {#}"

definition suspended :: "('t, 'e) monitor \<Rightarrow> ('t, 'e) waiter multiset" where
  "suspended m = mset (empty_cv m) + mset (empty_woken m) + mset (filled_cv m) + mset (filled_woken m)"

section \<open>Refinement of the atomic queue\<close>

lemma mon_queue_notify [simp]:
  "mon_queue (notify_empty notify m) = mon_queue m"
  "mon_queue (notify_filled notify m) = mon_queue m"
  by (simp_all add: notify_empty_def notify_filled_def split: prod.splits)

lemma suspended_notify [simp]:
  assumes "notifies_one notify"
  shows "suspended (notify_empty notify m) = suspended m" "suspended (notify_filled notify m) = suspended m"
proof -
  show "suspended (notify_empty notify m) = suspended m"
    using assms by (cases rule: notifies_one_cases[of notify "empty_cv m" "empty_woken m"])
      (simp_all add: notify_empty_def suspended_def)
  show "suspended (notify_filled notify m) = suspended m"
    using assms by (cases rule: notifies_one_cases[of notify "filled_cv m" "filled_woken m"])
      (simp_all add: notify_filled_def suspended_def)
qed

lemma suspended_fields [simp]:
  "suspended (m\<lparr>mon_queue := q\<rparr>) = suspended m"
  "suspended (m\<lparr>empty_cv := empty_cv m @ [w]\<rparr>) = add_mset w (suspended m)"
  "suspended (m\<lparr>filled_cv := filled_cv m @ [w]\<rparr>) = add_mset w (suspended m)"
  by (simp_all add: suspended_def)

lemma suspended_resume:
  "w \<in> set (empty_woken m) \<Longrightarrow> add_mset w (suspended (m\<lparr>empty_woken := remove1 w (empty_woken m)\<rparr>)) = suspended m"
  "w \<in> set (filled_woken m) \<Longrightarrow> add_mset w (suspended (m\<lparr>filled_woken := remove1 w (filled_woken m)\<rparr>)) = suspended m"
  by (auto simp: suspended_def)

lemma mon_Pop_history:
  assumes "notifies_one notify" "mon_Pop notify t m = (r, m')"
  shows "atomic (Pop_section fresh t r) (mon_queue m) = Some (mon_queue m')"
    "suspended m' + returned (Pop_section fresh t r) = add_mset (t, None) (suspended m)"
  using assms by (auto simp: mon_Pop_def split: option.splits prod.splits)

lemma mon_Push_history:
  assumes "notifies_one notify" "mon_Push notify t e m = (ok, m')"
  shows "atomic (Push_section fresh t e ok) (mon_queue m) = Some (mon_queue m')"
    "suspended m' + returned (Push_section fresh t e ok) = add_mset (t, Some e) (suspended m)"
  using assms by (auto simp: mon_Push_def split: option.splits)

lemma mon_TryPop_history:
  assumes "notifies_one notify" "mon_TryPop notify m = (r, m')"
  shows "atomic (TryPop_section r) (mon_queue m) = Some (mon_queue m')" "suspended m' = suspended m"
  using assms by (auto simp: mon_TryPop_def BoundedQueue_TryPop_def split: option.splits prod.splits list.splits)

lemma mon_TryPush_history:
  assumes "notifies_one notify" "mon_TryPush notify e m = (ok, m')"
  shows "atomic (TryPush_section e ok) (mon_queue m) = Some (mon_queue m')" "suspended m' = suspended m"
  using assms by (auto simp: mon_TryPush_def BoundedQueue_TryPush_def split: prod.splits bool.splits if_splits)

text \<open>What a run has done so far: the atomic queue accepts it, and it accounts for every call.\<close>

definition accounted_for :: "nat \<Rightarrow> ('t, 'e) critical list \<Rightarrow> ('t, 'e) monitor \<Rightarrow> bool" where
  "accounted_for capacity h m \<longleftrightarrow>
     atomic_run h (BoundedQueue capacity) = Some (mon_queue m) \<and>
     (\<Sum>c\<leftarrow>h. called c) = (\<Sum>c\<leftarrow>h. returned c) + suspended m"

lemma accounted_for_snoc:
  assumes "accounted_for capacity h m" "atomic c (mon_queue m) = Some (mon_queue m')"
    "called c + suspended m = returned c + suspended m'"
  shows "accounted_for capacity (h @ [c]) m'"
  using assms by (simp add: accounted_for_def atomic_run_snoc add.assoc add.commute add.left_commute)

lemma mon_run_accounted:
  assumes "notifies_one notify"
  shows "mon_run notify capacity h m \<Longrightarrow> accounted_for capacity h m"
proof (induction rule: mon_run.induct)
  case start
  show ?case by (simp add: accounted_for_def new_monitor_def suspended_def)
next
  case (pop h m t r m')
  then show ?case using mon_Pop_history[OF assms pop.hyps(2), of True] by (intro accounted_for_snoc[OF pop.IH]) auto
next
  case (pop_resume h m t r m')
  then show ?case
    using mon_Pop_history[OF assms pop_resume.hyps(3)[unfolded mon_Pop_resume_def], of False]
      suspended_resume(1)[OF pop_resume.hyps(2)]
    by (intro accounted_for_snoc[OF pop_resume.IH]) auto
next
  case (push h m t e ok m')
  then show ?case using mon_Push_history[OF assms push.hyps(2), of True] by (intro accounted_for_snoc[OF push.IH]) auto
next
  case (push_resume h m t e ok m')
  then show ?case
    using mon_Push_history[OF assms push_resume.hyps(3)[unfolded mon_Push_resume_def], of False]
      suspended_resume(2)[OF push_resume.hyps(2)]
    by (intro accounted_for_snoc[OF push_resume.IH]) auto
next
  case (try_pop h m r m')
  then show ?case using mon_TryPop_history[OF assms try_pop.hyps(2)] by (intro accounted_for_snoc[OF try_pop.IH]) auto
next
  case (try_push h m e ok m')
  then show ?case using mon_TryPush_history[OF assms try_push.hyps(2)] by (intro accounted_for_snoc[OF try_push.IH]) auto
qed

lemma atomic_fifo:
  assumes "atomic c q = Some q'"
  shows "bq_queue q @ pushes c = pops c @ bq_queue q'"
proof (cases c)
  case (Pop_section fresh t r)
  then show ?thesis using assms bq.pop_takes[of q] bq.pop_blocks[of q]
    by (cases "BoundedQueue_Pop q") (auto split: if_splits)
next
  case (Push_section fresh t e ok)
  then show ?thesis using assms bq.push_appends[of e q] by (cases "BoundedQueue_Push e q") (auto split: if_splits)
next
  case (TryPop_section r)
  then show ?thesis using assms by (cases "bq_queue q") (auto simp: BoundedQueue_TryPop_def split: if_splits)
next
  case (TryPush_section e ok)
  then show ?thesis using assms by (auto simp: BoundedQueue_TryPush_def split: if_splits)
qed

lemma atomic_run_fifo:
  "atomic_run h q = Some q' \<Longrightarrow> bq_queue q @ concat (map pushes h) = concat (map pops h) @ bq_queue q'"
proof (induction h arbitrary: q)
  case (Cons c h)
  then obtain q1 where "atomic c q = Some q1" "atomic_run h q1 = Some q'" by (auto split: Option.bind_splits)
  then have step: "bq_queue q @ pushes c = pops c @ bq_queue q1"
    and rest: "bq_queue q1 @ concat (map pushes h) = concat (map pops h) @ bq_queue q'"
    using Cons.IH atomic_fifo by blast+
  have "bq_queue q @ concat (map pushes (c # h)) = (bq_queue q @ pushes c) @ concat (map pushes h)" by simp
  also have "\<dots> = pops c @ bq_queue q1 @ concat (map pushes h)" unfolding step by simp
  also have "\<dots> = concat (map pops (c # h)) @ bq_queue q'" unfolding rest by simp
  finally show ?case .
qed simp

section \<open>Properties of the suspension protocol\<close>

text \<open>A notifier that resumes the waiter that has slept longest.\<close>

definition notify_first :: "('t, 'e) notifier" where
  "notify_first waiting woken = (case waiting of [] \<Rightarrow> ([], woken) | w # ws \<Rightarrow> (ws, woken @ [w]))"

lemma notify_first_one: "notifies_one notify_first"
  by (auto simp: notifies_one_def notify_first_def split: list.splits intro!: bexI)

text \<open>
  C20: no lost wake-up. Whatever waiter \<^verbatim>\<open>notifyOne\<close> picks and however calls interleave, a
  consumer sleeps on \<^verbatim>\<open>empty_cv_\<close> only if every element in the deque has an awakened consumer on
  its way, and a producer sleeps on \<^verbatim>\<open>filled_cv_\<close> only if every free slot has an awakened
  producer on its way; so with nobody on its way, sleepers imply an empty, respectively a full,
  deque.
\<close>

theorem no_lost_wakeup:
  assumes "notifies_one notify" "mon_reach notify capacity m"
  shows "(empty_cv m \<noteq> [] \<longrightarrow> length (bq_queue (mon_queue m)) \<le> length (empty_woken m)) \<and>
    (filled_cv m \<noteq> [] \<longrightarrow>
      Capacity (mon_queue m) \<le> length (bq_queue (mon_queue m)) + length (filled_woken m)) \<and>
    (empty_cv m \<noteq> [] \<and> empty_woken m = [] \<longrightarrow> BoundedQueue_Pop (mon_queue m) = None) \<and>
    (filled_cv m \<noteq> [] \<and> filled_woken m = [] \<longrightarrow> BoundedQueue_Push e (mon_queue m) = None)"
proof -
  have inv: "mon_inv m" using mon_reach_inv[OF assms(2,1)] .
  then have "length (bq_queue (mon_queue m)) \<le> bq_capacity (mon_queue m)"
    by (simp add: mon_inv_def queue_inv_def)
  with inv show ?thesis
    by (auto simp: mon_inv_def Capacity_def bq.pop_blocks bq.push_blocks)
qed

theorem no_lost_wakeup_witness:
  "mon_reach notify_first 1 (snd (mon_Pop notify_first 7 (new_monitor 1 :: (nat, nat) monitor))) \<and>
   BoundedQueue_Pop (mon_queue (snd (mon_Pop notify_first 7 (new_monitor 1 :: (nat, nat) monitor)))) = None"
proof -
  let ?m = "snd (mon_Pop notify_first 7 (new_monitor 1 :: (nat, nat) monitor))"
  have r: "mon_reach notify_first 1 ?m"
    by (rule mon_reach.step[OF mon_reach.init mon_step.pop])
  have "empty_cv ?m = [(7, None)]" "empty_woken ?m = []"
    by (simp_all add: mon_Pop_def new_monitor_def BoundedQueue_Pop_def BoundedQueue_def)
  then show ?thesis using no_lost_wakeup[OF notify_first_one r] r by simp
qed

text \<open>
  C24: the blocking queue refines the atomic queue, and loses no call. For every run, under any interleaving and any
  choice of the notified waiter, the history of its critical sections, with their arguments and results, is one
  that the atomic queue accepts, from the empty queue to the present content. So the elements pushed are
  those popped followed by the content, in this order. And the calls of \<^verbatim>\<open>Pop\<close> and \<^verbatim>\<open>Push\<close> that were made are, with
  their coroutines, elements and multiplicities, those that have returned and those that are suspended.
\<close>

theorem monitor_refines_queue:
  assumes "notifies_one notify" "mon_run notify capacity h m"
  shows "atomic_run h (BoundedQueue capacity) = Some (mon_queue m) \<and>
    concat (map pushes h) = concat (map pops h) @ bq_queue (mon_queue m) \<and>
    (\<Sum>c\<leftarrow>h. called c) = (\<Sum>c\<leftarrow>h. returned c) +
      mset (empty_cv m) + mset (empty_woken m) + mset (filled_cv m) + mset (filled_woken m)"
  using mon_run_accounted[OF assms] atomic_run_fifo[of h "BoundedQueue capacity" "mon_queue m"]
  by (simp add: accounted_for_def suspended_def BoundedQueue_def add.assoc)

text \<open>A consumer that has to wait, a producer, and the consumer again.\<close>

definition demo_history :: "(nat, nat) critical list" where
  "demo_history = [Pop_section True 7 None, Push_section True 8 5 True, Pop_section False 7 (Some 5)]"

theorem monitor_refines_queue_witness:
  "\<exists>m. mon_run notify_first 1 demo_history m \<and>
     (\<Sum>c\<leftarrow>demo_history. called c) = (\<Sum>c\<leftarrow>demo_history. returned c) \<and>
     concat (map pushes demo_history) = concat (map pops demo_history)"
proof -
  let ?m0 = "new_monitor 1 :: (nat, nat) monitor"
  let ?m1 = "?m0\<lparr>empty_cv := [(7, None)]\<rparr>"
  let ?m2 = "?m0\<lparr>mon_queue := \<lparr>bq_queue = [5], bq_capacity = 1\<rparr>, empty_woken := [(7, None)]\<rparr>"
  have steps: "mon_Pop notify_first 7 ?m0 = (None, ?m1)" "mon_Push notify_first 8 5 ?m1 = (True, ?m2)"
    "mon_Pop_resume notify_first 7 ?m2 = (Some 5, ?m0)"
    by (simp_all add: mon_Pop_def mon_Push_def mon_Pop_resume_def new_monitor_def BoundedQueue_def BoundedQueue_Pop_def
        BoundedQueue_Push_def Capacity_def notify_empty_def notify_filled_def notify_first_def)
  have "mon_run notify_first 1 ([] @ [Pop_section True 7 None]) ?m1" by (rule mon_run.pop[OF mon_run.start steps(1)])
  from mon_run.push[OF this steps(2)] have "mon_run notify_first 1 ([Pop_section True 7 None] @ [Push_section True 8 5 True]) ?m2"
    by simp
  from mon_run.pop_resume[OF this _ steps(3)] have run: "mon_run notify_first 1 demo_history ?m0"
    by (simp add: demo_history_def)
  from monitor_refines_queue[OF notify_first_one this] have
    "(\<Sum>c\<leftarrow>demo_history. called c) = (\<Sum>c\<leftarrow>demo_history. returned c)"
    "concat (map pushes demo_history) = concat (map pops demo_history)"
    by (simp_all add: new_monitor_def BoundedQueue_def)
  then show ?thesis using run by blast
qed

end
