(* ===== verification/Channel.thy ===== *)
theory Channel
  imports Bounded_Queue
begin

text \<open>
  \<^verbatim>\<open>include/tunnel/channel.h\<close>: a channel is a handle on a shared queue together with a
  port index. Queues live in a heap, so that two channels made from the same
  \<^verbatim>\<open>std::shared_ptr\<close> name the same queue.
\<close>

section \<open>The queues behind the shared pointers\<close>

text \<open>Addresses below \<open>next_queue\<close> have been handed out by \<^verbatim>\<open>std::make_shared\<close>.\<close>

record 'v qheap =
  next_queue :: nat
  queue_at :: "nat \<Rightarrow> 'v option bounded_queue"

definition empty_qheap :: "'v qheap" where
  "empty_qheap = \<lparr>next_queue = 0, queue_at = (\<lambda>_. BoundedQueue 0)\<rparr>"

definition make_queue :: "nat \<Rightarrow> 'v qheap \<Rightarrow> nat \<times> 'v qheap" where
  "make_queue capacity h =
     (next_queue h,
      h\<lparr>next_queue := Suc (next_queue h),
        queue_at := (queue_at h)(next_queue h := BoundedQueue capacity)\<rparr>)"

lemma make_queue_simps [simp]:
  "fst (make_queue c h) = next_queue h"
  "next_queue (snd (make_queue c h)) = Suc (next_queue h)"
  "queue_at (snd (make_queue c h)) = (queue_at h)(next_queue h := BoundedQueue c)"
  by (simp_all add: make_queue_def)

section \<open>Channels\<close>

definition default_channel_size :: nat where
  "default_channel_size = 1"

record chan =
  ch_queue :: "nat option"
  ch_index :: nat

text \<open>\<^verbatim>\<open>Channel()\<close> and \<^verbatim>\<open>Channel(std::shared_ptr<...> queue)\<close>.\<close>

definition Channel_null :: chan where
  "Channel_null = \<lparr>ch_queue = None, ch_index = 0\<rparr>"

definition Channel_shared :: "nat \<Rightarrow> chan" where
  "Channel_shared q = \<lparr>ch_queue = Some q, ch_index = 0\<rparr>"

text \<open>
  \<^verbatim>\<open>Channel(size_t capacity)\<close> has no initialiser for \<^verbatim>\<open>index_\<close>: the member keeps
  whatever its storage held, the argument \<open>garbage\<close>.
\<close>

definition Channel_sized :: "nat \<Rightarrow> nat \<Rightarrow> 'v qheap \<Rightarrow> chan \<times> 'v qheap" where
  "Channel_sized garbage capacity h =
     (let (q, h') = make_queue capacity h
      in (\<lparr>ch_queue = Some q, ch_index = garbage\<rparr>, h'))"

text \<open>\<^verbatim>\<open>operator bool\<close>, \<^verbatim>\<open>SetIndex\<close>, \<^verbatim>\<open>GetIndex\<close> and \<^verbatim>\<open>reset\<close>.\<close>

definition chan_bool :: "chan \<Rightarrow> bool" where
  "chan_bool c \<longleftrightarrow> ch_queue c \<noteq> None"

definition SetIndex :: "nat \<Rightarrow> chan \<Rightarrow> chan" where
  "SetIndex i c = c\<lparr>ch_index := i\<rparr>"

definition GetIndex :: "chan \<Rightarrow> nat" where
  "GetIndex c = ch_index c"

definition chan_reset :: "chan \<Rightarrow> chan" where
  "chan_reset c = c\<lparr>ch_queue := None\<rparr>"

lemma chan_op_simps [simp, chan_simps]:
  "ch_queue Channel_null = None"
  "ch_queue (Channel_shared q) = Some q"
  "ch_queue (SetIndex i c) = ch_queue c"
  "ch_queue (chan_reset c) = None"
  "ch_index (SetIndex i c) = i"
  "ch_index (chan_reset c) = ch_index c"
  by (simp_all add: Channel_null_def Channel_shared_def SetIndex_def chan_reset_def)

end
