(* ===== verification/Event_Collector.thy ===== *)
theory Event_Collector
  imports Tunnel_Prelude "HOL-Library.Word"
begin

text \<open>
  \<^verbatim>\<open>include/tunnel/event_collector.h\<close> and the byte-count part of
  \<^verbatim>\<open>include/tunnel/tunnel_traits.h\<close>: the statistics a processor keeps about its ports. The
  system clock is read through the argument \<open>now\<close> of each operation; the counters are
  \<^verbatim>\<open>size_t\<close> and wrap at 64 bits.
\<close>

section \<open>Bytes of an element\<close>

text \<open>
  What the type \<^verbatim>\<open>T\<close> of a pipeline offers: a member \<^verbatim>\<open>tunnel_get_bytes()\<close>, a
  specialisation of \<^verbatim>\<open>GetBytes\<close>, both, or neither.
\<close>

record 'v traits =
  tunnel_get_bytes :: "('v \<Rightarrow> nat) option"
  GetBytes :: "('v \<Rightarrow> nat) option"

definition RecordTransferredBytes :: "'v traits \<Rightarrow> bool" where
  "RecordTransferredBytes tr \<longleftrightarrow> GetBytes tr \<noteq> None \<or> tunnel_get_bytes tr \<noteq> None"

text \<open>The member has priority over the specialisation; \<^const>\<open>None\<close> where the constraint fails.\<close>

definition GetTransferredBytes :: "'v traits \<Rightarrow> 'v \<Rightarrow> nat option" where
  "GetTransferredBytes tr v =
     (case tunnel_get_bytes tr of
        Some f \<Rightarrow> Some (f v)
      | None \<Rightarrow> map_option (\<lambda>f. f v) (GetBytes tr))"

section \<open>Port statistics\<close>

record port_statistic =
  count :: "64 word"
  bytes :: "64 word"
  first_time :: nat
  last_time :: nat

text \<open>A default \<^verbatim>\<open>time_point\<close> is the epoch.\<close>

definition new_port_statistic :: port_statistic where
  "new_port_statistic = \<lparr>count = 0, bytes = 0, first_time = 0, last_time = 0\<rparr>"

record event_collector =
  ec_processor_id :: nat
  ec_processor_name :: string
  work_start :: nat
  work_end :: nat
  enter_hosted_mode :: "nat option"
  input_ports_statistic :: "nat \<rightharpoonup> port_statistic"
  output_ports_statistic :: "nat \<rightharpoonup> port_statistic"

definition EventCollector :: "nat \<Rightarrow> string \<Rightarrow> event_collector" where
  "EventCollector pid nm =
     \<lparr>ec_processor_id = pid, ec_processor_name = nm, work_start = 0, work_end = 0,
      enter_hosted_mode = None, input_ports_statistic = Map.empty,
      output_ports_statistic = Map.empty\<rparr>"

definition WorkStart :: "nat \<Rightarrow> event_collector \<Rightarrow> event_collector" where
  "WorkStart now ec = ec\<lparr>work_start := now\<rparr>"

definition WorkEnd :: "nat \<Rightarrow> event_collector \<Rightarrow> event_collector" where
  "WorkEnd now ec = ec\<lparr>work_end := now\<rparr>"

definition EnterHostedMode :: "nat \<Rightarrow> event_collector \<Rightarrow> event_collector" where
  "EnterHostedMode now ec = ec\<lparr>enter_hosted_mode := Some now\<rparr>"

text \<open>
  \<^verbatim>\<open>InputPortRead\<close> and \<^verbatim>\<open>OutputPortWrite\<close> have the same body over two maps: create the
  entry on the first use of the port, count the access, and stamp the time of an EOF.
\<close>

definition port_access :: "nat \<Rightarrow> nat \<Rightarrow> nat \<Rightarrow> bool \<Rightarrow> (nat \<rightharpoonup> port_statistic) \<Rightarrow> (nat \<rightharpoonup> port_statistic)" where
  "port_access now index nbytes eof m =
     (let m1 = (if m index = None then m(index \<mapsto> new_port_statistic\<lparr>first_time := now\<rparr>) else m)
      in case m1 index of
           None \<Rightarrow> m1
         | Some st \<Rightarrow>
             let st1 = st\<lparr>count := count st + 1, bytes := bytes st + of_nat nbytes\<rparr>;
                 st2 = (if eof then st1\<lparr>last_time := now\<rparr> else st1)
             in m1(index \<mapsto> st2))"

definition InputPortRead :: "nat \<Rightarrow> nat \<Rightarrow> nat \<Rightarrow> bool \<Rightarrow> event_collector \<Rightarrow> event_collector" where
  "InputPortRead now index nbytes eof ec =
     ec\<lparr>input_ports_statistic := port_access now index nbytes eof (input_ports_statistic ec)\<rparr>"

definition OutputPortWrite :: "nat \<Rightarrow> nat \<Rightarrow> nat \<Rightarrow> bool \<Rightarrow> event_collector \<Rightarrow> event_collector" where
  "OutputPortWrite now index nbytes eof ec =
     ec\<lparr>output_ports_statistic := port_access now index nbytes eof (output_ports_statistic ec)\<rparr>"

section \<open>What a run of accesses leaves behind\<close>

text \<open>An access log entry: time, port index, bytes, and whether the element was EOF.\<close>

type_synonym access = "nat \<times> nat \<times> nat \<times> bool"

definition port_run :: "access list \<Rightarrow> (nat \<rightharpoonup> port_statistic) \<Rightarrow> (nat \<rightharpoonup> port_statistic)" where
  "port_run as m = fold (\<lambda>(now, index, nbytes, eof). port_access now index nbytes eof) as m"

abbreviation on_port :: "nat \<Rightarrow> access list \<Rightarrow> access list" where
  "on_port i as \<equiv> filter (\<lambda>a. fst (snd a) = i) as"

lemma port_access_other:
  "i \<noteq> index \<Longrightarrow> port_access now index nbytes eof m i = m i"
  by (auto simp: port_access_def Let_def split: option.splits)

lemma port_access_same:
  "port_access now index nbytes eof m index =
     (let st = (case m index of None \<Rightarrow> new_port_statistic\<lparr>first_time := now\<rparr> | Some st \<Rightarrow> st);
          st1 = st\<lparr>count := count st + 1, bytes := bytes st + of_nat nbytes\<rparr>
      in Some (if eof then st1\<lparr>last_time := now\<rparr> else st1))"
  by (auto simp: port_access_def Let_def split: option.splits)

lemma port_run_Nil [simp]: "port_run [] m = m"
  by (simp add: port_run_def)

lemma port_run_snoc:
  "port_run (as @ [(now, index, nbytes, eof)]) m = port_access now index nbytes eof (port_run as m)"
  by (simp add: port_run_def)

lemma port_run_None:
  "port_run as Map.empty i = None \<longleftrightarrow> on_port i as = []"
proof (induction as rule: rev_induct)
  case Nil
  then show ?case by simp
next
  case (snoc a as)
  obtain now index nbytes eof where a: "a = (now, index, nbytes, eof)" by (cases a)
  show ?case
    using snoc by (cases "i = index") (auto simp: a port_run_snoc port_access_same port_access_other Let_def)
qed

lemma port_run_Some:
  assumes "port_run as Map.empty i = Some st"
  shows "count st = of_nat (length (on_port i as)) \<and>
    bytes st = of_nat (sum_list (map (\<lambda>a. fst (snd (snd a))) (on_port i as)))"
  using assms
proof (induction as arbitrary: st rule: rev_induct)
  case Nil
  then show ?case by simp
next
  case (snoc a as)
  obtain now index nbytes eof where a: "a = (now, index, nbytes, eof)" by (cases a)
  show ?case
  proof (cases "i = index")
    case False
    then show ?thesis using snoc by (simp add: a port_run_snoc port_access_other)
  next
    case True
    show ?thesis
    proof (cases "port_run as Map.empty i")
      case None
      then have "on_port i as = []" by (simp only: port_run_None)
      with None True snoc.prems show ?thesis
        by (auto simp: a port_run_snoc port_access_same Let_def new_port_statistic_def)
    next
      case (Some st')
      with snoc.IH[OF Some] True snoc.prems show ?thesis
        by (auto simp: a port_run_snoc port_access_same Let_def)
    qed
  qed
qed

section \<open>Properties of the statistics\<close>

text \<open>
  C38: the statistics of a port count its accesses exactly. After any sequence of accesses, a port
  has an entry iff it was accessed, and the entry holds the number of accesses and the sum of
  their bytes, both modulo 2 to the 64.
\<close>

theorem port_statistics_exact:
  "case port_run as Map.empty i of
     None \<Rightarrow> on_port i as = []
   | Some st \<Rightarrow> on_port i as \<noteq> [] \<and> count st = of_nat (length (on_port i as)) \<and>
       bytes st = of_nat (sum_list (map (\<lambda>a. fst (snd (snd a))) (on_port i as)))"
  using port_run_None[of as i] port_run_Some[of as i] by (auto split: option.splits)

end
