(* ===== verification/Processor.thy ===== *)
theory Processor
  imports Channel Event_Collector
begin

text \<open>
  \<^verbatim>\<open>include/tunnel/processor.h\<close>, \<^verbatim>\<open>multi_input_one_output.h\<close> and
  \<^verbatim>\<open>one_input_multi_output.h\<close>: the data of a processor, its identity, its ports and the
  \<^verbatim>\<open>connect\<close> functions. The subclasses are the constructors of \<open>node_class\<close>; their
  coroutine bodies are in \<open>Nodes\<close>, the scheduling of these bodies is in \<open>Coroutine\<close>.
\<close>

section \<open>Identities\<close>

text \<open>\<^verbatim>\<open>detail::GenerateId\<close>: the counter starts at 1 and wraps with \<^verbatim>\<open>uint64_t\<close>.\<close>

definition GenerateId :: "nat \<Rightarrow> nat \<times> nat" where
  "GenerateId counter = (counter, (counter + 1) mod 2 ^ 64)"

section \<open>Classes of nodes\<close>

text \<open>
  The classes derived from \<^verbatim>\<open>Processor<T>\<close>. A class that the user completes carries the
  user's override and the state \<open>'s\<close> of the derived object; an override returns a value or
  throws, and may change the state either way.
\<close>

datatype ('v, 's) node_class =
    SourceC "'s \<Rightarrow> 'v option result \<times> 's" 's
  | EmptySourceC
  | ChannelSourceC
  | SinkC "'s \<Rightarrow> 'v \<Rightarrow> unit result \<times> 's" 's
  | DumpSinkC
  | ChannelSinkC
  | SimpleTransformC "'s \<Rightarrow> 'v \<Rightarrow> 'v result \<times> 's" 's
  | NoOpTransformC
  | FilterC "'s \<Rightarrow> 'v \<Rightarrow> bool result \<times> 's" 's
  | AccumulateC "'s \<Rightarrow> 'v \<Rightarrow> unit result \<times> 's" "'s \<Rightarrow> 'v result \<times> 's" 's
  | ConcatC nat
  | DispatchC nat "'s \<Rightarrow> 'v \<Rightarrow> nat result \<times> 's" 's
  | ForkC nat
  | ProcessorC

text \<open>The bases \<^verbatim>\<open>Source\<close>, \<^verbatim>\<open>Sink\<close>, \<^verbatim>\<open>Transform\<close>, \<^verbatim>\<open>MultiIOneO\<close>, \<^verbatim>\<open>OneIMultiO\<close>.\<close>

datatype base_class = SourceB | SinkB | TransformB | MultiIOneOB | OneIMultiOB | ProcessorB

fun base_of :: "('v, 's) node_class \<Rightarrow> base_class" where
  "base_of (SourceC _ _) = SourceB"
| "base_of EmptySourceC = SourceB"
| "base_of ChannelSourceC = SourceB"
| "base_of (SinkC _ _) = SinkB"
| "base_of DumpSinkC = SinkB"
| "base_of ChannelSinkC = SinkB"
| "base_of (SimpleTransformC _ _) = TransformB"
| "base_of NoOpTransformC = TransformB"
| "base_of (FilterC _ _) = TransformB"
| "base_of (AccumulateC _ _ _) = TransformB"
| "base_of (ConcatC _) = MultiIOneOB"
| "base_of (DispatchC _ _ _) = OneIMultiOB"
| "base_of (ForkC _) = OneIMultiOB"
| "base_of ProcessorC = ProcessorB"

text \<open>\<^verbatim>\<open>MultiIOneO::Size\<close> and \<^verbatim>\<open>OneIMultiO::Size\<close>: the number of ports given to the constructor.\<close>

fun class_size :: "('v, 's) node_class \<Rightarrow> nat" where
  "class_size (ConcatC n) = n"
| "class_size (DispatchC n _ _) = n"
| "class_size (ForkC n) = n"
| "class_size _ = 0"

section \<open>Coroutine frames\<close>

text \<open>Which channel member a coroutine holds a reference to, and which counter.\<close>

datatype chan_ref = InPort | OutPort | Inputs nat | Outputs nat

datatype count_ref = InputCount | LocalCount nat

text \<open>
  The rest of a \<^verbatim>\<open>work()\<close> body up to its next \<^verbatim>\<open>Pop\<close>, as the awaits it performs; and
  the awaits of a \<^verbatim>\<open>hosted_mode()\<close> body.
\<close>

datatype 'v cmd = CPop chan_ref | CGenerate | CPush "'v option" chan_ref | CReturn

datatype hosted_cmd = CloseInput chan_ref count_ref | CloseOutput chan_ref

text \<open>
  Where the coroutine \<^verbatim>\<open>work_with_exception()\<close> of a processor is suspended:
  in \<^verbatim>\<open>Pop\<close> or \<^verbatim>\<open>Push\<close> on the port's queue or on the abort queue, in the notification
  of the abort queue, in \<^verbatim>\<open>close_input\<close>/\<^verbatim>\<open>close_output\<close> of the hosted mode, in
  \<^verbatim>\<open>after_work\<close>; or ended, with the \<^verbatim>\<open>Try<void>\<close> the pipeline collects.
  \<open>Aborted\<close> is \<^verbatim>\<open>std::abort\<close> (also a failed \<^verbatim>\<open>assert\<close>), \<open>Crashed\<close> is a null
  queue dereferenced.
\<close>

datatype 'v pc =
    Created
  | PopWait chan_ref count_ref
  | PopAbortWait chan_ref count_ref "'v option" bool
  | PushWait "'v option" chan_ref "'v cmd list"
  | PushAbortWait "'v cmd list"
  | NotifyWait exn
  | CloseInputWait chan_ref count_ref "hosted_cmd list" exn
  | CloseOutputWait chan_ref "hosted_cmd list" exn
  | AfterWorkWait
  | Finished "exn option"
  | Aborted
  | Crashed

section \<open>Processors\<close>

record ('v, 's) processor =
  processor_id :: nat
  name :: string
  abort_port :: chan
  event_collector :: event_collector
  bind_ex :: "nat option"
  input_port :: chan
  output_port :: chan
  input_count :: nat
  inputs :: "chan list"
  outputs :: "chan list"
  node_class :: "('v, 's) node_class"
  traits :: "'v traits"
  pc :: "'v pc"

text \<open>
  The constructors. \<^verbatim>\<open>ChannelSource\<close> sets \<^verbatim>\<open>input_count_\<close> to 1; every other class
  leaves it at 0.
\<close>

definition Processor :: "'v traits \<Rightarrow> ('v, 's) node_class \<Rightarrow> string \<Rightarrow> nat \<Rightarrow> ('v, 's) processor" where
  "Processor tr c nm pid =
     \<lparr>processor_id = pid, name = nm, abort_port = Channel_null,
      event_collector = EventCollector pid nm, bind_ex = None,
      input_port = Channel_null, output_port = Channel_null,
      input_count = (case c of ChannelSourceC \<Rightarrow> 1 | _ \<Rightarrow> 0),
      inputs = [], outputs = [], node_class = c, traits = tr, pc = Created\<rparr>"

definition GetId :: "('v, 's) processor \<Rightarrow> nat" where
  "GetId p = processor_id p"

definition SetInputPort :: "chan \<Rightarrow> ('v, 's) processor \<Rightarrow> ('v, 's) processor" where
  "SetInputPort c p = p\<lparr>input_port := c, input_count := input_count p + 1\<rparr>"

definition SetOutputPort :: "chan \<Rightarrow> ('v, 's) processor \<Rightarrow> ('v, 's) processor" where
  "SetOutputPort c p = p\<lparr>output_port := c\<rparr>"

definition AddInputPort :: "chan \<Rightarrow> ('v, 's) processor \<Rightarrow> ('v, 's) processor" where
  "AddInputPort c p = p\<lparr>inputs := inputs p @ [c]\<rparr>"

definition AddOutputPort :: "chan \<Rightarrow> ('v, 's) processor \<Rightarrow> ('v, 's) processor" where
  "AddOutputPort c p = p\<lparr>outputs := outputs p @ [c]\<rparr>"

definition BindAbortChannel :: "chan \<Rightarrow> ('v, 's) processor \<Rightarrow> ('v, 's) processor" where
  "BindAbortChannel c p = p\<lparr>abort_port := c\<rparr>"

definition SetBindExecutor :: "nat option \<Rightarrow> ('v, 's) processor \<Rightarrow> ('v, 's) processor" where
  "SetBindExecutor e p = p\<lparr>bind_ex := e\<rparr>"

text \<open>\<^verbatim>\<open>ChannelSource::SetInputChannel\<close> and \<^verbatim>\<open>ChannelSink::SetOutputChannel\<close>.\<close>

definition SetInputChannel :: "chan \<Rightarrow> ('v, 's) processor \<Rightarrow> ('v, 's) processor" where
  "SetInputChannel c p = p\<lparr>input_port := c\<rparr>"

definition SetOutputChannel :: "chan \<Rightarrow> ('v, 's) processor \<Rightarrow> ('v, 's) processor" where
  "SetOutputChannel c p = p\<lparr>output_port := c\<rparr>"

section \<open>Connecting two processors\<close>

text \<open>
  The four overloads of \<^verbatim>\<open>connect\<close>. The first two write the output port of the upstream
  node and the input port of the downstream node; a \<^verbatim>\<open>MultiIOneO\<close> downstream collects the
  channel in \<^verbatim>\<open>inputs_\<close> instead, a \<^verbatim>\<open>OneIMultiO\<close> upstream in \<^verbatim>\<open>outputs_\<close>.
\<close>

definition connect_queue :: "nat \<Rightarrow> ('v, 's) processor \<Rightarrow> ('v, 's) processor \<Rightarrow>
    ('v, 's) processor \<times> ('v, 's) processor" where
  "connect_queue q inp outp =
     (SetOutputPort (Channel_shared q) inp, SetInputPort (Channel_shared q) outp)"

definition connect :: "nat \<Rightarrow> 'v qheap \<Rightarrow> ('v, 's) processor \<Rightarrow> ('v, 's) processor \<Rightarrow>
    (('v, 's) processor \<times> ('v, 's) processor) \<times> 'v qheap" where
  "connect channel_size h inp outp =
     (let (q, h') = make_queue channel_size h in (connect_queue q inp outp, h'))"

definition connect_multi_in :: "nat \<Rightarrow> 'v qheap \<Rightarrow> ('v, 's) processor \<Rightarrow> ('v, 's) processor \<Rightarrow>
    (('v, 's) processor \<times> ('v, 's) processor) \<times> 'v qheap" where
  "connect_multi_in channel_size h inp outp =
     (let (q, h') = make_queue channel_size h
      in ((SetOutputPort (Channel_shared q) inp, AddInputPort (Channel_shared q) outp), h'))"

definition connect_multi_out :: "nat \<Rightarrow> 'v qheap \<Rightarrow> ('v, 's) processor \<Rightarrow> ('v, 's) processor \<Rightarrow>
    (('v, 's) processor \<times> ('v, 's) processor) \<times> 'v qheap" where
  "connect_multi_out channel_size h inp outp =
     (let (q, h') = make_queue channel_size h
      in ((AddOutputPort (Channel_shared q) inp, SetInputPort (Channel_shared q) outp), h'))"

section \<open>References into a processor\<close>

fun get_chan :: "('v, 's) processor \<Rightarrow> chan_ref \<Rightarrow> chan" where
  "get_chan p InPort = input_port p"
| "get_chan p OutPort = output_port p"
| "get_chan p (Inputs i) = (if i < length (inputs p) then inputs p ! i else Channel_null)"
| "get_chan p (Outputs i) = (if i < length (outputs p) then outputs p ! i else Channel_null)"

fun upd_chan :: "(chan \<Rightarrow> chan) \<Rightarrow> chan_ref \<Rightarrow> ('v, 's) processor \<Rightarrow> ('v, 's) processor" where
  "upd_chan f InPort p = p\<lparr>input_port := f (input_port p)\<rparr>"
| "upd_chan f OutPort p = p\<lparr>output_port := f (output_port p)\<rparr>"
| "upd_chan f (Inputs i) p = p\<lparr>inputs := (inputs p)[i := f (inputs p ! i)]\<rparr>"
| "upd_chan f (Outputs i) p = p\<lparr>outputs := (outputs p)[i := f (outputs p ! i)]\<rparr>"

abbreviation chan_queue :: "('v, 's) processor \<Rightarrow> chan_ref \<Rightarrow> nat option" where
  "chan_queue p r \<equiv> ch_queue (get_chan p r)"

text \<open>
  \<^verbatim>\<open>GetInputPort\<close>, \<^verbatim>\<open>GetOutputPort\<close> return the member as it is; \<^verbatim>\<open>GetChannel(index)\<close>
  throws \<^verbatim>\<open>std::out_of_range\<close> from \<^verbatim>\<open>vector::at\<close> or stamps the index into the channel.
\<close>

fun MultiIOneO_GetChannel :: "nat \<Rightarrow> ('v, 's) processor \<Rightarrow> ('v, 's) processor result" where
  "MultiIOneO_GetChannel i p =
     (if i < length (inputs p) then Inr (upd_chan (SetIndex i) (Inputs i) p)
      else Inl (StdException ''vector::at''))"

fun OneIMultiO_GetChannel :: "nat \<Rightarrow> ('v, 's) processor \<Rightarrow> ('v, 's) processor result" where
  "OneIMultiO_GetChannel i p =
     (if i < length (outputs p) then Inr (upd_chan (SetIndex i) (Outputs i) p)
      else Inl (StdException ''vector::at''))"

fun GetChannel :: "chan_ref \<Rightarrow> ('v, 's) processor \<Rightarrow> ('v, 's) processor result" where
  "GetChannel (Inputs i) p = MultiIOneO_GetChannel i p"
| "GetChannel (Outputs i) p = OneIMultiO_GetChannel i p"
| "GetChannel _ p = Inr p"

fun read_count :: "('v, 's) processor \<Rightarrow> count_ref \<Rightarrow> nat" where
  "read_count p InputCount = input_count p"
| "read_count p (LocalCount n) = n"

text \<open>\<^verbatim>\<open>--input_count\<close> through the reference: the member, or the local variable of the caller.\<close>

fun dec_count :: "count_ref \<Rightarrow> ('v, 's) processor \<Rightarrow> count_ref \<times> ('v, 's) processor" where
  "dec_count InputCount p = (InputCount, p\<lparr>input_count := input_count p - 1\<rparr>)"
| "dec_count (LocalCount n) p = (LocalCount (n - 1), p)"

end
