(* ===== verification/Nodes.thy ===== *)
theory Nodes
  imports Processor
begin

text \<open>
  The virtual functions of the node classes: \<^verbatim>\<open>work\<close>, \<^verbatim>\<open>hosted_mode\<close>,
  \<^verbatim>\<open>before_work\<close>, from \<^verbatim>\<open>source.h\<close>, \<^verbatim>\<open>empty_source.h\<close>, \<^verbatim>\<open>channel_source.h\<close>,
  \<^verbatim>\<open>sink.h\<close>, \<^verbatim>\<open>dump_sink.h\<close>, \<^verbatim>\<open>channel_sink.h\<close>, \<^verbatim>\<open>transform.h\<close>,
  \<^verbatim>\<open>simple_transform.h\<close>, \<^verbatim>\<open>filter.h\<close>, \<^verbatim>\<open>accumulate.h\<close>, \<^verbatim>\<open>concat.h\<close>,
  \<^verbatim>\<open>dispatch.h\<close>, \<^verbatim>\<open>fork.h\<close> and the two multi-port bases.

  A \<^verbatim>\<open>work()\<close> body is an endless loop around one \<^verbatim>\<open>Pop\<close> (or one \<^verbatim>\<open>generate\<close>). Its
  translation is what the body does with the popped element: the user code it runs, then the
  awaits that follow up to and including the next \<^verbatim>\<open>Pop\<close>, or the \<^verbatim>\<open>co_return\<close>.
\<close>

section \<open>Bodies of the work coroutines\<close>

type_synonym ('v, 's) body = "'v cmd list result \<times> ('v, 's) node_class"

text \<open>\<^verbatim>\<open>Source::work\<close> after \<^verbatim>\<open>generate()\<close> has returned \<open>v\<close>.\<close>

definition Source_push :: "'v option \<Rightarrow> 'v cmd list" where
  "Source_push v = [CPush v OutPort, if v = None then CReturn else CGenerate]"

text \<open>
  \<^verbatim>\<open>generate()\<close> is the user's, or returns EOF at once in an \<^verbatim>\<open>EmptySource\<close>;
  \<^verbatim>\<open>ChannelSource::generate\<close> is a \<^verbatim>\<open>Pop\<close> of the input port.
\<close>

definition EmptySource_generate :: "'v option" where
  [simp]: "EmptySource_generate = None"

fun Source_generate :: "('v, 's) node_class \<Rightarrow> ('v, 's) body" where
  "Source_generate (SourceC generate s) =
     (case generate s of
        (Inl e, s') \<Rightarrow> (Inl e, SourceC generate s')
      | (Inr v, s') \<Rightarrow> (Inr (Source_push v), SourceC generate s'))"
| "Source_generate EmptySourceC = (Inr (Source_push EmptySource_generate), EmptySourceC)"
| "Source_generate ChannelSourceC = (Inr [CPop InPort], ChannelSourceC)"
| "Source_generate c = (Inr [CReturn], c)"

definition ChannelSource_body :: "'v option \<Rightarrow> 'v cmd list" where
  "ChannelSource_body v = Source_push v"

definition Sink_body :: "('s \<Rightarrow> 'v \<Rightarrow> unit result \<times> 's) \<Rightarrow> 's \<Rightarrow> 'v option \<Rightarrow> ('v, 's) body" where
  "Sink_body consume s v =
     (case v of
        Some x \<Rightarrow>
          (case consume s x of
             (Inl e, s') \<Rightarrow> (Inl e, SinkC consume s')
           | (Inr _, s') \<Rightarrow> (Inr [CPop InPort], SinkC consume s'))
      | None \<Rightarrow> (Inr [CReturn], SinkC consume s))"

text \<open>\<^verbatim>\<open>DumpSink::consume\<close> drops the element; \<^verbatim>\<open>ChannelSink::consume\<close> pushes it to the user's channel.\<close>

definition DumpSink_body :: "'v option \<Rightarrow> 'v cmd list" where
  "DumpSink_body v = (case v of Some x \<Rightarrow> [CPop InPort] | None \<Rightarrow> [CReturn])"

definition ChannelSink_body :: "'v option \<Rightarrow> 'v cmd list" where
  "ChannelSink_body v =
     (case v of Some x \<Rightarrow> [CPush (Some x) OutPort, CPop InPort] | None \<Rightarrow> [CReturn])"

definition SimpleTransform_body ::
    "('s \<Rightarrow> 'v \<Rightarrow> 'v result \<times> 's) \<Rightarrow> 's \<Rightarrow> 'v option \<Rightarrow> ('v, 's) body" where
  "SimpleTransform_body transform s v =
     (case v of
        Some x \<Rightarrow>
          (case transform s x of
             (Inl e, s') \<Rightarrow> (Inl e, SimpleTransformC transform s')
           | (Inr y, s') \<Rightarrow> (Inr [CPush (Some y) OutPort, CPop InPort], SimpleTransformC transform s'))
      | None \<Rightarrow> (Inr [CPush None OutPort, CReturn], SimpleTransformC transform s))"

definition NoOpTransform_body :: "'v option \<Rightarrow> 'v cmd list" where
  "NoOpTransform_body v =
     (case v of
        Some x \<Rightarrow> [CPush (Some x) OutPort, CPop InPort]
      | None \<Rightarrow> [CPush None OutPort, CReturn])"

definition Filter_body ::
    "('s \<Rightarrow> 'v \<Rightarrow> bool result \<times> 's) \<Rightarrow> 's \<Rightarrow> 'v option \<Rightarrow> ('v, 's) body" where
  "Filter_body filter_fn s v =
     (case v of
        Some x \<Rightarrow>
          (case filter_fn s x of
             (Inl e, s') \<Rightarrow> (Inl e, FilterC filter_fn s')
           | (Inr need_filter, s') \<Rightarrow>
               (Inr (if \<not> need_filter then [CPush (Some x) OutPort, CPop InPort] else [CPop InPort]),
                FilterC filter_fn s'))
      | None \<Rightarrow> (Inr [CPush None OutPort, CReturn], FilterC filter_fn s))"

definition Accumulate_body ::
    "('s \<Rightarrow> 'v \<Rightarrow> unit result \<times> 's) \<Rightarrow> ('s \<Rightarrow> 'v result \<times> 's) \<Rightarrow> 's \<Rightarrow> 'v option \<Rightarrow> ('v, 's) body" where
  "Accumulate_body consume generate s v =
     (case v of
        Some x \<Rightarrow>
          (case consume s x of
             (Inl e, s') \<Rightarrow> (Inl e, AccumulateC consume generate s')
           | (Inr _, s') \<Rightarrow> (Inr [CPop InPort], AccumulateC consume generate s'))
      | None \<Rightarrow>
          (case generate s of
             (Inl e, s') \<Rightarrow> (Inl e, AccumulateC consume generate s')
           | (Inr y, s') \<Rightarrow>
               (Inr [CPush (Some y) OutPort, CPush None OutPort, CReturn],
                AccumulateC consume generate s')))"

text \<open>
  \<^verbatim>\<open>Concat::work\<close>: the \<^verbatim>\<open>for\<close> loop over the inputs, entered at input \<open>i\<close>, and the
  inner loop after a \<^verbatim>\<open>Pop\<close> of input \<open>i\<close>.
\<close>

definition Concat_from :: "nat \<Rightarrow> nat \<Rightarrow> 'v cmd list" where
  "Concat_from n i = (if i < n then [CPop (Inputs i)] else [CPush None OutPort, CReturn])"

definition Concat_body :: "nat \<Rightarrow> nat \<Rightarrow> 'v option \<Rightarrow> 'v cmd list" where
  "Concat_body n i v =
     (case v of
        Some x \<Rightarrow> [CPush (Some x) OutPort, CPop (Inputs i)]
      | None \<Rightarrow> Concat_from n (Suc i))"

text \<open>The EOF loop that \<^verbatim>\<open>Dispatch::work\<close> and \<^verbatim>\<open>Fork::work\<close> share.\<close>

definition push_eof_all :: "nat \<Rightarrow> 'v cmd list" where
  "push_eof_all n = map (\<lambda>index. CPush None (Outputs index)) [0..<n] @ [CReturn]"

definition Dispatch_body ::
    "nat \<Rightarrow> ('s \<Rightarrow> 'v \<Rightarrow> nat result \<times> 's) \<Rightarrow> 's \<Rightarrow> 'v option \<Rightarrow> ('v, 's) body" where
  "Dispatch_body n dispatch s v =
     (case v of
        None \<Rightarrow> (Inr (push_eof_all n), DispatchC n dispatch s)
      | Some x \<Rightarrow>
          (case dispatch s x of
             (Inl e, s') \<Rightarrow> (Inl e, DispatchC n dispatch s')
           | (Inr k, s') \<Rightarrow>
               (Inr [CPush (Some x) (Outputs (k mod n)), CPop InPort], DispatchC n dispatch s')))"

definition Fork_body :: "nat \<Rightarrow> 'v option \<Rightarrow> 'v cmd list" where
  "Fork_body n v =
     (case v of
        None \<Rightarrow> push_eof_all n
      | Some x \<Rightarrow> map (\<lambda>index. CPush (Some x) (Outputs index)) [0..<n] @ [CPop InPort])"

section \<open>Dispatch of the virtual functions\<close>

text \<open>Entering \<^verbatim>\<open>work()\<close>; the base class has no body to enter.\<close>

fun work :: "('v, 's) node_class \<Rightarrow> 'v cmd list result" where
  "work (SourceC _ _) = Inr [CGenerate]"
| "work EmptySourceC = Inr [CGenerate]"
| "work ChannelSourceC = Inr [CGenerate]"
| "work (ConcatC n) = Inr (Concat_from n 0)"
| "work ProcessorC = Inl (StdException ''work function is not implemented'')"
| "work _ = Inr [CPop InPort]"

text \<open>Continuing \<^verbatim>\<open>work()\<close> when its \<^verbatim>\<open>Pop\<close> of the channel \<open>r\<close> returns \<open>v\<close>.\<close>

fun work_popped :: "('v, 's) node_class \<Rightarrow> chan_ref \<Rightarrow> 'v option \<Rightarrow> ('v, 's) body" where
  "work_popped ChannelSourceC r v = (Inr (ChannelSource_body v), ChannelSourceC)"
| "work_popped (SinkC consume s) r v = Sink_body consume s v"
| "work_popped DumpSinkC r v = (Inr (DumpSink_body v), DumpSinkC)"
| "work_popped ChannelSinkC r v = (Inr (ChannelSink_body v), ChannelSinkC)"
| "work_popped (SimpleTransformC transform s) r v = SimpleTransform_body transform s v"
| "work_popped NoOpTransformC r v = (Inr (NoOpTransform_body v), NoOpTransformC)"
| "work_popped (FilterC filter_fn s) r v = Filter_body filter_fn s v"
| "work_popped (AccumulateC consume generate s) r v = Accumulate_body consume generate s v"
| "work_popped (ConcatC n) r v =
     (Inr (case r of Inputs i \<Rightarrow> Concat_body n i v | _ \<Rightarrow> [CReturn]), ConcatC n)"
| "work_popped (DispatchC n dispatch s) r v = Dispatch_body n dispatch s v"
| "work_popped (ForkC n) r v = (Inr (Fork_body n v), ForkC n)"
| "work_popped c r v = (Inr [CReturn], c)"

text \<open>
  \<^verbatim>\<open>Pop(Channel&)\<close> counts EOFs in \<^verbatim>\<open>input_count_\<close>; the override of \<^verbatim>\<open>MultiIOneO\<close>
  expects one EOF on each of its inputs.
\<close>

definition MultiIOneO_Pop :: count_ref where
  "MultiIOneO_Pop = LocalCount 1"

definition pop_count :: "('v, 's) node_class \<Rightarrow> count_ref" where
  "pop_count c = (if base_of c = MultiIOneOB then MultiIOneO_Pop else InputCount)"

text \<open>\<^verbatim>\<open>before_work()\<close>: \<^const>\<open>Some\<close> the exception it throws.\<close>

definition ChannelSource_before_work :: "('v, 's) processor \<Rightarrow> exn option" where
  "ChannelSource_before_work p =
     (if chan_bool (input_port p) then None
      else Some (StdException ''channel source should set input channel before work''))"

definition ChannelSink_before_work :: "('v, 's) processor \<Rightarrow> exn option" where
  "ChannelSink_before_work p =
     (if chan_bool (output_port p) then None
      else Some (StdException ''channel sink should set output channel before work''))"

definition MultiIOneO_before_work :: "('v, 's) processor \<Rightarrow> exn option" where
  "MultiIOneO_before_work p =
     (if length (inputs p) \<noteq> class_size (node_class p)
      then Some (StdException ''multi_input_one_output check error'') else None)"

definition OneIMultiO_before_work :: "('v, 's) processor \<Rightarrow> exn option" where
  "OneIMultiO_before_work p =
     (if length (outputs p) \<noteq> class_size (node_class p)
      then Some (StdException ''one_input_multi_output check error'') else None)"

definition before_work :: "('v, 's) processor \<Rightarrow> exn option" where
  "before_work p =
     (case node_class p of
        ChannelSourceC \<Rightarrow> ChannelSource_before_work p
      | ChannelSinkC \<Rightarrow> ChannelSink_before_work p
      | c \<Rightarrow>
          (case base_of c of
             MultiIOneOB \<Rightarrow> MultiIOneO_before_work p
           | OneIMultiOB \<Rightarrow> OneIMultiO_before_work p
           | _ \<Rightarrow> None))"

lemmas before_work_defs = before_work_def ChannelSource_before_work_def ChannelSink_before_work_def
  MultiIOneO_before_work_def OneIMultiO_before_work_def

text \<open>\<^verbatim>\<open>hosted_mode()\<close> of each base; \<^verbatim>\<open>ChannelSource\<close> and \<^verbatim>\<open>ChannelSink\<close> override it.\<close>

definition Source_hosted_mode :: "hosted_cmd list" where
  "Source_hosted_mode = [CloseOutput OutPort]"

definition Sink_hosted_mode :: "hosted_cmd list" where
  "Sink_hosted_mode = [CloseInput InPort InputCount]"

definition Transform_hosted_mode :: "hosted_cmd list" where
  "Transform_hosted_mode = [CloseInput InPort InputCount, CloseOutput OutPort]"

definition ChannelSource_hosted_mode :: "hosted_cmd list" where
  "ChannelSource_hosted_mode = [CloseInput InPort InputCount, CloseOutput OutPort]"

definition ChannelSink_hosted_mode :: "hosted_cmd list" where
  "ChannelSink_hosted_mode = [CloseInput InPort InputCount, CloseOutput OutPort]"

text \<open>Each input of a \<^verbatim>\<open>MultiIOneO\<close> has one writer: the local counter starts at 1.\<close>

definition MultiIOneO_hosted_mode :: "nat \<Rightarrow> hosted_cmd list" where
  "MultiIOneO_hosted_mode n =
     map (\<lambda>i. CloseInput (Inputs i) (LocalCount 1)) [0..<n] @ [CloseOutput OutPort]"

definition OneIMultiO_hosted_mode :: "nat \<Rightarrow> hosted_cmd list" where
  "OneIMultiO_hosted_mode n =
     CloseInput InPort InputCount # map (\<lambda>i. CloseOutput (Outputs i)) [0..<n]"

definition hosted_mode :: "('v, 's) node_class \<Rightarrow> hosted_cmd list" where
  "hosted_mode c =
     (case c of
        ChannelSourceC \<Rightarrow> ChannelSource_hosted_mode
      | ChannelSinkC \<Rightarrow> ChannelSink_hosted_mode
      | _ \<Rightarrow>
          (case base_of c of
             SourceB \<Rightarrow> Source_hosted_mode
           | SinkB \<Rightarrow> Sink_hosted_mode
           | TransformB \<Rightarrow> Transform_hosted_mode
           | MultiIOneOB \<Rightarrow> MultiIOneO_hosted_mode (class_size c)
           | OneIMultiOB \<Rightarrow> OneIMultiO_hosted_mode (class_size c)
           | ProcessorB \<Rightarrow> []))"

lemmas hosted_mode_defs = hosted_mode_def Source_hosted_mode_def Sink_hosted_mode_def
  Transform_hosted_mode_def ChannelSource_hosted_mode_def ChannelSink_hosted_mode_def
  MultiIOneO_hosted_mode_def OneIMultiO_hosted_mode_def

end
