(* ===== verification/Coroutine.thy ===== *)
theory Coroutine
  imports Nodes
begin

text \<open>
  The coroutine \<^verbatim>\<open>Processor<T>::work_with_exception\<close> of \<^verbatim>\<open>processor.h\<close> with everything it
  awaits: \<^verbatim>\<open>Pop\<close>, \<^verbatim>\<open>Push\<close>, \<^verbatim>\<open>close_input\<close>, \<^verbatim>\<open>close_output\<close>. A suspended coroutine
  has one pending queue operation (\<open>pending\<close>); \<open>resume\<close> is the code that runs from there
  to the next suspension, given the answer of the operation and the time.
\<close>

section \<open>Requests and answers\<close>

datatype 'v request =
    ReqStart
  | ReqPop nat
  | ReqPush nat "'v option"
  | ReqAbortPop nat
  | ReqAbortPush nat
  | ReqNone

datatype 'v answer = AnsGo | AnsPop "'v option" | AnsTry bool

definition on_queue :: "chan \<Rightarrow> (nat \<Rightarrow> 'v request) \<Rightarrow> 'v request" where
  "on_queue c f = (case ch_queue c of None \<Rightarrow> ReqNone | Some q \<Rightarrow> f q)"

fun pending :: "('v, 's) processor \<Rightarrow> 'v request" where
  "pending p =
     (case pc p of
        Created \<Rightarrow> ReqStart
      | PopWait r _ \<Rightarrow> on_queue (get_chan p r) ReqPop
      | PopAbortWait _ _ _ _ \<Rightarrow> on_queue (abort_port p) ReqAbortPop
      | PushWait v r _ \<Rightarrow> on_queue (get_chan p r) (\<lambda>q. ReqPush q v)
      | PushAbortWait _ \<Rightarrow> on_queue (abort_port p) ReqAbortPop
      | NotifyWait _ \<Rightarrow> on_queue (abort_port p) ReqAbortPush
      | CloseInputWait r _ _ _ \<Rightarrow> on_queue (get_chan p r) ReqPop
      | CloseOutputWait r _ _ \<Rightarrow> on_queue (get_chan p r) (\<lambda>q. ReqPush q None)
      | AfterWorkWait \<Rightarrow> on_queue (output_port p) (\<lambda>q. ReqPush q None)
      | Finished _ \<Rightarrow> ReqNone
      | Aborted \<Rightarrow> ReqNone
      | Crashed \<Rightarrow> ReqNone)"

section \<open>Leaving the work coroutine\<close>

text \<open>
  \<^verbatim>\<open>work()\<close> ended with an exception. Without an abort port the process is aborted, but only
  for exceptions derived from \<^verbatim>\<open>std::exception\<close>: any other one leaves through the
  \<^verbatim>\<open>try\<close> block and ends the coroutine.
\<close>

definition work_failed :: "exn \<Rightarrow> ('v, 's) processor \<Rightarrow> ('v, 's) processor" where
  "work_failed e p =
     (if \<not> chan_bool (abort_port p)
      then (if is_std e then p\<lparr>pc := Aborted\<rparr> else p\<lparr>pc := Finished (Some e)\<rparr>)
      else p\<lparr>pc := NotifyWait e\<rparr>)"

definition work_end_ok :: "nat \<Rightarrow> ('v, 's) processor \<Rightarrow> ('v, 's) processor" where
  "work_end_ok now p =
     p\<lparr>event_collector := WorkEnd now (event_collector p), pc := Finished None\<rparr>"

text \<open>\<^verbatim>\<open>work()\<close> returned: \<^verbatim>\<open>after_work()\<close>, which only \<^verbatim>\<open>ChannelSink\<close> overrides, with a raw push of EOF.\<close>

definition ChannelSink_after_work :: "('v, 's) processor \<Rightarrow> ('v, 's) processor" where
  "ChannelSink_after_work p =
     (if chan_bool (output_port p) then p\<lparr>pc := AfterWorkWait\<rparr> else p\<lparr>pc := Crashed\<rparr>)"

definition after_work :: "nat \<Rightarrow> ('v, 's) processor \<Rightarrow> ('v, 's) processor" where
  "after_work now p =
     (case node_class p of
        ChannelSinkC \<Rightarrow> ChannelSink_after_work p
      | _ \<Rightarrow> work_end_ok now p)"

lemmas after_work_defs = after_work_def ChannelSink_after_work_def

section \<open>Running a work body to its next suspension\<close>

text \<open>\<^verbatim>\<open>co_await input.GetQueue().Pop()\<close>, the head of the loop of \<^verbatim>\<open>Pop\<close>.\<close>

definition await_pop :: "chan_ref \<Rightarrow> count_ref \<Rightarrow> ('v, 's) processor \<Rightarrow> ('v, 's) processor" where
  "await_pop r k p =
     (if chan_bool (get_chan p r) then p\<lparr>pc := PopWait r k\<rparr> else p\<lparr>pc := Crashed\<rparr>)"

definition await_push :: "'v option \<Rightarrow> chan_ref \<Rightarrow> 'v cmd list \<Rightarrow> ('v, 's) processor \<Rightarrow> ('v, 's) processor" where
  "await_push v r cs p =
     (if chan_bool (get_chan p r) then p\<lparr>pc := PushWait v r cs\<rparr> else p\<lparr>pc := Crashed\<rparr>)"

definition exec_simple :: "nat \<Rightarrow> 'v cmd list \<Rightarrow> ('v, 's) processor \<Rightarrow> ('v, 's) processor" where
  "exec_simple now cs p =
     (case cs of
        CPop r # _ \<Rightarrow>
          (case GetChannel r p of
             Inl e \<Rightarrow> work_failed e p
           | Inr p' \<Rightarrow> await_pop r (pop_count (node_class p)) p')
      | CPush v r # cs' \<Rightarrow>
          (case GetChannel r p of
             Inl e \<Rightarrow> work_failed e p
           | Inr p' \<Rightarrow> await_push v r cs' p')
      | _ \<Rightarrow> after_work now p)"

text \<open>The result of a piece of a work body: its exception, or the awaits that follow.\<close>

definition exec_body :: "nat \<Rightarrow> ('v, 's) body \<Rightarrow> ('v, 's) processor \<Rightarrow> ('v, 's) processor" where
  "exec_body now b p =
     (case b of
        (Inl e, c) \<Rightarrow> work_failed e (p\<lparr>node_class := c\<rparr>)
      | (Inr cs, c) \<Rightarrow> exec_simple now cs (p\<lparr>node_class := c\<rparr>))"

definition exec_cmds :: "nat \<Rightarrow> 'v cmd list \<Rightarrow> ('v, 's) processor \<Rightarrow> ('v, 's) processor" where
  "exec_cmds now cs p =
     (case cs of
        CGenerate # _ \<Rightarrow> exec_body now (Source_generate (node_class p)) p
      | _ \<Rightarrow> exec_simple now cs p)"

text \<open>\<^verbatim>\<open>Pop\<close> returns \<open>v\<close> to the work body.\<close>

definition pop_return :: "nat \<Rightarrow> chan_ref \<Rightarrow> 'v option \<Rightarrow> ('v, 's) processor \<Rightarrow> ('v, 's) processor" where
  "pop_return now r v p = exec_body now (work_popped (node_class p) r v) p"

text \<open>\<^verbatim>\<open>before_work(); event_collector_.WorkStart(); co_await work().coAwaitTry()\<close>.
  The base \<^verbatim>\<open>work\<close> is not a coroutine: its exception is thrown by the call, outside \<^verbatim>\<open>coAwaitTry\<close>.\<close>

definition start_work :: "nat \<Rightarrow> ('v, 's) processor \<Rightarrow> ('v, 's) processor" where
  "start_work now p =
     (case before_work p of
        Some e \<Rightarrow> p\<lparr>pc := Aborted\<rparr>
      | None \<Rightarrow>
          let p1 = p\<lparr>event_collector := WorkStart now (event_collector p)\<rparr>
          in case work (node_class p1) of
               Inl e \<Rightarrow> p1\<lparr>pc := Finished (Some e)\<rparr>
             | Inr cs \<Rightarrow> exec_cmds now cs p1)"

section \<open>Pop and Push\<close>

definition transferred_bytes :: "'v traits \<Rightarrow> 'v option \<Rightarrow> nat" where
  "transferred_bytes tr v =
     (case v of
        None \<Rightarrow> 0
      | Some x \<Rightarrow> (case GetTransferredBytes tr x of None \<Rightarrow> 0 | Some n \<Rightarrow> n))"

definition abort_exn :: exn where
  "abort_exn = StdException ''throw by abort channel''"

text \<open>
  \<^verbatim>\<open>Processor::Pop(Channel&, size_t&)\<close>. \<open>pop_checked\<close> is the end of an iteration, after
  the test of the abort port; \<open>pop_got\<close> the code after the queue has answered.
\<close>

definition pop_checked :: "nat \<Rightarrow> chan_ref \<Rightarrow> count_ref \<Rightarrow> 'v option \<Rightarrow> bool \<Rightarrow>
    ('v, 's) processor \<Rightarrow> ('v, 's) processor" where
  "pop_checked now r k v should_return p =
     (if should_return then pop_return now r v p else await_pop r k p)"

definition check_abort :: "'v pc \<Rightarrow> (('v, 's) processor \<Rightarrow> ('v, 's) processor) \<Rightarrow>
    ('v, 's) processor \<Rightarrow> ('v, 's) processor" where
  "check_abort wait k p = (if chan_bool (abort_port p) then p\<lparr>pc := wait\<rparr> else k p)"

definition pop_got :: "nat \<Rightarrow> chan_ref \<Rightarrow> count_ref \<Rightarrow> 'v option \<Rightarrow>
    ('v, 's) processor \<Rightarrow> ('v, 's) processor" where
  "pop_got now r k v p =
     (let p1 = p\<lparr>event_collector := InputPortRead now (GetIndex (get_chan p r))
                   (transferred_bytes (traits p) v) (v = None) (event_collector p)\<rparr>
      in if v = None then
           (if read_count p1 k = 0 then p1\<lparr>pc := Aborted\<rparr>
            else
              let (k', p2) = dec_count k p1
              in if read_count p2 k' = 0
                 then pop_return now r None (upd_chan chan_reset r p2)
                 else check_abort (PopAbortWait r k' None False) (pop_checked now r k' None False) p2)
         else check_abort (PopAbortWait r k v True) (pop_checked now r k v True) p1)"

text \<open>\<^verbatim>\<open>Processor::Push\<close>: the code after the queue has accepted the element.\<close>

definition push_done :: "nat \<Rightarrow> 'v option \<Rightarrow> chan_ref \<Rightarrow> 'v cmd list \<Rightarrow>
    ('v, 's) processor \<Rightarrow> ('v, 's) processor" where
  "push_done now v r cs p =
     (let p1 = p\<lparr>event_collector := OutputPortWrite now (GetIndex (get_chan p r))
                   (transferred_bytes (traits p) v) (v = None) (event_collector p)\<rparr>;
          p2 = (if v = None then upd_chan chan_reset r p1 else p1)
      in check_abort (PushAbortWait cs) (exec_cmds now cs) p2)"

section \<open>Hosted mode\<close>

text \<open>
  \<^verbatim>\<open>co_await hosted_mode()\<close> and the final \<^verbatim>\<open>std::rethrow_exception\<close>: a channel that has
  been reset is skipped.
\<close>

fun exec_hosted :: "hosted_cmd list \<Rightarrow> exn \<Rightarrow> ('v, 's) processor \<Rightarrow> ('v, 's) processor" where
  "exec_hosted [] e p = p\<lparr>pc := Finished (Some e)\<rparr>"
| "exec_hosted (CloseInput r k # hs) e p =
     (case GetChannel r p of
        Inl e' \<Rightarrow> p\<lparr>pc := Finished (Some e')\<rparr>
      | Inr p' \<Rightarrow>
          if chan_bool (get_chan p' r) then p'\<lparr>pc := CloseInputWait r k hs e\<rparr>
          else exec_hosted hs e p')"
| "exec_hosted (CloseOutput r # hs) e p =
     (case GetChannel r p of
        Inl e' \<Rightarrow> p\<lparr>pc := Finished (Some e')\<rparr>
      | Inr p' \<Rightarrow>
          if chan_bool (get_chan p' r) then p'\<lparr>pc := CloseOutputWait r hs e\<rparr>
          else exec_hosted hs e p')"

definition enter_hosted :: "nat \<Rightarrow> exn \<Rightarrow> ('v, 's) processor \<Rightarrow> ('v, 's) processor" where
  "enter_hosted now e p =
     exec_hosted (hosted_mode (node_class p)) e
       (p\<lparr>event_collector := EnterHostedMode now (event_collector p)\<rparr>)"

text \<open>\<^verbatim>\<open>close_input\<close>: one turn of its loop, after the queue has answered.\<close>

definition close_input_got :: "chan_ref \<Rightarrow> count_ref \<Rightarrow> hosted_cmd list \<Rightarrow> exn \<Rightarrow> 'v option \<Rightarrow>
    ('v, 's) processor \<Rightarrow> ('v, 's) processor" where
  "close_input_got r k hs e v p =
     (if v = None then
        (if read_count p k = 0 then p\<lparr>pc := Aborted\<rparr>
         else
           let (k', p1) = dec_count k p
           in if read_count p1 k' = 0 then exec_hosted hs e p1
              else p1\<lparr>pc := CloseInputWait r k' hs e\<rparr>)
      else p)"

section \<open>Resuming the coroutine\<close>

fun resume :: "nat \<Rightarrow> 'v answer \<Rightarrow> ('v, 's) processor \<Rightarrow> ('v, 's) processor" where
  "resume now ans p =
     (case (pc p, ans) of
        (Created, AnsGo) \<Rightarrow> start_work now p
      | (PopWait r k, AnsPop v) \<Rightarrow> pop_got now r k v p
      | (PopAbortWait r k v should_return, AnsTry available) \<Rightarrow>
          if available then work_failed abort_exn p
          else pop_checked now r k v should_return p
      | (PushWait v r cs, AnsGo) \<Rightarrow> push_done now v r cs p
      | (PushAbortWait cs, AnsTry available) \<Rightarrow>
          if available then work_failed abort_exn p else exec_cmds now cs p
      | (NotifyWait e, AnsTry _) \<Rightarrow> enter_hosted now e p
      | (CloseInputWait r k hs e, AnsPop v) \<Rightarrow> close_input_got r k hs e v p
      | (CloseOutputWait r hs e, AnsGo) \<Rightarrow> exec_hosted hs e p
      | (AfterWorkWait, AnsGo) \<Rightarrow> work_end_ok now p
      | _ \<Rightarrow> p)"

end
