(* ===== verification/Network.thy ===== *)
theory Network
  imports Coroutine
begin

text \<open>
  The running pipeline: the coroutines that \<^verbatim>\<open>Pipeline::Run\<close> starts with
  \<^verbatim>\<open>collectAllPara\<close>, interleaved in any order over the shared queues. One step is one queue
  operation of one coroutine together with the code it runs up to its next suspension. Which
  executor thread runs it does not matter: the queue operations are atomic and a processor's
  members belong to its own coroutine.
\<close>

section \<open>Interleaved coroutines\<close>

record ('p, 'v) net =
  procs :: "nat \<rightharpoonup> 'p"
  queues :: "nat \<Rightarrow> 'v option bounded_queue"
  aborts :: "nat \<Rightarrow> int option bounded_queue"

inductive proc_step :: "('p \<Rightarrow> 'v request) \<Rightarrow> (nat \<Rightarrow> 'v answer \<Rightarrow> 'p \<Rightarrow> 'p) \<Rightarrow> nat \<Rightarrow>
    ('p, 'v) net \<Rightarrow> ('p, 'v) net \<Rightarrow> bool"
  for pend res i where
  start: "procs s i = Some p \<Longrightarrow> pend p = ReqStart \<Longrightarrow>
    proc_step pend res i s (s\<lparr>procs := (procs s)(i \<mapsto> res now AnsGo p)\<rparr>)"
| pop: "procs s i = Some p \<Longrightarrow> pend p = ReqPop q \<Longrightarrow>
    BoundedQueue_Pop (queues s q) = Some (v, bq) \<Longrightarrow>
    proc_step pend res i s
      (s\<lparr>procs := (procs s)(i \<mapsto> res now (AnsPop v) p), queues := (queues s)(q := bq)\<rparr>)"
| push: "procs s i = Some p \<Longrightarrow> pend p = ReqPush q v \<Longrightarrow>
    BoundedQueue_Push v (queues s q) = Some bq \<Longrightarrow>
    proc_step pend res i s
      (s\<lparr>procs := (procs s)(i \<mapsto> res now AnsGo p), queues := (queues s)(q := bq)\<rparr>)"
| abort_pop: "procs s i = Some p \<Longrightarrow> pend p = ReqAbortPop a \<Longrightarrow>
    BoundedQueue_TryPop (aborts s a) = (r, bq) \<Longrightarrow>
    proc_step pend res i s
      (s\<lparr>procs := (procs s)(i \<mapsto> res now (AnsTry (r \<noteq> None)) p), aborts := (aborts s)(a := bq)\<rparr>)"
| abort_push: "procs s i = Some p \<Longrightarrow> pend p = ReqAbortPush a \<Longrightarrow>
    BoundedQueue_TryPush (Some 0) (aborts s a) = (b, bq) \<Longrightarrow>
    proc_step pend res i s
      (s\<lparr>procs := (procs s)(i \<mapsto> res now (AnsTry b) p), aborts := (aborts s)(a := bq)\<rparr>)"

text \<open>
  An abort channel may be shared with other pipelines (\<^verbatim>\<open>SetAbortChannel\<close>), which change it at
  any moment: the environment step.
\<close>

inductive net_reach :: "('p \<Rightarrow> 'v request) \<Rightarrow> (nat \<Rightarrow> 'v answer \<Rightarrow> 'p \<Rightarrow> 'p) \<Rightarrow>
    ('p, 'v) net \<Rightarrow> ('p, 'v) net \<Rightarrow> bool"
  for pend res s0 where
  init: "net_reach pend res s0 s0"
| step: "net_reach pend res s0 s \<Longrightarrow> proc_step pend res i s s' \<Longrightarrow> net_reach pend res s0 s'"
| env: "net_reach pend res s0 s \<Longrightarrow> net_reach pend res s0 (s\<lparr>aborts := h\<rparr>)"

definition all_ended :: "('p \<Rightarrow> 'v request) \<Rightarrow> ('p, 'v) net \<Rightarrow> bool" where
  "all_ended pend s \<longleftrightarrow> (\<forall>i p. procs s i = Some p \<longrightarrow> pend p = ReqNone)"

text \<open>The topology: which coroutine may read and write which queue, and who feeds whom.\<close>

definition feeds :: "nat set \<Rightarrow> (nat \<Rightarrow> nat set) \<Rightarrow> (nat \<Rightarrow> nat set) \<Rightarrow> (nat \<times> nat) set" where
  "feeds D rd wr = {(i, j). i \<in> D \<and> j \<in> D \<and> wr i \<inter> rd j \<noteq> {}}"

lemma finite_feeds: "finite D \<Longrightarrow> finite (feeds D rd wr)"
  by (rule finite_subset[of _ "D \<times> D"]) (auto simp: feeds_def)

section \<open>The contract of a coroutine\<close>

text \<open>
  What the network relies on: the EOFs a coroutine still has to take from and put into each queue
  are known, each queue operation changes them by the EOF it transfers, and a coroutine that has
  ended owes nothing. \<open>lost\<close> marks a coroutine that died without paying.
\<close>

locale coroutine_contract =
  fixes pend :: "'p \<Rightarrow> 'v request"
    and res :: "nat \<Rightarrow> 'v answer \<Rightarrow> 'p \<Rightarrow> 'p"
    and inv :: "'p \<Rightarrow> bool"
    and lost :: "'p \<Rightarrow> bool"
    and rd_owed :: "'p \<Rightarrow> nat \<Rightarrow> nat"
    and wr_owed :: "'p \<Rightarrow> nat \<Rightarrow> nat"
  assumes start_law: "inv p \<Longrightarrow> pend p = ReqStart \<Longrightarrow>
      lost (res now AnsGo p) \<or> (inv (res now AnsGo p) \<and>
        rd_owed (res now AnsGo p) = rd_owed p \<and> wr_owed (res now AnsGo p) = wr_owed p)"
    and pop_owed: "inv p \<Longrightarrow> pend p = ReqPop q \<Longrightarrow> 0 < rd_owed p q"
    and pop_law: "inv p \<Longrightarrow> pend p = ReqPop q \<Longrightarrow>
      lost (res now (AnsPop v) p) \<or> (inv (res now (AnsPop v) p) \<and>
        rd_owed (res now (AnsPop v) p) = (rd_owed p)(q := rd_owed p q - (if v = None then 1 else 0)) \<and>
        wr_owed (res now (AnsPop v) p) = wr_owed p)"
    and push_owed: "inv p \<Longrightarrow> pend p = ReqPush q v \<Longrightarrow> 0 < wr_owed p q"
    and push_law: "inv p \<Longrightarrow> pend p = ReqPush q v \<Longrightarrow>
      lost (res now AnsGo p) \<or> (inv (res now AnsGo p) \<and> rd_owed (res now AnsGo p) = rd_owed p \<and>
        wr_owed (res now AnsGo p) = (wr_owed p)(q := wr_owed p q - (if v = None then 1 else 0)))"
    and abort_pop_law: "inv p \<Longrightarrow> pend p = ReqAbortPop a \<Longrightarrow>
      lost (res now (AnsTry b) p) \<or> (inv (res now (AnsTry b) p) \<and>
        rd_owed (res now (AnsTry b) p) = rd_owed p \<and> wr_owed (res now (AnsTry b) p) = wr_owed p)"
    and abort_push_law: "inv p \<Longrightarrow> pend p = ReqAbortPush a \<Longrightarrow>
      lost (res now (AnsTry b) p) \<or> (inv (res now (AnsTry b) p) \<and>
        rd_owed (res now (AnsTry b) p) = rd_owed p \<and> wr_owed (res now (AnsTry b) p) = wr_owed p)"
    and ended_law: "inv p \<Longrightarrow> pend p = ReqNone \<Longrightarrow> rd_owed p q = 0 \<and> wr_owed p q = 0"
    and lost_stuck: "lost p \<Longrightarrow> pend p = ReqNone"
begin

definition reads_of :: "('p, 'v) net \<Rightarrow> nat \<Rightarrow> nat \<Rightarrow> nat" where
  "reads_of s q i = (case procs s i of None \<Rightarrow> 0 | Some p \<Rightarrow> rd_owed p q)"

definition writes_of :: "('p, 'v) net \<Rightarrow> nat \<Rightarrow> nat \<Rightarrow> nat" where
  "writes_of s q i = (case procs s i of None \<Rightarrow> 0 | Some p \<Rightarrow> wr_owed p q)"

text \<open>
  Conservation: for every queue, the EOFs in it and those still to be written are the EOFs still
  to be read.
\<close>

definition balanced :: "nat set \<Rightarrow> ('p, 'v) net \<Rightarrow> bool" where
  "balanced D s \<longleftrightarrow>
     (\<forall>q. count_eof (bq_queue (queues s q)) + (\<Sum>i\<in>D. writes_of s q i) = (\<Sum>i\<in>D. reads_of s q i))"

definition net_ok :: "nat set \<Rightarrow> (nat \<Rightarrow> nat set) \<Rightarrow> (nat \<Rightarrow> nat set) \<Rightarrow> (nat \<Rightarrow> nat) \<Rightarrow> ('p, 'v) net \<Rightarrow> bool" where
  "net_ok D rd wr cap s \<longleftrightarrow>
     dom (procs s) = D \<and>
     (\<forall>i p. procs s i = Some p \<longrightarrow> inv p) \<and>
     (\<forall>q. bq_capacity (queues s q) = cap q \<and> queue_inv (queues s q)) \<and>
     (\<forall>i q. 0 < reads_of s q i \<longrightarrow> q \<in> rd i) \<and>
     (\<forall>i q. 0 < writes_of s q i \<longrightarrow> q \<in> wr i) \<and>
     balanced D s"

definition some_lost :: "('p, 'v) net \<Rightarrow> bool" where
  "some_lost s \<longleftrightarrow> (\<exists>i p. procs s i = Some p \<and> lost p)"

lemma owed_upd:
  "reads_of (s\<lparr>procs := (procs s)(i \<mapsto> p')\<rparr>) q j = (if j = i then rd_owed p' q else reads_of s q j)"
  "writes_of (s\<lparr>procs := (procs s)(i \<mapsto> p')\<rparr>) q j = (if j = i then wr_owed p' q else writes_of s q j)"
  "reads_of (s\<lparr>queues := qs\<rparr>) = reads_of s" "writes_of (s\<lparr>queues := qs\<rparr>) = writes_of s"
  "reads_of (s\<lparr>aborts := as\<rparr>) = reads_of s" "writes_of (s\<lparr>aborts := as\<rparr>) = writes_of s"
  by (auto simp: reads_of_def writes_of_def fun_eq_iff)

text \<open>Replacing one coroutine and one queue keeps the network in order if their books agree.\<close>

lemma net_ok_upd:
  assumes ok: "net_ok D rd wr cap s" and fin: "finite D" and p: "procs s i = Some p" and inv': "inv p'"
    and cap': "bq_capacity bq = cap q" "queue_inv bq"
    and r: "\<And>q'. rd_owed p' q' \<le> rd_owed p q'" and w: "\<And>q'. wr_owed p' q' \<le> wr_owed p q'"
    and r': "\<And>q'. q' \<noteq> q \<Longrightarrow> rd_owed p' q' = rd_owed p q'"
    and w': "\<And>q'. q' \<noteq> q \<Longrightarrow> wr_owed p' q' = wr_owed p q'"
    and books: "count_eof (bq_queue bq) + wr_owed p' q + rd_owed p q =
      count_eof (bq_queue (queues s q)) + wr_owed p q + rd_owed p' q"
  shows "net_ok D rd wr cap (s\<lparr>procs := (procs s)(i \<mapsto> p'), queues := (queues s)(q := bq)\<rparr>)"
proof -
  let ?s = "s\<lparr>procs := (procs s)(i \<mapsto> p'), queues := (queues s)(q := bq)\<rparr>"
  have i: "i \<in> D" using ok p by (auto simp: net_ok_def)
  have R: "reads_of ?s q' j = (if j = i then rd_owed p' q' else reads_of s q' j)" for q' j
    using owed_upd(1)[of s i p' q' j] by (simp add: reads_of_def)
  have W: "writes_of ?s q' j = (if j = i then wr_owed p' q' else writes_of s q' j)" for q' j
    using owed_upd(2)[of s i p' q' j] by (simp add: writes_of_def)
  have ri: "reads_of s q' i = rd_owed p q'" and wi: "writes_of s q' i = wr_owed p q'" for q'
    using p by (simp_all add: reads_of_def writes_of_def)
  have "count_eof (bq_queue (queues ?s q')) + (\<Sum>j\<in>D. writes_of ?s q' j) = (\<Sum>j\<in>D. reads_of ?s q' j)" for q'
  proof -
    have "(\<Sum>j\<in>D. reads_of ?s q' j) + rd_owed p q' = (\<Sum>j\<in>D. reads_of s q' j) + rd_owed p' q'"
      using sum_change_one[OF fin i, of "reads_of ?s q'" "reads_of s q'"] by (simp add: R ri)
    moreover have "(\<Sum>j\<in>D. writes_of ?s q' j) + wr_owed p q' = (\<Sum>j\<in>D. writes_of s q' j) + wr_owed p' q'"
      using sum_change_one[OF fin i, of "writes_of ?s q'" "writes_of s q'"] by (simp add: W wi)
    moreover have "count_eof (bq_queue (queues s q')) + (\<Sum>j\<in>D. writes_of s q' j) = (\<Sum>j\<in>D. reads_of s q' j)"
      using ok by (simp add: net_ok_def balanced_def)
    ultimately show ?thesis using books r'[of q'] w'[of q'] by (cases "q' = q") auto
  qed
  moreover have "0 < reads_of ?s q' j \<Longrightarrow> q' \<in> rd j" for q' j
    using ok r[of q'] ri[of q'] by (auto simp: R net_ok_def split: if_splits)
  moreover have "0 < writes_of ?s q' j \<Longrightarrow> q' \<in> wr j" for q' j
    using ok w[of q'] wi[of q'] by (auto simp: W net_ok_def split: if_splits)
  moreover have "dom (procs ?s) = D"
    using ok i by (auto simp: net_ok_def)
  ultimately show ?thesis
    using ok inv' cap' by (auto simp: net_ok_def balanced_def)
qed


lemma net_ok_aborts:
  "net_ok D rd wr cap (s\<lparr>aborts := h\<rparr>) = net_ok D rd wr cap s"
  "net_ok D rd wr cap (s\<lparr>procs := ps, aborts := h\<rparr>) = net_ok D rd wr cap (s\<lparr>procs := ps\<rparr>)"
  by (simp_all add: net_ok_def balanced_def reads_of_def writes_of_def)

lemma some_lost_upd: "lost p' \<Longrightarrow> some_lost (s\<lparr>procs := (procs s)(i \<mapsto> p')\<rparr>)"
  by (auto simp: some_lost_def)

lemma some_lost_frame:
  "some_lost (s\<lparr>queues := qs\<rparr>) = some_lost s" "some_lost (s\<lparr>aborts := as\<rparr>) = some_lost s"
  "some_lost (s\<lparr>procs := ps, queues := qs\<rparr>) = some_lost (s\<lparr>procs := ps\<rparr>)"
  "some_lost (s\<lparr>procs := ps, aborts := as\<rparr>) = some_lost (s\<lparr>procs := ps\<rparr>)"
  by (simp_all add: some_lost_def)

text \<open>A step that touches no data queue leaves the books unchanged.\<close>

lemma net_ok_same_books:
  assumes "net_ok D rd wr cap s" "finite D" "procs s i = Some p" "inv p'"
    "rd_owed p' = rd_owed p" "wr_owed p' = wr_owed p"
  shows "net_ok D rd wr cap (s\<lparr>procs := (procs s)(i \<mapsto> p')\<rparr>)"
proof -
  have "net_ok D rd wr cap (s\<lparr>procs := (procs s)(i \<mapsto> p'), queues := (queues s)(0 := queues s 0)\<rparr>)"
    using assms by (intro net_ok_upd) (auto simp: net_ok_def)
  then show ?thesis by simp
qed

lemma proc_step_ok:
  assumes "proc_step pend res i s s'" "net_ok D rd wr cap s" "finite D"
  shows "some_lost s' \<or> net_ok D rd wr cap s'"
  using assms(1)
proof cases
  case (start p now)
  then have "inv p" using assms(2) by (auto simp: net_ok_def)
  with start assms start_law[of p now] show ?thesis
    by (auto intro: some_lost_upd net_ok_same_books)
next
  case (pop p q v bq now)
  then have p: "inv p" using assms(2) by (auto simp: net_ok_def)
  have bq: "bq_queue (queues s q) = v # bq_queue bq" "bq_capacity bq = bq_capacity (queues s q)"
    using bq.pop_takes[OF pop(4)] by simp_all
  have "queue_inv bq" using BoundedQueue_Pop_inv[OF _ pop(4)] assms(2) by (simp add: net_ok_def)
  moreover have "0 < rd_owed p q" using p pop pop_owed by simp
  moreover have "bq_capacity (queues s q) = cap q" using assms(2) by (simp add: net_ok_def)
  ultimately show ?thesis
  proof (cases "lost (res now (AnsPop v) p)")
    case True
    then show ?thesis using pop(1) by (simp add: some_lost_frame some_lost_upd)
  next
    case False
    then have "net_ok D rd wr cap s'"
      using pop_law[OF p pop(3), of now v] bq \<open>queue_inv bq\<close> \<open>0 < rd_owed p q\<close>
        \<open>bq_capacity (queues s q) = cap q\<close>
      unfolding pop(1) by (intro net_ok_upd[OF assms(2,3) pop(2)]) auto
    then show ?thesis by simp
  qed
next
  case (push p q v bq now)
  then have p: "inv p" using assms(2) by (auto simp: net_ok_def)
  have bq: "bq_queue bq = bq_queue (queues s q) @ [v]" "bq_capacity bq = bq_capacity (queues s q)"
    using bq.push_appends[OF push(4)] by simp_all
  have "queue_inv bq" using BoundedQueue_Push_inv[OF _ push(4)] assms(2) by (simp add: net_ok_def)
  moreover have "0 < wr_owed p q" using p push push_owed by simp
  moreover have "bq_capacity (queues s q) = cap q" using assms(2) by (simp add: net_ok_def)
  ultimately show ?thesis
  proof (cases "lost (res now AnsGo p)")
    case True
    then show ?thesis using push(1) by (simp add: some_lost_frame some_lost_upd)
  next
    case False
    then have "net_ok D rd wr cap s'"
      using push_law[OF p push(3), of now] bq \<open>queue_inv bq\<close> \<open>0 < wr_owed p q\<close>
        \<open>bq_capacity (queues s q) = cap q\<close>
      unfolding push(1) by (intro net_ok_upd[OF assms(2,3) push(2)]) auto
    then show ?thesis by simp
  qed
next
  case (abort_pop p a r bq now)
  then have "inv p" using assms(2) by (auto simp: net_ok_def)
  with abort_pop assms abort_pop_law[of p a now "r \<noteq> None"] show ?thesis
    by (auto simp: some_lost_frame net_ok_aborts
        intro: some_lost_upd net_ok_same_books)
next
  case (abort_push p a b bq now)
  then have "inv p" using assms(2) by (auto simp: net_ok_def)
  with abort_push assms abort_push_law[of p a now b] show ?thesis
    by (auto simp: some_lost_frame net_ok_aborts
        intro: some_lost_upd net_ok_same_books)
qed

lemma proc_step_keeps_lost:
  assumes "proc_step pend res i s s'" "some_lost s"
  shows "some_lost s'"
proof -
  obtain j p where j: "procs s j = Some p" "lost p" using assms(2) by (auto simp: some_lost_def)
  then have "pend p = ReqNone" by (simp add: lost_stuck)
  with assms(1) j have "i \<noteq> j" by (auto elim!: proc_step.cases)
  with assms(1) j have "procs s' j = Some p" by (auto elim!: proc_step.cases)
  with j show ?thesis by (auto simp: some_lost_def)
qed

lemma net_reach_ok:
  assumes "net_reach pend res s0 s" "net_ok D rd wr cap s0" "finite D"
  shows "some_lost s \<or> net_ok D rd wr cap s"
  using assms
proof (induction rule: net_reach.induct)
  case init
  then show ?case by simp
next
  case (step s i s')
  then show ?case using proc_step_ok proc_step_keeps_lost by blast
next
  case (env s h)
  then show ?case by (simp add: net_ok_aborts some_lost_frame)
qed


section \<open>Progress\<close>

text \<open>Only the two data operations can suspend a coroutine.\<close>

lemma stuck_cases:
  assumes "procs s i = Some p" "\<nexists>s'. proc_step pend res i s s'" "pend p \<noteq> ReqNone"
  obtains q where "pend p = ReqPop q" "bq_queue (queues s q) = []"
    | q v where "pend p = ReqPush q v" "length (bq_queue (queues s q)) = bq_capacity (queues s q)"
proof (cases "pend p")
  case ReqStart
  then show ?thesis using assms by (blast intro: proc_step.start)
next
  case (ReqPop q)
  then have "BoundedQueue_Pop (queues s q) = None"
    using assms by (cases "BoundedQueue_Pop (queues s q)") (auto intro: proc_step.pop)
  with ReqPop that(1) show ?thesis by (simp add: bq.pop_blocks)
next
  case (ReqPush q v)
  then have "BoundedQueue_Push v (queues s q) = None"
    using assms by (cases "BoundedQueue_Push v (queues s q)") (auto intro: proc_step.push)
  with ReqPush that(2) show ?thesis by (simp add: bq.push_blocks)
next
  case (ReqAbortPop a)
  then show ?thesis using assms by (metis proc_step.abort_pop surj_pair)
next
  case (ReqAbortPush a)
  then show ?thesis using assms by (metis proc_step.abort_push surj_pair)
qed (use assms in simp)

lemma reader_exists:
  assumes "net_ok D rd wr cap s" "finite D" "0 < writes_of s q i" "i \<in> D"
  shows "\<exists>j\<in>D. 0 < reads_of s q j"
proof -
  have "0 < (\<Sum>k\<in>D. writes_of s q k)" using member_sum_pos assms by metis
  then have "0 < (\<Sum>k\<in>D. reads_of s q k)"
    using assms(1) unfolding net_ok_def balanced_def by (metis add_gr_0)
  then show ?thesis using sum_pos_member assms(2) by metis
qed

lemma writer_exists:
  assumes "net_ok D rd wr cap s" "finite D" "0 < reads_of s q i" "i \<in> D" "bq_queue (queues s q) = []"
  shows "\<exists>j\<in>D. 0 < writes_of s q j"
proof -
  have "0 < (\<Sum>k\<in>D. reads_of s q k)" using member_sum_pos assms by metis
  then have "0 < (\<Sum>k\<in>D. writes_of s q k)"
    using assms(1,5) unfolding net_ok_def balanced_def by (metis add_0 count_eof_Nil)
  then show ?thesis using sum_pos_member assms(2) by metis
qed

lemma owing_runs:
  assumes "net_ok D rd wr cap s" "i \<in> D" "0 < reads_of s q i \<or> 0 < writes_of s q i"
  shows "\<exists>p. procs s i = Some p \<and> pend p \<noteq> ReqNone"
proof -
  obtain p where p: "procs s i = Some p" using assms by (auto simp: net_ok_def)
  with assms have "inv p" by (auto simp: net_ok_def)
  with p assms(3) ended_law[of p q] show ?thesis by (auto simp: reads_of_def writes_of_def)
qed

text \<open>
  In an acyclic network whose coroutines each read one queue, and whose queues can hold an
  element, some coroutine can always move until all have ended.
\<close>

lemma no_deadlock:
  assumes ok: "net_ok D rd wr cap s" and fin: "finite D"
    and acyc: "acyclic (feeds D rd wr)"
    and single: "\<And>i q q'. i \<in> D \<Longrightarrow> q \<in> rd i \<Longrightarrow> q' \<in> rd i \<Longrightarrow> q = q'"
    and cap: "\<And>i q. i \<in> D \<Longrightarrow> q \<in> wr i \<Longrightarrow> 0 < cap q"
    and live: "\<not> all_ended pend s"
  shows "\<exists>i s'. proc_step pend res i s s'"
proof (rule ccontr)
  assume "\<not> ?thesis"
  then have stuck: "\<nexists>s'. proc_step pend res i s s'" for i by blast
  define U where "U = {i. \<exists>p. procs s i = Some p \<and> pend p \<noteq> ReqNone}"
  define P where "P = {i. \<exists>p q v. procs s i = Some p \<and> pend p = ReqPush q v}"
  have U_D: "U \<subseteq> D" using ok by (auto simp: U_def net_ok_def)
  have P_U: "P \<subseteq> U" by (auto simp: P_def U_def)
  have wfs: "wf (feeds D rd wr)" "wf ((feeds D rd wr)\<inverse>)"
    using fin acyc by (auto intro: finite_acyclic_wf finite_acyclic_wf_converse finite_feeds)
  have "\<exists>j\<in>P. (i, j) \<in> feeds D rd wr" if iP: "i \<in> P" for i
  proof -
    obtain p q v where p: "procs s i = Some p" "pend p = ReqPush q v" using iP unfolding P_def by blast
    have i: "i \<in> D" "inv p" using ok p by (auto simp: net_ok_def)
    have wi: "0 < writes_of s q i" using push_owed[OF i(2) p(2)] p by (simp add: writes_of_def)
    then have "q \<in> wr i" using ok by (auto simp: net_ok_def)
    then have "0 < cap q" using cap i by blast
    then have full: "bq_queue (queues s q) \<noteq> []"
      using stuck_cases[OF p(1) stuck] p ok by (auto simp: net_ok_def) (metis list.size(3) less_irrefl)
    obtain j where j: "j \<in> D" "0 < reads_of s q j" using reader_exists[OF ok fin wi i(1)] by auto
    then have qj: "q \<in> rd j" using ok by (auto simp: net_ok_def)
    obtain pj where pj: "procs s j = Some pj" "pend pj \<noteq> ReqNone" using owing_runs[OF ok j(1)] j by blast
    have "inv pj" using ok pj by (auto simp: net_ok_def)
    have "\<exists>q' v'. pend pj = ReqPush q' v'"
    proof (rule stuck_cases[OF pj(1) stuck pj(2)])
      fix q' assume q': "pend pj = ReqPop q'" "bq_queue (queues s q') = []"
      have "0 < reads_of s q' j" using pop_owed[OF \<open>inv pj\<close> q'(1)] pj by (simp add: reads_of_def)
      then have "q' \<in> rd j" using ok by (auto simp: net_ok_def)
      with single j(1) qj have "q' = q" by blast
      with q'(2) full show ?thesis by simp
    qed auto
    with pj have "j \<in> P" by (auto simp: P_def)
    moreover have "(i, j) \<in> feeds D rd wr" using i(1) j(1) \<open>q \<in> wr i\<close> qj by (auto simp: feeds_def)
    ultimately show ?thesis by blast
  qed
  then have "P = {}" using wfs(2) by (metis converseI ex_in_conv wf_eq_minimal)
  have "\<exists>j\<in>U. (j, i) \<in> feeds D rd wr" if iU: "i \<in> U" for i
  proof -
    obtain p where p: "procs s i = Some p" "pend p \<noteq> ReqNone" using iU unfolding U_def by blast
    have i: "i \<in> D" "inv p" using ok p by (auto simp: net_ok_def)
    obtain q where q: "pend p = ReqPop q" "bq_queue (queues s q) = []"
      using stuck_cases[OF p(1) stuck p(2)] p \<open>P = {}\<close> by (auto simp: P_def)
    have ri: "0 < reads_of s q i" using pop_owed[OF i(2) q(1)] p by (simp add: reads_of_def)
    obtain j where j: "j \<in> D" "0 < writes_of s q j" using writer_exists[OF ok fin ri i(1) q(2)] by auto
    then have "j \<in> U" using owing_runs[OF ok j(1)] by (auto simp: U_def)
    moreover have "q \<in> rd i" "q \<in> wr j" using ok ri j unfolding net_ok_def by blast+
    then have "(j, i) \<in> feeds D rd wr" using j(1) i(1) by (auto simp: feeds_def)
    ultimately show ?thesis by blast
  qed
  then have "U = {}" using wfs(1) by (metis ex_in_conv wf_eq_minimal)
  with live show False by (auto simp: U_def all_ended_def)
qed

text \<open>
  The same when every process writes to at most one queue: a process that waits for an element waits for
  a writer that waits for an element too, so nobody does; and then nobody waits for space.
\<close>

lemma no_deadlock_out:
  assumes ok: "net_ok D rd wr cap s" and fin: "finite D"
    and acyc: "acyclic (feeds D rd wr)"
    and single: "\<And>i q q'. i \<in> D \<Longrightarrow> q \<in> wr i \<Longrightarrow> q' \<in> wr i \<Longrightarrow> q = q'"
    and cap: "\<And>i q. i \<in> D \<Longrightarrow> q \<in> wr i \<Longrightarrow> 0 < cap q"
    and live: "\<not> all_ended pend s"
  shows "\<exists>i s'. proc_step pend res i s s'"
proof (rule ccontr)
  assume "\<not> ?thesis"
  then have stuck: "\<nexists>s'. proc_step pend res i s s'" for i by blast
  define U where "U = {i. \<exists>p. procs s i = Some p \<and> pend p \<noteq> ReqNone}"
  define W where "W = {i. \<exists>p q. procs s i = Some p \<and> pend p = ReqPop q}"
  have wfs: "wf (feeds D rd wr)" "wf ((feeds D rd wr)\<inverse>)"
    using fin acyc by (auto intro: finite_acyclic_wf finite_acyclic_wf_converse finite_feeds)
  have full: "bq_queue (queues s q) \<noteq> [] \<and> q \<in> wr i \<and> 0 < writes_of s q i"
    if p: "procs s i = Some p" "pend p = ReqPush q v" for i p q v
  proof -
    have i: "i \<in> D" "inv p" using ok p by (auto simp: net_ok_def)
    have w: "0 < writes_of s q i" using push_owed[OF i(2) p(2)] p by (simp add: writes_of_def)
    then have "q \<in> wr i" using ok by (auto simp: net_ok_def)
    then show ?thesis using cap[OF i(1)] w stuck_cases[OF p(1) stuck] p ok
      by (auto simp: net_ok_def) (metis list.size(3) less_irrefl)
  qed
  have "\<exists>j\<in>W. (j, i) \<in> feeds D rd wr" if iW: "i \<in> W" for i
  proof -
    obtain p q where p: "procs s i = Some p" "pend p = ReqPop q" using iW unfolding W_def by blast
    have i: "i \<in> D" "inv p" using ok p by (auto simp: net_ok_def)
    have empty: "bq_queue (queues s q) = []" using stuck_cases[OF p(1) stuck] p by auto
    have ri: "0 < reads_of s q i" using pop_owed[OF i(2) p(2)] p by (simp add: reads_of_def)
    obtain j where j: "j \<in> D" "0 < writes_of s q j" using writer_exists[OF ok fin ri i(1) empty] by auto
    have q: "q \<in> rd i" "q \<in> wr j" using ok ri j unfolding net_ok_def by blast+
    obtain pj where pj: "procs s j = Some pj" "pend pj \<noteq> ReqNone" using owing_runs[OF ok j(1)] j by blast
    have "j \<in> W"
    proof (rule stuck_cases[OF pj(1) stuck pj(2)])
      fix q' v' assume "pend pj = ReqPush q' v'"
      with full[OF pj(1)] single[OF j(1) q(2)] empty show ?thesis by blast
    qed (use pj in \<open>auto simp: W_def\<close>)
    then show ?thesis using q j(1) i(1) by (auto simp: feeds_def)
  qed
  then have "W = {}" using wfs(1) by (metis ex_in_conv wf_eq_minimal)
  have "\<exists>j\<in>U. (i, j) \<in> feeds D rd wr" if iU: "i \<in> U" for i
  proof -
    obtain p where p: "procs s i = Some p" "pend p \<noteq> ReqNone" using iU unfolding U_def by blast
    have i: "i \<in> D" using ok p by (auto simp: net_ok_def)
    have "pend p \<noteq> ReqPop q" for q using \<open>W = {}\<close> p(1) by (auto simp: W_def)
    then obtain q v where q: "pend p = ReqPush q v" using stuck_cases[OF p(1) stuck p(2)] by metis
    obtain j where j: "j \<in> D" "0 < reads_of s q j" using reader_exists[OF ok fin _ i] full[OF p(1) q] by auto
    then have "j \<in> U" using owing_runs[OF ok j(1)] by (auto simp: U_def)
    moreover have "q \<in> rd j" using ok j unfolding net_ok_def by blast
    then have "(i, j) \<in> feeds D rd wr" using j(1) i full[OF p(1) q] by (auto simp: feeds_def)
    ultimately show ?thesis by blast
  qed
  then have "U = {}" using wfs(2) by (metis converseI ex_in_conv wf_eq_minimal)
  with live show False by (auto simp: U_def all_ended_def)
qed

section \<open>Nothing is left behind\<close>

text \<open>
  A writer puts its EOF after its data: once no EOF is owed to a queue, the queue ends with an
  EOF or is empty.
\<close>

definition tail_ok :: "('p, 'v) net \<Rightarrow> bool" where
  "tail_ok s \<longleftrightarrow>
     (\<forall>q. (\<forall>i. writes_of s q i = 0) \<longrightarrow>
        bq_queue (queues s q) = [] \<or> last (bq_queue (queues s q)) = None)"

lemma writes_of_upd:
  "writes_of (s\<lparr>procs := (procs s)(i \<mapsto> p'), queues := qs\<rparr>) q j =
     (if j = i then wr_owed p' q else writes_of s q j)"
  "writes_of (s\<lparr>procs := (procs s)(i \<mapsto> p')\<rparr>) q j = (if j = i then wr_owed p' q else writes_of s q j)"
  "writes_of (s\<lparr>procs := (procs s)(i \<mapsto> p'), aborts := as\<rparr>) q j =
     (if j = i then wr_owed p' q else writes_of s q j)"
  by (auto simp: writes_of_def)

text \<open>A step that writes nothing, and at most takes the first element of a queue.\<close>

lemma tail_ok_same_writes:
  assumes "tail_ok s" "\<And>q j. writes_of s' q j = writes_of s q j"
    "\<And>q. bq_queue (queues s' q) = bq_queue (queues s q) \<or> bq_queue (queues s' q) = tl (bq_queue (queues s q))"
  shows "tail_ok s'"
  unfolding tail_ok_def
proof (intro allI impI)
  fix q assume "\<forall>i. writes_of s' q i = 0"
  then have "bq_queue (queues s q) = [] \<or> last (bq_queue (queues s q)) = None"
    using assms(1,2) by (simp add: tail_ok_def)
  then show "bq_queue (queues s' q) = [] \<or> last (bq_queue (queues s' q)) = None"
    using assms(3)[of q] by (cases "bq_queue (queues s q)") (auto split: if_splits)
qed

lemma not_lost: "\<not> some_lost s \<Longrightarrow> procs s i = Some p \<Longrightarrow> \<not> lost p"
  by (auto simp: some_lost_def)

lemma writes_same:
  "procs s i = Some p \<Longrightarrow> wr_owed p' = wr_owed p \<Longrightarrow>
    (if j = i then wr_owed p' q else writes_of s q j) = writes_of s q j"
  by (simp add: writes_of_def)

lemma proc_step_tail:
  assumes "proc_step pend res i s s'" "net_ok D rd wr cap s" "\<not> some_lost s'" "tail_ok s"
  shows "tail_ok s'"
  using assms(1)
proof cases
  case (start p now)
  have p: "inv p" "\<not> lost (res now AnsGo p)"
    using start assms(2) not_lost[OF assms(3), of i] by (auto simp: net_ok_def)
  then have "wr_owed (res now AnsGo p) = wr_owed p" using start_law[OF p(1) start(3)] by blast
  then show ?thesis unfolding start(1)
    by (intro tail_ok_same_writes[OF assms(4)]) (simp_all add: writes_of_upd writes_same[OF start(2)])
next
  case (pop p q v bq now)
  have p: "inv p" "\<not> lost (res now (AnsPop v) p)"
    using pop assms(2) not_lost[OF assms(3), of i] by (auto simp: net_ok_def)
  then have "wr_owed (res now (AnsPop v) p) = wr_owed p" using pop_law[OF p(1) pop(3)] by blast
  moreover have "bq_queue bq = tl (bq_queue (queues s q))" using bq.pop_takes[OF pop(4)] by simp
  ultimately show ?thesis unfolding pop(1)
    by (intro tail_ok_same_writes[OF assms(4)]) (simp_all add: writes_of_upd writes_same[OF pop(2)])
next
  case (push p q v bq now)
  have p: "inv p" "\<not> lost (res now AnsGo p)"
    using push assms(2) not_lost[OF assms(3), of i] by (auto simp: net_ok_def)
  then have law: "wr_owed (res now AnsGo p) = (wr_owed p)(q := wr_owed p q - (if v = None then 1 else 0))"
    "0 < wr_owed p q" using push_law[OF p(1) push(3)] push_owed[OF p(1) push(3)] by blast+
  have bq: "bq_queue bq = bq_queue (queues s q) @ [v]" using bq.push_appends[OF push(4)] by simp
  show ?thesis
    unfolding tail_ok_def
  proof (intro allI impI)
    fix q' assume w: "\<forall>j. writes_of s' q' j = 0"
    show "bq_queue (queues s' q') = [] \<or> last (bq_queue (queues s' q')) = None"
    proof (cases "q' = q")
      case True
      have "wr_owed (res now AnsGo p) q = 0"
        using w[rule_format, of i] True unfolding push(1) by (simp add: writes_of_upd)
      then have "v = None" using law by (simp split: if_splits)
      then show ?thesis using True bq unfolding push(1) by simp
    next
      case False
      have "writes_of s q' j = 0" for j
        using w[rule_format, of j] False law push(2) unfolding push(1)
        by (cases "j = i") (simp_all add: writes_of_upd writes_of_def)
      then show ?thesis using False assms(4) unfolding push(1) by (simp add: tail_ok_def)
    qed
  qed
next
  case (abort_pop p a r bq now)
  have p: "inv p" "\<not> lost (res now (AnsTry (r \<noteq> None)) p)"
    using abort_pop assms(2) not_lost[OF assms(3), of i] by (auto simp: net_ok_def)
  then have "wr_owed (res now (AnsTry (r \<noteq> None)) p) = wr_owed p"
    using abort_pop_law[OF p(1) abort_pop(3)] by blast
  then show ?thesis unfolding abort_pop(1)
    by (intro tail_ok_same_writes[OF assms(4)]) (simp_all add: writes_of_upd writes_same[OF abort_pop(2)])
next
  case (abort_push p a b bq now)
  have p: "inv p" "\<not> lost (res now (AnsTry b) p)"
    using abort_push assms(2) not_lost[OF assms(3), of i] by (auto simp: net_ok_def)
  then have "wr_owed (res now (AnsTry b) p) = wr_owed p"
    using abort_push_law[OF p(1) abort_push(3)] by blast
  then show ?thesis unfolding abort_push(1)
    by (intro tail_ok_same_writes[OF assms(4)]) (simp_all add: writes_of_upd writes_same[OF abort_push(2)])
qed

lemma net_reach_tail:
  assumes "net_reach pend res s0 s" "net_ok D rd wr cap s0" "finite D" "tail_ok s0"
  shows "some_lost s \<or> tail_ok s"
  using assms
proof (induction rule: net_reach.induct)
  case (step s i s')
  show ?case
  proof (cases "some_lost s'")
    case False
    then have "\<not> some_lost s" using proc_step_keeps_lost[OF step(2)] by blast
    then have "net_ok D rd wr cap s" "tail_ok s" using net_reach_ok[OF step(1)] step by auto
    then show ?thesis using proc_step_tail[OF step(2) _ False] by blast
  qed simp
next
  case (env s h)
  then show ?case by (auto simp: some_lost_frame tail_ok_def owed_upd)
qed simp

lemma ended_owes_nothing:
  assumes "net_ok D rd wr cap s" "all_ended pend s"
  shows "reads_of s q i = 0" "writes_of s q i = 0"
  using assms ended_law by (auto simp: reads_of_def writes_of_def all_ended_def net_ok_def split: option.splits)

text \<open>When all have ended, every queue is empty.\<close>

lemma ended_drained:
  assumes "net_ok D rd wr cap s" "tail_ok s" "all_ended pend s"
  shows "bq_queue (queues s q) = []"
proof -
  have "count_eof (bq_queue (queues s q)) = 0"
    using assms(1) ended_owes_nothing[OF assms(1,3)] by (simp add: net_ok_def balanced_def)
  moreover have "bq_queue (queues s q) = [] \<or> last (bq_queue (queues s q)) = None"
    using assms(2) ended_owes_nothing[OF assms(1,3)] by (simp add: tail_ok_def)
  ultimately show ?thesis
    by (cases "bq_queue (queues s q)" rule: rev_cases) auto
qed

end

end
