(* ===== verification/Coroutine_Inv.thy ===== *)
theory Coroutine_Inv
  imports Network
begin

text \<open>
  What every suspended processor satisfies, and how many EOFs it still owes: \<open>to_read p q\<close> is
  the number of EOFs the processor has yet to take from queue \<open>q\<close>, \<open>to_write p q\<close> the number it
  has yet to put into \<open>q\<close>. Every answer of a queue keeps the invariant and changes the two
  counts by exactly the EOF that was transferred, in normal work and in hosted mode alike.
\<close>

section \<open>Field access\<close>

lemma get_chan_frame [simp, chan_simps]:
  "get_chan (p\<lparr>pc := x\<rparr>) r = get_chan p r"
  "get_chan (p\<lparr>event_collector := ec\<rparr>) r = get_chan p r"
  "get_chan (p\<lparr>node_class := c\<rparr>) r = get_chan p r"
  "get_chan (p\<lparr>input_count := n\<rparr>) r = get_chan p r"
  by (cases r; simp)+

lemma upd_chan_frame [simp, chan_simps]:
  "pc (upd_chan f r p) = pc p"
  "abort_port (upd_chan f r p) = abort_port p"
  "node_class (upd_chan f r p) = node_class p"
  "input_count (upd_chan f r p) = input_count p"
  "event_collector (upd_chan f r p) = event_collector p"
  "traits (upd_chan f r p) = traits p"
  "length (inputs (upd_chan f r p)) = length (inputs p)"
  "length (outputs (upd_chan f r p)) = length (outputs p)"
  by (cases r; simp)+

lemma chan_queue_reset [simp, chan_simps]:
  "chan_queue (upd_chan chan_reset r p) r' = (if r' = r then None else chan_queue p r')"
  by (cases r; cases r') (auto simp: nth_list_update)

lemma nth_SetIndex_queue:
  "j < length cs \<Longrightarrow> ch_queue (cs[i := SetIndex k (cs ! i)] ! j) = ch_queue (cs ! j)"
  by (cases "i = j") auto

lemma chan_queue_SetIndex [simp, chan_simps]:
  "chan_queue (upd_chan (SetIndex i) r p) r' = chan_queue p r'"
  by (cases r; cases r') (auto simp: nth_SetIndex_queue)

lemma GetChannel_frame:
  assumes "GetChannel r p = Inr p'"
  shows "chan_queue p' r' = chan_queue p r'" "pc p' = pc p" "abort_port p' = abort_port p"
    "node_class p' = node_class p" "input_count p' = input_count p"
    "length (inputs p') = length (inputs p)" "length (outputs p') = length (outputs p)"
  using assms by (cases r; auto split: if_splits simp del: upd_chan.simps)+

declare get_chan.simps [simp del] upd_chan.simps [simp del]

section \<open>Kinds of nodes\<close>

text \<open>What of a class the port discipline depends on; running user code does not change it.\<close>

datatype kind = KSource | KChannelSource | KSink | KChannelSink | KTransform | KMulti nat | KOneI nat
  | KBase

fun kind_of :: "('v, 's) node_class \<Rightarrow> kind" where
  "kind_of ChannelSourceC = KChannelSource"
| "kind_of ChannelSinkC = KChannelSink"
| "kind_of c =
     (case base_of c of
        SourceB \<Rightarrow> KSource | SinkB \<Rightarrow> KSink | TransformB \<Rightarrow> KTransform
      | MultiIOneOB \<Rightarrow> KMulti (class_size c) | OneIMultiOB \<Rightarrow> KOneI (class_size c)
      | ProcessorB \<Rightarrow> KBase)"

fun in_refs :: "kind \<Rightarrow> chan_ref list" where
  "in_refs KSource = []"
| "in_refs (KMulti n) = map Inputs [0..<n]"
| "in_refs KBase = []"
| "in_refs _ = [InPort]"

fun out_refs :: "kind \<Rightarrow> chan_ref list" where
  "out_refs KSink = []"
| "out_refs (KOneI n) = map Outputs [0..<n]"
| "out_refs KBase = []"
| "out_refs _ = [OutPort]"

definition hosted_of :: "kind \<Rightarrow> hosted_cmd list" where
  "hosted_of k =
     map (\<lambda>r. CloseInput r (if r = InPort then InputCount else LocalCount 1)) (in_refs k) @
     map CloseOutput (out_refs k)"

lemma hosted_mode_kind: "hosted_mode c = hosted_of (kind_of c)"
  by (cases c) (auto simp: hosted_mode_defs hosted_of_def)

lemma pop_count_kind:
  "pop_count c = (case kind_of c of KMulti n \<Rightarrow> LocalCount 1 | _ \<Rightarrow> InputCount)"
  by (cases c) (auto simp: pop_count_def MultiIOneO_Pop_def)

lemma kind_Source_generate: "kind_of (snd (Source_generate c)) = kind_of c"
  by (cases c) (auto split: prod.splits sum.splits)

lemma kind_work_popped: "kind_of (snd (work_popped c r v)) = kind_of c"
  by (cases c)
    (auto simp: Sink_body_def SimpleTransform_body_def Filter_body_def Accumulate_body_def
      Dispatch_body_def split: option.splits prod.splits sum.splits)

section \<open>Owed EOFs\<close>

abbreviation pkind :: "('v, 's) processor \<Rightarrow> kind" where
  "pkind p \<equiv> kind_of (node_class p)"

definition working_reads :: "('v, 's) processor \<Rightarrow> nat \<Rightarrow> nat" where
  "working_reads p q =
     (if chan_queue p InPort = Some q then input_count p else 0) +
     (\<Sum>i<length (inputs p). if chan_queue p (Inputs i) = Some q then 1 else 0)"

definition working_writes :: "('v, 's) processor \<Rightarrow> nat \<Rightarrow> nat" where
  "working_writes p q =
     (if chan_queue p OutPort = Some q then 1 else 0) +
     (\<Sum>i<length (outputs p). if chan_queue p (Outputs i) = Some q then 1 else 0)"

fun hosted_reads :: "('v, 's) processor \<Rightarrow> hosted_cmd list \<Rightarrow> nat \<Rightarrow> nat" where
  "hosted_reads p [] q = 0"
| "hosted_reads p (CloseInput r k # hs) q =
     (if chan_queue p r = Some q then read_count p k else 0) + hosted_reads p hs q"
| "hosted_reads p (CloseOutput r # hs) q = hosted_reads p hs q"

fun hosted_writes :: "('v, 's) processor \<Rightarrow> hosted_cmd list \<Rightarrow> nat \<Rightarrow> nat" where
  "hosted_writes p [] q = 0"
| "hosted_writes p (CloseInput r k # hs) q = hosted_writes p hs q"
| "hosted_writes p (CloseOutput r # hs) q =
     (if chan_queue p r = Some q then 1 else 0) + hosted_writes p hs q"

definition to_read :: "('v, 's) processor \<Rightarrow> nat \<Rightarrow> nat" where
  "to_read p =
     (case pc p of
        CloseInputWait r k hs e \<Rightarrow> hosted_reads p (CloseInput r k # hs)
      | CloseOutputWait r hs e \<Rightarrow> hosted_reads p hs
      | AfterWorkWait \<Rightarrow> (\<lambda>q. 0)
      | Finished e \<Rightarrow> (\<lambda>q. 0)
      | Aborted \<Rightarrow> (\<lambda>q. 0)
      | Crashed \<Rightarrow> (\<lambda>q. 0)
      | _ \<Rightarrow> working_reads p)"

definition to_write :: "('v, 's) processor \<Rightarrow> nat \<Rightarrow> nat" where
  "to_write p =
     (case pc p of
        CloseInputWait r k hs e \<Rightarrow> hosted_writes p hs
      | CloseOutputWait r hs e \<Rightarrow> hosted_writes p (CloseOutput r # hs)
      | AfterWorkWait \<Rightarrow> (\<lambda>q. if chan_queue p OutPort = Some q then 1 else 0)
      | Finished e \<Rightarrow> (\<lambda>q. 0)
      | Aborted \<Rightarrow> (\<lambda>q. 0)
      | Crashed \<Rightarrow> (\<lambda>q. 0)
      | _ \<Rightarrow> working_writes p)"

section \<open>The invariant of a processor\<close>

abbreviation is_open :: "('v, 's) processor \<Rightarrow> chan_ref \<Rightarrow> bool" where
  "is_open p r \<equiv> chan_queue p r \<noteq> None"

text \<open>The port members a class does not use stay empty, the port lists have the declared length.\<close>

definition shape :: "('v, 's) processor \<Rightarrow> bool" where
  "shape p \<longleftrightarrow>
     pkind p \<noteq> KBase \<and> pkind p \<noteq> KOneI 0 \<and>
     (InPort \<notin> set (in_refs (pkind p)) \<longrightarrow> \<not> is_open p InPort) \<and>
     (OutPort \<notin> set (out_refs (pkind p)) \<longrightarrow> \<not> is_open p OutPort) \<and>
     length (inputs p) = (case pkind p of KMulti n \<Rightarrow> n | _ \<Rightarrow> 0) \<and>
     length (outputs p) = (case pkind p of KOneI n \<Rightarrow> n | _ \<Rightarrow> 0) \<and>
     (is_open p InPort \<longrightarrow> 0 < input_count p)"

definition ins_open :: "('v, 's) processor \<Rightarrow> bool" where
  "ins_open p \<longleftrightarrow> (\<forall>r \<in> set (in_refs (pkind p)). is_open p r)"

definition outs_open :: "('v, 's) processor \<Rightarrow> bool" where
  "outs_open p \<longleftrightarrow> (\<forall>r \<in> set (out_refs (pkind p)). is_open p r)"

text \<open>The channel a work body may pop next; \<^verbatim>\<open>Concat\<close> reads its inputs in order.\<close>

definition pop_ready :: "('v, 's) processor \<Rightarrow> chan_ref \<Rightarrow> bool" where
  "pop_ready p r \<longleftrightarrow>
     r \<in> set (in_refs (pkind p)) \<and> outs_open p \<and>
     (case r of
        Inputs i \<Rightarrow> (\<forall>j<length (inputs p). is_open p (Inputs j) \<longleftrightarrow> i \<le> j)
      | _ \<Rightarrow> is_open p r)"

text \<open>A list of awaits that keeps to the port discipline from the port state of \<open>p\<close>.\<close>

fun cmds_ok :: "('v, 's) processor \<Rightarrow> 'v cmd list \<Rightarrow> bool" where
  "cmds_ok p [CPop r] = pop_ready p r"
| "cmds_ok p [CGenerate] =
     ((pkind p = KSource \<or> pkind p = KChannelSource) \<and> ins_open p \<and> outs_open p)"
| "cmds_ok p [CReturn] =
     ((\<forall>r \<in> set (in_refs (pkind p)). \<not> is_open p r) \<and>
      (if pkind p = KChannelSink then outs_open p
       else \<forall>r \<in> set (out_refs (pkind p)). \<not> is_open p r))"
| "cmds_ok p (CPush v r # cs) =
     (r \<in> set (out_refs (pkind p)) \<and> is_open p r \<and> cs \<noteq> [] \<and>
      cmds_ok (if v = None then upd_chan chan_reset r p else p) cs)"
| "cmds_ok p _ = False"

text \<open>The part of a hosted-mode body after its first input: local counters and existing ports.\<close>

definition hosted_ok :: "('v, 's) processor \<Rightarrow> hosted_cmd list \<Rightarrow> bool" where
  "hosted_ok p hs \<longleftrightarrow>
     (\<forall>h \<in> set hs.
        case h of
          CloseInput r k \<Rightarrow>
            r \<in> set (in_refs (pkind p)) \<and> (\<exists>i<length (inputs p). r = Inputs i) \<and>
            (\<exists>n>0. k = LocalCount n)
        | CloseOutput r \<Rightarrow>
            r \<in> set (out_refs (pkind p)) \<and> (r = OutPort \<or> (\<exists>i<length (outputs p). r = Outputs i)))"

definition proc_inv :: "('v, 's) processor \<Rightarrow> bool" where
  "proc_inv p \<longleftrightarrow>
     (case pc p of
        Created \<Rightarrow> shape p \<and> ins_open p \<and> outs_open p
      | PopWait r k \<Rightarrow> shape p \<and> pop_ready p r \<and> k = pop_count (node_class p)
      | PopAbortWait r k v sr \<Rightarrow>
          shape p \<and> pop_ready p r \<and> k = pop_count (node_class p) \<and> sr = (v \<noteq> None)
      | PushWait v r cs \<Rightarrow> shape p \<and> cmds_ok p (CPush v r # cs)
      | PushAbortWait cs \<Rightarrow> shape p \<and> cmds_ok p cs
      | NotifyWait e \<Rightarrow> shape p
      | CloseInputWait r k hs e \<Rightarrow>
          is_open p r \<and> 0 < read_count p k \<and> hosted_ok p hs \<and> r \<in> set (in_refs (pkind p))
      | CloseOutputWait r hs e \<Rightarrow> is_open p r \<and> hosted_ok p hs \<and> r \<in> set (out_refs (pkind p))
      | AfterWorkWait \<Rightarrow> is_open p OutPort \<and> pkind p = KChannelSink
      | Finished e \<Rightarrow> True
      | Aborted \<Rightarrow> False
      | Crashed \<Rightarrow> False) \<and>
     (\<forall>e. pc p = NotifyWait e \<or> (\<exists>r k v sr. pc p = PopAbortWait r k v sr) \<or>
       (\<exists>cs. pc p = PushAbortWait cs) \<longrightarrow> chan_bool (abort_port p))"

text \<open>The process was aborted, or an exception ended the node with nobody told.\<close>

definition bad :: "('v, 's) processor \<Rightarrow> bool" where
  "bad p \<longleftrightarrow>
     \<not> chan_bool (abort_port p) \<and> (pc p = Aborted \<or> (\<exists>e. pc p = Finished (Some e)))"


section \<open>Frame lemmas\<close>

text \<open>Two processors whose ports agree owe the same EOFs and pass the same checks.\<close>

definition same_ports :: "('v, 's) processor \<Rightarrow> ('v, 's) processor \<Rightarrow> bool" where
  "same_ports p p' \<longleftrightarrow>
     (\<forall>r. chan_queue p' r = chan_queue p r) \<and> pkind p' = pkind p \<and>
     input_count p' = input_count p \<and> abort_port p' = abort_port p \<and>
     length (inputs p') = length (inputs p) \<and> length (outputs p') = length (outputs p)"

lemma same_ports_refl [simp]: "same_ports p p"
  by (simp add: same_ports_def)

lemma same_ports_trans: "same_ports p p' \<Longrightarrow> same_ports p' p'' \<Longrightarrow> same_ports p p''"
  by (simp add: same_ports_def)

lemma same_ports_frame [simp]:
  "same_ports p (p'\<lparr>pc := x\<rparr>) = same_ports p p'"
  "same_ports p (p'\<lparr>event_collector := ec\<rparr>) = same_ports p p'"
  "kind_of c = pkind p' \<Longrightarrow> same_ports p (p'\<lparr>node_class := c\<rparr>) = same_ports p p'"
  by (simp_all add: same_ports_def)

lemma same_ports_GetChannel: "GetChannel r p = Inr p' \<Longrightarrow> same_ports p p'"
  by (auto simp: same_ports_def dest: GetChannel_frame)

lemma same_ports_owed:
  assumes "same_ports p p'"
  shows "working_reads p' = working_reads p" "working_writes p' = working_writes p"
    "read_count p' k = read_count p k"
  using assms by (cases k; auto simp: same_ports_def working_reads_def working_writes_def fun_eq_iff)+

lemma same_ports_hosted:
  assumes "same_ports p p'"
  shows "hosted_reads p' hs q = hosted_reads p hs q" "hosted_writes p' hs q = hosted_writes p hs q"
proof -
  have "\<forall>r. chan_queue p' r = chan_queue p r" "\<And>k. read_count p' k = read_count p k"
    using assms same_ports_owed(3)[OF assms] by (simp_all add: same_ports_def)
  then show "hosted_reads p' hs q = hosted_reads p hs q" "hosted_writes p' hs q = hosted_writes p hs q"
    by (induction p hs q rule: hosted_reads.induct) simp_all
qed

lemma same_ports_checks:
  assumes "same_ports p p'"
  shows "shape p' = shape p" "ins_open p' = ins_open p" "outs_open p' = outs_open p"
    "pop_ready p' r = pop_ready p r" "hosted_ok p' hs = hosted_ok p hs"
  using assms
  by (simp_all add: same_ports_def shape_def ins_open_def outs_open_def pop_ready_def hosted_ok_def
      cong: chan_ref.case_cong hosted_cmd.case_cong)

lemma same_ports_reset:
  "same_ports p p' \<Longrightarrow> same_ports (upd_chan chan_reset r p) (upd_chan chan_reset r p')"
  by (simp add: same_ports_def)

lemma same_ports_cmds_ok:
  assumes "same_ports p p'"
  shows "cmds_ok p' cs = cmds_ok p cs"
  using assms
proof (induction p cs arbitrary: p' rule: cmds_ok.induct)
  case (1 p r)
  show ?case using same_ports_checks(4)[OF "1"] by simp
next
  case (4 p v r cs)
  have "cmds_ok (if v = None then upd_chan chan_reset r p' else p') cs =
      cmds_ok (if v = None then upd_chan chan_reset r p else p) cs"
    by (rule "4.IH") (simp add: "4.prems" same_ports_reset)
  with "4.prems" show ?case by (simp add: same_ports_def)
qed (simp_all add: same_ports_def outs_open_def ins_open_def)

section \<open>Closing a port\<close>

lemma sum_close_one:
  fixes f :: "nat \<Rightarrow> nat option"
  assumes "i < n" "f i = Some q0"
  shows "(\<Sum>j<n. if (if j = i then None else f j) = Some q then 1 else 0) + (if q = q0 then 1 else 0)
    = (\<Sum>j<n. if f j = Some q then 1 else (0::nat))"
  using assms
    sum_change_one[of "{..<n}" i "\<lambda>j. if (if j = i then None else f j) = Some q then 1 else 0"
      "\<lambda>j. if f j = Some q then 1 else (0::nat)"]
  by (auto split: if_splits)

lemma working_writes_reset:
  assumes "r \<in> set (out_refs (pkind p))" "shape p" "chan_queue p r = Some q0"
  shows "working_writes (upd_chan chan_reset r p) q + (if q = q0 then 1 else 0) = working_writes p q"
proof (cases r)
  case (Outputs i)
  with assms have "i < length (outputs p)" by (cases "pkind p") (auto simp: shape_def)
  then show ?thesis
    using assms(3) sum_close_one[of i "length (outputs p)" "\<lambda>j. chan_queue p (Outputs j)" q0 q] Outputs
    by (simp add: working_writes_def)
next
  case OutPort
  then show ?thesis
    using assms(3) by (simp add: working_writes_def)
qed (use assms in \<open>cases "pkind p"; auto\<close>)+

lemma working_writes_reset_in:
  "r \<in> set (in_refs (pkind p)) \<Longrightarrow> working_writes (upd_chan chan_reset r p) = working_writes p"
  by (cases "pkind p") (auto simp: working_writes_def fun_eq_iff)

lemma working_reads_reset_out:
  "r \<in> set (out_refs (pkind p)) \<Longrightarrow> working_reads (upd_chan chan_reset r p) = working_reads p"
  by (cases "pkind p") (auto simp: working_reads_def fun_eq_iff)

lemma shape_reset: "shape p \<Longrightarrow> shape (upd_chan chan_reset r p)"
  by (auto simp: shape_def)


section \<open>Bodies keep to the port discipline\<close>

lemma work_ok:
  assumes "shape p" "ins_open p" "outs_open p" "work (node_class p) = Inr cs"
  shows "cmds_ok p cs"
  using assms
  by (cases "node_class p")
    (auto simp: Concat_from_def pop_ready_def ins_open_def outs_open_def shape_def split: if_splits)

lemma work_not_base: "shape p \<Longrightarrow> \<exists>cs. work (node_class p) = Inr cs"
  by (cases "node_class p") (auto simp: shape_def)

lemma before_work_ok: "shape p \<Longrightarrow> ins_open p \<Longrightarrow> outs_open p \<Longrightarrow> before_work p = None"
  by (cases "node_class p")
    (auto simp: before_work_defs shape_def ins_open_def outs_open_def chan_bool_def get_chan.simps)

lemma Source_generate_ok:
  assumes "cmds_ok p [CGenerate]" "fst (Source_generate (node_class p)) = Inr cs" "shape p"
  shows "cmds_ok p cs \<and> hd cs \<noteq> CGenerate \<and> cs \<noteq> []"
  using assms
  by (cases "node_class p")
    (auto simp: Source_push_def pop_ready_def ins_open_def outs_open_def split: prod.splits sum.splits)


lemma push_all_Some_ok:
  assumes "\<forall>i \<in> set is. Outputs i \<in> set (out_refs (pkind p)) \<and> is_open p (Outputs i)"
    "pop_ready p InPort"
  shows "cmds_ok p (map (\<lambda>i. CPush (Some x) (Outputs i)) is @ [CPop InPort])"
  using assms by (induction "is") auto

lemma push_eof_from_ok:
  assumes "pkind p = KOneI n" "k \<le> n" "\<not> is_open p InPort"
    "\<forall>j<n. is_open p (Outputs j) \<longleftrightarrow> k \<le> j"
  shows "cmds_ok p (map (\<lambda>index. CPush None (Outputs index)) [k..<n] @ [CReturn])"
  using assms
proof (induction "n - k" arbitrary: k p)
  case 0
  then show ?case by auto
next
  case (Suc m)
  let ?p = "upd_chan chan_reset (Outputs k) p"
  have k: "k < n" using Suc.hyps(2) by simp
  have "cmds_ok ?p (map (\<lambda>index. CPush None (Outputs index)) [Suc k..<n] @ [CReturn])"
    using Suc.prems k Suc.hyps(2) by (intro Suc.hyps(1)) auto
  moreover have "Outputs k \<in> set (out_refs (pkind p))" "is_open p (Outputs k)"
    using k Suc.prems by auto
  ultimately show ?case using k by (simp add: upt_conv_Cons)
qed

lemma work_popped_Some_ok:
  assumes "pop_ready p r" "shape p" "fst (work_popped (node_class p) r (Some x)) = Inr cs"
  shows "cmds_ok p cs"
proof (cases "node_class p")
  case (ForkC n)
  then have K: "pkind p = KOneI n" by simp
  with assms(1) have "r = InPort" "outs_open p" by (auto simp: pop_ready_def)
  then have "cmds_ok p (map (\<lambda>i. CPush (Some x) (Outputs i)) [0..<n] @ [CPop InPort])"
    using assms(1) K by (intro push_all_Some_ok) (auto simp: outs_open_def)
  then show ?thesis using assms(3) ForkC by (auto simp: Fork_body_def)
next
  case (DispatchC n d s)
  then have "0 < n" using assms(2) by (auto simp: shape_def)
  with DispatchC show ?thesis
    using assms
    by (auto simp: Dispatch_body_def pop_ready_def outs_open_def split: prod.splits sum.splits)
qed (use assms in \<open>auto simp: pop_ready_def outs_open_def ins_open_def ChannelSource_body_def Source_push_def
      Sink_body_def DumpSink_body_def ChannelSink_body_def SimpleTransform_body_def
      NoOpTransform_body_def Filter_body_def Accumulate_body_def Concat_body_def
      split: prod.splits sum.splits if_splits\<close>)

lemma work_popped_None_ok:
  assumes "pop_ready p r" "shape (upd_chan chan_reset r p)"
    "fst (work_popped (node_class p) r None) = Inr cs"
  shows "cmds_ok (upd_chan chan_reset r p) cs"
proof (cases "node_class p")
  case (ForkC n)
  then have K: "pkind p = KOneI n" by simp
  with assms(1) have "r = InPort" "outs_open p" by (auto simp: pop_ready_def)
  then have "cmds_ok (upd_chan chan_reset r p)
      (map (\<lambda>index. CPush None (Outputs index)) [0..<n] @ [CReturn])"
    using K by (intro push_eof_from_ok) (auto simp: outs_open_def)
  then show ?thesis using assms(3) ForkC by (auto simp: Fork_body_def push_eof_all_def)
next
  case (DispatchC n d s)
  then have K: "pkind p = KOneI n" by simp
  with assms(1) have "r = InPort" "outs_open p" by (auto simp: pop_ready_def)
  then have "cmds_ok (upd_chan chan_reset r p)
      (map (\<lambda>index. CPush None (Outputs index)) [0..<n] @ [CReturn])"
    using K by (intro push_eof_from_ok) (auto simp: outs_open_def)
  then show ?thesis using assms(3) DispatchC by (auto simp: Dispatch_body_def push_eof_all_def)
next
  case (ConcatC n)
  then obtain i where "r = Inputs i" "i < n" "length (inputs p) = n"
    using assms by (auto simp: pop_ready_def shape_def)
  moreover have "\<not> Suc i < n \<Longrightarrow> j < n \<Longrightarrow> j \<noteq> i \<Longrightarrow> \<not> is_open p (Inputs j)" for j
    using assms(1) calculation by (auto simp: pop_ready_def)
  ultimately show ?thesis
    using assms ConcatC
    by (auto simp: Concat_body_def Concat_from_def pop_ready_def outs_open_def split: if_splits)
qed (use assms in \<open>auto simp: pop_ready_def outs_open_def ins_open_def ChannelSource_body_def Source_push_def
      Sink_body_def DumpSink_body_def ChannelSink_body_def SimpleTransform_body_def
      NoOpTransform_body_def Filter_body_def Accumulate_body_def
      split: prod.splits sum.splits if_splits\<close>)


section \<open>Running to the next suspension\<close>

definition owes :: "('v, 's) processor \<Rightarrow> (nat \<Rightarrow> nat) \<Rightarrow> (nat \<Rightarrow> nat) \<Rightarrow> bool" where
  "owes p R W \<longleftrightarrow> bad p \<or> (proc_inv p \<and> to_read p = R \<and> to_write p = W)"

lemma closed_reads:
  assumes "shape p" "\<forall>r \<in> set (in_refs (pkind p)). \<not> is_open p r"
  shows "working_reads p = (\<lambda>q. 0)"
  using assms by (cases "pkind p") (auto simp: working_reads_def shape_def fun_eq_iff)

lemma closed_writes:
  assumes "shape p" "\<forall>r \<in> set (out_refs (pkind p)). \<not> is_open p r"
  shows "working_writes p = (\<lambda>q. 0)"
  using assms by (cases "pkind p") (auto simp: working_writes_def shape_def fun_eq_iff)

lemma working_frame [simp]:
  "working_reads (p\<lparr>pc := x\<rparr>) = working_reads p"
  "working_writes (p\<lparr>pc := x\<rparr>) = working_writes p"
  "working_reads (p\<lparr>event_collector := ec\<rparr>) = working_reads p"
  "working_writes (p\<lparr>event_collector := ec\<rparr>) = working_writes p"
  by (simp_all add: working_reads_def working_writes_def fun_eq_iff)

lemma checks_frame [simp]:
  "shape (p\<lparr>pc := x\<rparr>) = shape p" "shape (p\<lparr>event_collector := ec\<rparr>) = shape p"
  "pop_ready (p\<lparr>pc := x\<rparr>) r = pop_ready p r"
  "cmds_ok (p\<lparr>pc := x\<rparr>) cs = cmds_ok p cs"
  "cmds_ok (p\<lparr>event_collector := ec\<rparr>) cs = cmds_ok p cs"
  "cmds_ok (upd_chan chan_reset r (p\<lparr>pc := x\<rparr>)) cs = cmds_ok (upd_chan chan_reset r p) cs"
  "hosted_ok (p\<lparr>pc := x\<rparr>) hs = hosted_ok p hs"
  by (auto intro!: same_ports_checks same_ports_cmds_ok same_ports_reset)

lemma work_failed_owes:
  "shape p \<Longrightarrow> owes (work_failed e p) (working_reads p) (working_writes p)"
  by (auto simp: work_failed_def owes_def bad_def proc_inv_def to_read_def to_write_def)

lemma KChannelSink_class: "kind_of c = KChannelSink \<longleftrightarrow> c = ChannelSinkC"
  by (cases c) auto

lemma after_work_owes:
  assumes "shape p" "cmds_ok p [CReturn]"
  shows "owes (after_work now p) (working_reads p) (working_writes p)"
proof (cases "node_class p = ChannelSinkC")
  case True
  then have "working_reads p = (\<lambda>q. 0)" using assms by (intro closed_reads) auto
  moreover have "working_writes p = (\<lambda>q. if chan_queue p OutPort = Some q then 1 else 0)"
    using assms True by (auto simp: working_writes_def shape_def fun_eq_iff)
  ultimately show ?thesis
    using assms True
    by (auto simp: after_work_defs owes_def proc_inv_def to_read_def to_write_def outs_open_def
        chan_bool_def get_chan.simps)
next
  case False
  then have "pkind p \<noteq> KChannelSink" by (simp add: KChannelSink_class)
  then have "working_reads p = (\<lambda>q. 0)" "working_writes p = (\<lambda>q. 0)"
    using assms by (auto intro!: closed_reads closed_writes)
  moreover have "after_work now p = work_end_ok now p"
    using False by (auto simp: after_work_defs split: node_class.splits)
  ultimately show ?thesis
    by (simp add: work_end_ok_def owes_def proc_inv_def to_read_def to_write_def)
qed

lemma GetChannel_in_range:
  assumes "shape p" "r \<in> set (in_refs (pkind p)) \<union> set (out_refs (pkind p))"
  shows "\<exists>p'. GetChannel r p = Inr p'"
  using assms by (cases "pkind p") (auto simp: shape_def)

lemma await_pop_owes:
  assumes "shape p" "pop_ready p r" "k = pop_count (node_class p)"
  shows "owes (await_pop r k p) (working_reads p) (working_writes p)"
proof -
  have "is_open p r"
    using assms by (cases r) (auto simp: pop_ready_def shape_def split: kind.splits)
  then show ?thesis
    using assms
    by (auto simp: await_pop_def owes_def proc_inv_def to_read_def to_write_def chan_bool_def)
qed

lemma await_push_owes:
  assumes "shape p" "cmds_ok p (CPush v r # cs)"
  shows "owes (await_push v r cs p) (working_reads p) (working_writes p)"
  using assms
  by (auto simp: await_push_def owes_def proc_inv_def to_read_def to_write_def chan_bool_def)

lemma exec_simple_owes:
  assumes "shape p" "cmds_ok p cs" "cs \<noteq> [CGenerate]"
  shows "owes (exec_simple now cs p) (working_reads p) (working_writes p)"
proof (cases "(p, cs)" rule: cmds_ok.cases)
  case (1 p' r)
  then have r: "pop_ready p r" "cs = [CPop r]" using assms by auto
  then obtain p'' where p'': "GetChannel r p = Inr p''"
    using GetChannel_in_range[OF assms(1), of r] by (auto simp: pop_ready_def)
  then have sp: "same_ports p p''" by (rule same_ports_GetChannel)
  have "owes (await_pop r (pop_count (node_class p)) p'') (working_reads p'') (working_writes p'')"
    using assms(1) r GetChannel_frame(4)[OF p''] by (intro await_pop_owes) (simp_all add: same_ports_checks[OF sp])
  then show ?thesis using r p'' by (simp add: exec_simple_def same_ports_owed[OF sp])
next
  case (4 p' v r cs')
  then have r: "cmds_ok p (CPush v r # cs')" "cs = CPush v r # cs'" using assms by auto
  then obtain p'' where p'': "GetChannel r p = Inr p''"
    using GetChannel_in_range[OF assms(1), of r] by auto
  then have sp: "same_ports p p''" by (rule same_ports_GetChannel)
  have "owes (await_push v r cs' p'') (working_reads p'') (working_writes p'')"
    using assms(1) r by (intro await_push_owes) (simp_all only: same_ports_checks[OF sp] same_ports_cmds_ok[OF sp])
  then show ?thesis using r p'' by (simp add: exec_simple_def same_ports_owed[OF sp])
qed (use assms after_work_owes[OF assms(1), of now] in \<open>auto simp: exec_simple_def\<close>)


lemma exec_body_owes:
  assumes "shape p" "kind_of (snd b) = pkind p"
    "\<And>cs. fst b = Inr cs \<Longrightarrow> cmds_ok p cs \<and> cs \<noteq> [CGenerate]"
  shows "owes (exec_body now b p) (working_reads p) (working_writes p)"
proof -
  let ?p = "p\<lparr>node_class := snd b\<rparr>"
  have sp: "same_ports p ?p" using assms(2) by simp
  note checks = same_ports_checks[OF sp] same_ports_cmds_ok[OF sp] same_ports_owed[OF sp]
  show ?thesis
  proof (cases "fst b")
    case (Inl e)
    then have "exec_body now b p = work_failed e ?p"
      by (cases b) (simp add: exec_body_def)
    then show ?thesis
      using work_failed_owes[of ?p e] assms(1) by (simp only: checks)
  next
    case (Inr cs)
    then have "exec_body now b p = exec_simple now cs ?p"
      by (cases b) (simp add: exec_body_def)
    then show ?thesis
      using exec_simple_owes[of ?p cs now] assms(1) assms(3)[OF Inr] by (simp only: checks) simp
  qed
qed

lemma exec_cmds_owes:
  assumes "shape p" "cmds_ok p cs"
  shows "owes (exec_cmds now cs p) (working_reads p) (working_writes p)"
proof (cases "\<exists>cs'. cs = CGenerate # cs'")
  case True
  then have cs: "cs = [CGenerate]" using assms(2) by (cases "(p, cs)" rule: cmds_ok.cases) auto
  have "owes (exec_body now (Source_generate (node_class p)) p) (working_reads p) (working_writes p)"
    using assms cs Source_generate_ok[of p] by (intro exec_body_owes) (auto simp: kind_Source_generate)
  then show ?thesis using cs by (simp add: exec_cmds_def)
next
  case False
  then have "exec_cmds now cs p = exec_simple now cs p"
    by (auto simp: exec_cmds_def split: list.splits cmd.splits)
  with False assms show ?thesis by (auto intro: exec_simple_owes)
qed

lemma work_popped_no_generate: "fst (work_popped c r v) = Inr cs \<Longrightarrow> cs \<noteq> [CGenerate]"
  by (cases c)
    (auto simp: ChannelSource_body_def Source_push_def Sink_body_def DumpSink_body_def
      ChannelSink_body_def SimpleTransform_body_def NoOpTransform_body_def Filter_body_def
      Accumulate_body_def Concat_body_def Concat_from_def Dispatch_body_def Fork_body_def
      push_eof_all_def append_eq_Cons_conv
      split: option.splits prod.splits sum.splits if_splits chan_ref.splits)

lemma pop_return_Some_owes:
  assumes "shape p" "pop_ready p r"
  shows "owes (pop_return now r (Some x) p) (working_reads p) (working_writes p)"
  unfolding pop_return_def
  using assms by (intro exec_body_owes)
    (auto simp: kind_work_popped dest: work_popped_no_generate work_popped_Some_ok)

lemma pop_return_None_owes:
  assumes "shape (upd_chan chan_reset r p)" "pop_ready p r"
  shows "owes (pop_return now r None (upd_chan chan_reset r p))
    (working_reads (upd_chan chan_reset r p)) (working_writes p)"
proof -
  have "r \<in> set (in_refs (pkind p))" using assms(2) by (simp add: pop_ready_def)
  then have "working_writes (upd_chan chan_reset r p) = working_writes p"
    by (rule working_writes_reset_in)
  moreover have "owes (pop_return now r None (upd_chan chan_reset r p))
    (working_reads (upd_chan chan_reset r p)) (working_writes (upd_chan chan_reset r p))"
    unfolding pop_return_def
    using assms by (intro exec_body_owes)
      (auto simp: kind_work_popped dest: work_popped_no_generate work_popped_None_ok)
  ultimately show ?thesis by simp
qed

section \<open>Pop takes one element\<close>

abbreviation paid :: "(nat \<Rightarrow> nat) \<Rightarrow> nat \<Rightarrow> 'v option \<Rightarrow> nat \<Rightarrow> nat" where
  "paid R q v \<equiv> R(q := R q - (if v = None then 1 else 0))"

lemma working_reads_InPort:
  assumes "shape p" "InPort \<in> set (in_refs (pkind p))" "chan_queue p InPort = Some q"
  shows "working_reads p = (\<lambda>q'. if q' = q then input_count p else 0)"
  using assms by (cases "pkind p") (auto simp: working_reads_def shape_def fun_eq_iff)

lemma working_reads_reset_Inputs:
  assumes "i < length (inputs p)" "chan_queue p (Inputs i) = Some q" "\<not> is_open p InPort"
  shows "working_reads (upd_chan chan_reset (Inputs i) p) = paid (working_reads p) q None"
proof
  fix q'
  show "working_reads (upd_chan chan_reset (Inputs i) p) q' = paid (working_reads p) q None q'"
    using assms sum_close_one[of i "length (inputs p)" "\<lambda>j. chan_queue p (Inputs j)" q q']
    by (auto simp: working_reads_def)
qed

lemma check_abort_owes:
  assumes "shape p" "owes (k p) (working_reads p) (working_writes p)"
    "chan_bool (abort_port p) \<Longrightarrow>
       proc_inv (p\<lparr>pc := w\<rparr>) \<and> to_read (p\<lparr>pc := w\<rparr>) = working_reads p \<and>
       to_write (p\<lparr>pc := w\<rparr>) = working_writes p"
  shows "owes (check_abort w k p) (working_reads p) (working_writes p)"
  using assms by (auto simp: check_abort_def owes_def)

lemma pop_checked_owes:
  assumes "shape p" "pop_ready p r" "k = pop_count (node_class p)" "sr = (v \<noteq> None)"
  shows "owes (pop_checked now r k v sr p) (working_reads p) (working_writes p)"
  using assms by (auto simp: pop_checked_def intro: pop_return_Some_owes await_pop_owes)

lemma pop_loop_owes:
  assumes "shape p" "pop_ready p r" "k = pop_count (node_class p)" "sr = (v \<noteq> None)"
  shows "owes (check_abort (PopAbortWait r k v sr) (pop_checked now r k v sr) p)
    (working_reads p) (working_writes p)"
  using assms
  by (intro check_abort_owes pop_checked_owes)
    (auto simp: proc_inv_def to_read_def to_write_def)


text \<open>The event collector is not part of the port state.\<close>

abbreviation read_event :: "nat \<Rightarrow> chan_ref \<Rightarrow> 'v option \<Rightarrow> ('v, 's) processor \<Rightarrow> ('v, 's) processor" where
  "read_event now r v p \<equiv>
     p\<lparr>event_collector := InputPortRead now (GetIndex (get_chan p r))
         (transferred_bytes (traits p) v) (v = None) (event_collector p)\<rparr>"

lemma pop_ready_open:
  assumes "shape p" "pop_ready p r"
  shows "is_open p r"
  using assms by (cases r) (auto simp: pop_ready_def shape_def split: kind.splits)

lemma pop_ready_refs:
  assumes "shape p" "pop_ready p r"
  obtains i where "r = Inputs i" "i < length (inputs p)" "pop_count (node_class p) = LocalCount 1"
      "\<not> is_open p InPort"
    | "r = InPort" "pop_count (node_class p) = InputCount" "InPort \<in> set (in_refs (pkind p))"
proof (cases "\<exists>n. pkind p = KMulti n")
  case True
  then show ?thesis using assms that(1) by (auto simp: pop_ready_def shape_def pop_count_kind)
next
  case False
  then have "r = InPort" "pop_count (node_class p) = InputCount"
    using assms by (cases "pkind p"; auto simp: pop_ready_def shape_def pop_count_kind)+
  then show ?thesis using assms that(2) by (auto simp: pop_ready_def)
qed

lemma pop_got_data:
  assumes "shape p" "pop_ready p r" "k = pop_count (node_class p)"
  shows "owes (pop_got now r k (Some x) p) (working_reads p) (working_writes p)"
proof -
  have sp: "same_ports p (read_event now r (Some x) p)" by simp
  have "owes (check_abort (PopAbortWait r k (Some x) True) (pop_checked now r k (Some x) True)
      (read_event now r (Some x) p)) (working_reads (read_event now r (Some x) p))
      (working_writes (read_event now r (Some x) p))"
    using assms by (intro pop_loop_owes) (simp_all only: same_ports_checks[OF sp], simp_all)
  then show ?thesis by (simp add: pop_got_def Let_def)
qed

lemma pop_got_eof_multi:
  assumes "shape p" "pop_ready p (Inputs i)" "i < length (inputs p)" "chan_queue p (Inputs i) = Some q"
    "\<not> is_open p InPort"
  shows "owes (pop_got now (Inputs i) (LocalCount 1) None p) (paid (working_reads p) q None) (working_writes p)"
proof -
  let ?p = "read_event now (Inputs i) None p"
  have sp: "same_ports p ?p" by simp
  have "owes (pop_return now (Inputs i) None (upd_chan chan_reset (Inputs i) ?p))
      (working_reads (upd_chan chan_reset (Inputs i) ?p)) (working_writes ?p)"
    using assms by (intro pop_return_None_owes shape_reset) (simp_all only: same_ports_checks[OF sp])
  moreover have "working_reads (upd_chan chan_reset (Inputs i) ?p) = paid (working_reads ?p) q None"
    using assms by (intro working_reads_reset_Inputs) simp_all
  ultimately show ?thesis by (simp add: pop_got_def Let_def)
qed

lemma pop_got_eof_last:
  assumes "shape p" "pop_ready p InPort" "chan_queue p InPort = Some q" "input_count p = 1"
  shows "owes (pop_got now InPort InputCount None p) (paid (working_reads p) q None) (working_writes p)"
proof -
  let ?p = "(read_event now InPort None p)\<lparr>input_count := 0\<rparr>"
  let ?p' = "upd_chan chan_reset InPort ?p"
  have in_ref: "InPort \<in> set (in_refs (pkind p))" using assms(2) by (simp add: pop_ready_def)
  have shp: "shape ?p'" using assms(1) by (auto simp: shape_def)
  have rdy: "pop_ready ?p InPort" using assms(2) by (simp add: pop_ready_def outs_open_def)
  have "working_reads ?p' = (\<lambda>q. 0)"
    using shp in_ref by (intro closed_reads) (cases "pkind p"; auto)+
  moreover have "paid (working_reads p) q None = (\<lambda>q. 0)"
    using working_reads_InPort[OF assms(1) in_ref assms(3)] assms(4) by auto
  moreover have "working_writes ?p = working_writes p"
    by (simp add: working_writes_def fun_eq_iff)
  ultimately have "owes (pop_return now InPort None ?p') (paid (working_reads p) q None) (working_writes p)"
    using pop_return_None_owes[OF shp rdy, of now] by simp
  then show ?thesis using assms(4) by (simp add: pop_got_def Let_def)
qed

lemma pop_got_eof_more:
  assumes "shape p" "pop_ready p InPort" "chan_queue p InPort = Some q" "1 < input_count p"
    "pop_count (node_class p) = InputCount"
  shows "owes (pop_got now InPort InputCount None p) (paid (working_reads p) q None) (working_writes p)"
proof -
  let ?p = "(read_event now InPort None p)\<lparr>input_count := input_count p - 1\<rparr>"
  have in_ref: "InPort \<in> set (in_refs (pkind p))" using assms(2) by (simp add: pop_ready_def)
  have shp: "shape ?p" using assms(1,4) by (auto simp: shape_def)
  have rdy: "pop_ready ?p InPort" using assms(2) by (simp add: pop_ready_def outs_open_def)
  have "working_reads ?p = paid (working_reads p) q None"
    using working_reads_InPort[OF assms(1) in_ref assms(3)] working_reads_InPort[OF shp, of q] in_ref assms(3)
    by auto
  moreover have "working_writes ?p = working_writes p"
    by (simp add: working_writes_def fun_eq_iff)
  moreover have "owes (check_abort (PopAbortWait InPort InputCount None False)
      (pop_checked now InPort InputCount None False) ?p) (working_reads ?p) (working_writes ?p)"
    using shp rdy assms(5) by (intro pop_loop_owes) auto
  ultimately show ?thesis using assms(4) by (simp add: pop_got_def Let_def)
qed

lemma pop_got_owes:
  assumes "shape p" "pop_ready p r" "k = pop_count (node_class p)" "chan_queue p r = Some q"
  shows "owes (pop_got now r k v p) (paid (working_reads p) q v) (working_writes p)"
proof (cases v)
  case (Some x)
  then show ?thesis using pop_got_data[OF assms(1-3)] by simp
next
  case None
  from assms(1,2) show ?thesis
  proof (cases rule: pop_ready_refs)
    case (1 i)
    then show ?thesis using assms pop_got_eof_multi[of p i q now] None by simp
  next
    case 2
    then have "0 < input_count p" using assms by (auto simp: shape_def)
    then consider "input_count p = 1" | "1 < input_count p" by linarith
    then show ?thesis
      using assms 2 None pop_got_eof_last[of p q now] pop_got_eof_more[of p q now] by cases auto
  qed
qed

section \<open>Push hands over one element\<close>

lemma push_done_owes:
  assumes "shape p" "cmds_ok p (CPush v r # cs)" "chan_queue p r = Some q"
  shows "owes (push_done now v r cs p) (working_reads p) (paid (working_writes p) q v)"
proof -
  let ?p1 = "p\<lparr>event_collector := OutputPortWrite now (GetIndex (get_chan p r))
      (transferred_bytes (traits p) v) (v = None) (event_collector p)\<rparr>"
  let ?p2 = "if v = None then upd_chan chan_reset r ?p1 else ?p1"
  have r: "r \<in> set (out_refs (pkind p))" using assms(2) by simp
  have sp: "same_ports (if v = None then upd_chan chan_reset r p else p) ?p2"
    by (simp add: same_ports_reset)
  have shp: "shape ?p2" using assms(1) by (simp add: shape_reset)
  have cmds: "cmds_ok ?p2 cs"
    using assms(2) same_ports_cmds_ok[OF sp, of cs] by simp
  have reads: "working_reads ?p2 = working_reads p"
    using same_ports_owed(1)[OF sp] working_reads_reset_out[OF r] by (simp split: if_splits)
  have writes: "working_writes ?p2 = paid (working_writes p) q v"
  proof
    fix q'
    show "working_writes ?p2 q' = paid (working_writes p) q v q'"
      using same_ports_owed(2)[OF sp] working_writes_reset[OF r assms(1,3), of q'] by auto
  qed
  have "owes (check_abort (PushAbortWait cs) (exec_cmds now cs) ?p2) (working_reads ?p2) (working_writes ?p2)"
  proof (rule check_abort_owes)
    show "shape ?p2" by (rule shp)
    show "owes (exec_cmds now cs ?p2) (working_reads ?p2) (working_writes ?p2)"
      using shp cmds by (rule exec_cmds_owes)
    show "proc_inv (?p2\<lparr>pc := PushAbortWait cs\<rparr>) \<and>
        to_read (?p2\<lparr>pc := PushAbortWait cs\<rparr>) = working_reads ?p2 \<and>
        to_write (?p2\<lparr>pc := PushAbortWait cs\<rparr>) = working_writes ?p2"
      if "chan_bool (abort_port ?p2)"
      using that shp cmds by (simp add: proc_inv_def to_read_def to_write_def)
  qed
  then show ?thesis by (simp only: push_done_def Let_def reads writes)
qed


section \<open>Hosted mode pays what is owed\<close>

lemma hosted_frame [simp]:
  "hosted_reads (p\<lparr>pc := x\<rparr>) hs q = hosted_reads p hs q"
  "hosted_writes (p\<lparr>pc := x\<rparr>) hs q = hosted_writes p hs q"
  "hosted_reads (p\<lparr>event_collector := ec\<rparr>) hs q = hosted_reads p hs q"
  "hosted_writes (p\<lparr>event_collector := ec\<rparr>) hs q = hosted_writes p hs q"
  by (rule same_ports_hosted, simp)+

lemma read_count_frame [simp]: "read_count (p\<lparr>pc := x\<rparr>) k = read_count p k"
  by (cases k) simp_all

lemma GetChannel_hosted:
  assumes "hosted_ok p (h # hs)"
  shows "case h of CloseInput r k \<Rightarrow> \<exists>p'. GetChannel r p = Inr p' | CloseOutput r \<Rightarrow> \<exists>p'. GetChannel r p = Inr p'"
  using assms by (auto simp: hosted_ok_def split: hosted_cmd.splits)

lemma exec_hosted_owes:
  assumes "hosted_ok p hs"
  shows "owes (exec_hosted hs e p) (hosted_reads p hs) (hosted_writes p hs)"
  using assms
proof (induction hs arbitrary: p)
  case Nil
  then show ?case
    by (auto simp: owes_def bad_def proc_inv_def to_read_def to_write_def fun_eq_iff)
next
  case (Cons h hs)
  have hs: "hosted_ok p hs" using Cons.prems by (simp add: hosted_ok_def)
  show ?case
  proof (cases h)
    case (CloseInput r k)
    then obtain p' where p': "GetChannel r p = Inr p'" using GetChannel_hosted[OF Cons.prems] by auto
    then have sp: "same_ports p p'" by (rule same_ports_GetChannel)
    then have q: "chan_queue p' r = chan_queue p r" "pkind p' = pkind p" by (auto simp: same_ports_def)
    have "owes (exec_hosted hs e p') (hosted_reads p' hs) (hosted_writes p' hs)"
      using hs by (intro Cons.IH) (simp add: same_ports_checks[OF sp])
    moreover have "0 < read_count p k" "r \<in> set (in_refs (pkind p))"
      using Cons.prems CloseInput by (auto simp: hosted_ok_def)
    ultimately show ?thesis
      using CloseInput p' hs q
      by (auto simp: owes_def proc_inv_def to_read_def to_write_def fun_eq_iff chan_bool_def
          same_ports_hosted[OF sp] same_ports_owed[OF sp] same_ports_checks[OF sp])
  next
    case (CloseOutput r)
    then obtain p' where p': "GetChannel r p = Inr p'" using GetChannel_hosted[OF Cons.prems] by auto
    then have sp: "same_ports p p'" by (rule same_ports_GetChannel)
    then have q: "chan_queue p' r = chan_queue p r" "pkind p' = pkind p" by (auto simp: same_ports_def)
    have "owes (exec_hosted hs e p') (hosted_reads p' hs) (hosted_writes p' hs)"
      using hs by (intro Cons.IH) (simp add: same_ports_checks[OF sp])
    moreover have "r \<in> set (out_refs (pkind p))"
      using Cons.prems CloseOutput by (auto simp: hosted_ok_def)
    ultimately show ?thesis
      using CloseOutput p' hs q
      by (auto simp: owes_def proc_inv_def to_read_def to_write_def fun_eq_iff chan_bool_def
          same_ports_hosted[OF sp] same_ports_checks[OF sp])
  qed
qed

lemma hosted_sums:
  "hosted_reads p (map CloseOutput rs) q = 0"
  "hosted_writes p (map CloseOutput rs) q = (\<Sum>r\<leftarrow>rs. if chan_queue p r = Some q then 1 else 0)"
  "hosted_reads p (map (\<lambda>r. CloseInput r (k r)) rs @ hs) q =
     (\<Sum>r\<leftarrow>rs. if chan_queue p r = Some q then read_count p (k r) else 0) + hosted_reads p hs q"
  "hosted_writes p (map (\<lambda>r. CloseInput r (k r)) rs @ hs) q = hosted_writes p hs q"
  by (induction rs) simp_all

lemma sum_upt: "(\<Sum>i\<leftarrow>[0..<n]. f i) = (\<Sum>i<n. f i)" for f :: "nat \<Rightarrow> nat"
  by (simp add: interv_sum_list_conv_sum_set_nat atLeast0LessThan)

lemma hosted_of_sums:
  "hosted_reads p (hosted_of k) q =
     (\<Sum>r\<leftarrow>in_refs k. if chan_queue p r = Some q
        then read_count p (if r = InPort then InputCount else LocalCount 1) else 0)"
  "hosted_writes p (hosted_of k) q =
     (\<Sum>r\<leftarrow>out_refs k. if chan_queue p r = Some q then 1 else 0)"
  by (simp_all only: hosted_of_def hosted_sums add_0_right)

lemma hosted_of_reads:
  assumes "shape p"
  shows "hosted_reads p (hosted_of (pkind p)) = working_reads p"
proof
  fix q
  show "hosted_reads p (hosted_of (pkind p)) q = working_reads p q"
    using assms unfolding hosted_of_sums working_reads_def
    by (cases "pkind p") (simp_all add: shape_def comp_def sum_upt image_iff cong: if_cong)
qed

lemma hosted_of_writes:
  assumes "shape p"
  shows "hosted_writes p (hosted_of (pkind p)) = working_writes p"
proof
  fix q
  show "hosted_writes p (hosted_of (pkind p)) q = working_writes p q"
    using assms unfolding hosted_of_sums working_writes_def
    by (cases "pkind p") (simp_all add: shape_def comp_def sum_upt image_iff cong: if_cong)
qed


lemma hosted_ok_outs: "shape p \<Longrightarrow> hosted_ok p (map CloseOutput (out_refs (pkind p)))"
  by (cases "pkind p") (auto simp: hosted_ok_def shape_def)

lemma hosted_ok_all:
  "shape p \<Longrightarrow> InPort \<notin> set (in_refs (pkind p)) \<Longrightarrow> hosted_ok p (hosted_of (pkind p))"
  by (cases "pkind p") (auto simp: hosted_ok_def hosted_of_def shape_def)

lemma in_refs_InPort: "InPort \<in> set (in_refs k) \<Longrightarrow> in_refs k = [InPort]"
  by (cases k) auto

lemma exec_hosted_all_owes:
  assumes "shape p"
  shows "owes (exec_hosted (hosted_of (pkind p)) e p) (working_reads p) (working_writes p)"
proof (cases "InPort \<in> set (in_refs (pkind p))")
  case True
  let ?outs = "map CloseOutput (out_refs (pkind p))"
  have h: "hosted_of (pkind p) = CloseInput InPort InputCount # ?outs"
    using in_refs_InPort[OF True] by (simp add: hosted_of_def)
  note owed = hosted_of_reads[OF assms] hosted_of_writes[OF assms]
  have outs: "hosted_ok p ?outs" using assms by (rule hosted_ok_outs)
  show ?thesis
  proof (cases "is_open p InPort")
    case True
    moreover have "working_reads p = hosted_reads p (CloseInput InPort InputCount # ?outs)"
      "working_writes p = hosted_writes p ?outs" using owed h by (auto simp: fun_eq_iff)
    ultimately show ?thesis
      using assms \<open>InPort \<in> _\<close> outs
      by (simp only: h) (auto simp: owes_def proc_inv_def to_read_def to_write_def chan_bool_def shape_def fun_eq_iff)
  next
    case False
    then have "hosted_reads p ?outs = working_reads p" "hosted_writes p ?outs = working_writes p"
      using owed h by (auto simp: fun_eq_iff)
    then show ?thesis using exec_hosted_owes[OF outs, of e] False h by (simp add: chan_bool_def)
  qed
next
  case False
  then show ?thesis
    using exec_hosted_owes[OF hosted_ok_all[OF assms False], of e] hosted_of_reads[OF assms]
      hosted_of_writes[OF assms] by simp
qed

lemma enter_hosted_owes:
  assumes "shape p"
  shows "owes (enter_hosted now e p) (working_reads p) (working_writes p)"
  using exec_hosted_all_owes[of "p\<lparr>event_collector := EnterHostedMode now (event_collector p)\<rparr>" e] assms
  by (simp add: enter_hosted_def hosted_mode_kind)

text \<open>\<^verbatim>\<open>close_input\<close> counts down its counter, which the later closes do not look at.\<close>

lemma dec_count_hosted:
  assumes "hosted_ok p hs" "dec_count k p = (k', p1)"
  shows "hosted_ok p1 hs" "hosted_reads p1 hs q = hosted_reads p hs q"
    "hosted_writes p1 hs q = hosted_writes p hs q" "chan_queue p1 r = chan_queue p r"
    "pkind p1 = pkind p" "abort_port p1 = abort_port p" "read_count p1 k' = read_count p k - 1"
proof -
  have "hosted_reads (p\<lparr>input_count := n\<rparr>) hs q = hosted_reads p hs q \<and>
      hosted_writes (p\<lparr>input_count := n\<rparr>) hs q = hosted_writes p hs q" for n
    using assms(1)
  proof (induction hs)
    case (Cons h hs)
    then show ?case by (cases h) (auto simp: hosted_ok_def)
  qed simp
  moreover have "hosted_ok (p\<lparr>input_count := n\<rparr>) hs" for n
    using assms(1) by (simp add: hosted_ok_def cong: hosted_cmd.case_cong)
  ultimately show "hosted_ok p1 hs" "hosted_reads p1 hs q = hosted_reads p hs q"
    "hosted_writes p1 hs q = hosted_writes p hs q" "chan_queue p1 r = chan_queue p r"
    "pkind p1 = pkind p" "abort_port p1 = abort_port p" "read_count p1 k' = read_count p k - 1"
    using assms by (cases k; auto)+
qed

lemma close_input_got_owes:
  assumes "pc p = CloseInputWait r k hs e" "proc_inv p" "chan_queue p r = Some q"
  shows "owes (close_input_got r k hs e v p) (paid (to_read p) q v) (to_write p)"
proof (cases "v = None")
  case True
  have inv: "0 < read_count p k" "hosted_ok p hs" "r \<in> set (in_refs (pkind p))"
    using assms by (auto simp: proc_inv_def)
  obtain k' p1 where d: "dec_count k p = (k', p1)" by force
  note D = dec_count_hosted[OF inv(2) d]
  have reads: "paid (to_read p) q v = (\<lambda>q'. (if q' = q then read_count p k - 1 else 0) + hosted_reads p hs q')"
    using assms inv True by (auto simp: to_read_def fun_eq_iff)
  have writes: "to_write p = hosted_writes p hs" using assms by (simp add: to_write_def)
  show ?thesis
  proof (cases "read_count p k = 1")
    case one: True
    then have "close_input_got r k hs e v p = exec_hosted hs e p1"
      using True d D by (simp add: close_input_got_def)
    moreover have "hosted_reads p1 hs = paid (to_read p) q v" "hosted_writes p1 hs = to_write p"
      using one unfolding reads writes by (simp_all add: D(2,3) fun_eq_iff)
    ultimately show ?thesis using exec_hosted_owes[OF D(1), of e] by simp
  next
    case False
    then have "close_input_got r k hs e v p = p1\<lparr>pc := CloseInputWait r k' hs e\<rparr>"
      using True d D inv by (simp add: close_input_got_def)
    moreover have "to_read (p1\<lparr>pc := CloseInputWait r k' hs e\<rparr>) = paid (to_read p) q v"
      "to_write (p1\<lparr>pc := CloseInputWait r k' hs e\<rparr>) = to_write p"
      using assms(3) unfolding reads writes by (auto simp: to_read_def to_write_def D fun_eq_iff)
    moreover have "proc_inv (p1\<lparr>pc := CloseInputWait r k' hs e\<rparr>)"
      using False inv D assms(3) by (simp add: proc_inv_def)
    ultimately show ?thesis by (simp add: owes_def)
  qed
qed (use assms in \<open>auto simp: close_input_got_def owes_def\<close>)

section \<open>The pending operation\<close>

lemma on_queue_eqs:
  "on_queue c ReqPop = ReqPop q \<longleftrightarrow> ch_queue c = Some q"
  "on_queue c (\<lambda>q. ReqPush q v) = ReqPush q v' \<longleftrightarrow> ch_queue c = Some q \<and> v' = v"
  "on_queue c ReqAbortPop = ReqAbortPop q \<longleftrightarrow> ch_queue c = Some q"
  "on_queue c ReqAbortPush = ReqAbortPush q \<longleftrightarrow> ch_queue c = Some q"
  "on_queue c ReqPop = ReqNone \<longleftrightarrow> ch_queue c = None"
  "on_queue c (\<lambda>q. ReqPush q v) = ReqNone \<longleftrightarrow> ch_queue c = None"
  "on_queue c ReqAbortPop = ReqNone \<longleftrightarrow> ch_queue c = None"
  "on_queue c ReqAbortPush = ReqNone \<longleftrightarrow> ch_queue c = None"
  by (auto simp: on_queue_def split: option.splits)

lemma on_queue_neqs:
  "on_queue c ReqPop \<noteq> ReqStart" "on_queue c ReqPop \<noteq> ReqPush q v"
  "on_queue c ReqPop \<noteq> ReqAbortPop q" "on_queue c ReqPop \<noteq> ReqAbortPush q"
  "on_queue c (\<lambda>q. ReqPush q v) \<noteq> ReqStart" "on_queue c (\<lambda>q. ReqPush q v) \<noteq> ReqPop q"
  "on_queue c (\<lambda>q. ReqPush q v) \<noteq> ReqAbortPop q" "on_queue c (\<lambda>q. ReqPush q v) \<noteq> ReqAbortPush q"
  "on_queue c ReqAbortPop \<noteq> ReqStart" "on_queue c ReqAbortPop \<noteq> ReqPush q v"
  "on_queue c ReqAbortPop \<noteq> ReqPop q" "on_queue c ReqAbortPop \<noteq> ReqAbortPush q"
  "on_queue c ReqAbortPush \<noteq> ReqStart" "on_queue c ReqAbortPush \<noteq> ReqPush q v"
  "on_queue c ReqAbortPush \<noteq> ReqPop q" "on_queue c ReqAbortPush \<noteq> ReqAbortPop q"
  by (auto simp: on_queue_def split: option.splits)

lemmas on_queue_simps = on_queue_eqs on_queue_neqs

lemma pending_Start: "pending p = ReqStart \<longleftrightarrow> pc p = Created"
  by (cases "pc p") (auto simp: on_queue_simps)

lemma pending_Pop:
  "pending p = ReqPop q \<longleftrightarrow>
     (\<exists>r k. pc p = PopWait r k \<and> chan_queue p r = Some q) \<or>
     (\<exists>r k hs e. pc p = CloseInputWait r k hs e \<and> chan_queue p r = Some q)"
  by (cases "pc p") (auto simp: on_queue_simps)

lemma pending_Push:
  "pending p = ReqPush q v \<longleftrightarrow>
     (\<exists>r cs. pc p = PushWait v r cs \<and> chan_queue p r = Some q) \<or>
     (\<exists>r hs e. pc p = CloseOutputWait r hs e \<and> chan_queue p r = Some q \<and> v = None) \<or>
     (pc p = AfterWorkWait \<and> chan_queue p OutPort = Some q \<and> v = None)"
  by (cases "pc p") (auto simp: on_queue_simps get_chan.simps)

lemma pending_AbortPop:
  assumes "pending p = ReqAbortPop a"
  obtains r k v sr where "pc p = PopAbortWait r k v sr" | cs where "pc p = PushAbortWait cs"
  using assms by (cases "pc p") (auto simp: on_queue_simps)

lemma pending_AbortPush:
  assumes "pending p = ReqAbortPush a"
  obtains e where "pc p = NotifyWait e"
  using assms by (cases "pc p") (auto simp: on_queue_simps)

lemma pending_None:
  assumes "pending p = ReqNone" "proc_inv p"
  obtains e where "pc p = Finished e"
proof (cases "pc p")
  case (PopWait r k)
  then have "is_open p r" using assms(2) pop_ready_open by (auto simp: proc_inv_def)
  then show ?thesis using assms PopWait by (simp add: on_queue_simps)
qed (use assms that in \<open>auto simp: on_queue_simps proc_inv_def chan_bool_def get_chan.simps\<close>)

declare pending.simps [simp del]

section \<open>Every answer keeps the books\<close>

lemma start_owes:
  assumes "proc_inv p" "pc p = Created"
  shows "owes (resume now AnsGo p) (to_read p) (to_write p)"
proof -
  have p: "shape p" "ins_open p" "outs_open p" using assms by (auto simp: proc_inv_def)
  obtain cs where cs: "work (node_class p) = Inr cs" using work_not_base[OF p(1)] by auto
  let ?p = "p\<lparr>event_collector := WorkStart now (event_collector p)\<rparr>"
  have "owes (exec_cmds now cs ?p) (working_reads ?p) (working_writes ?p)"
    using p work_ok[OF p cs] by (intro exec_cmds_owes) simp_all
  then show ?thesis
    using assms cs before_work_ok[OF p] by (simp add: start_work_def Let_def to_read_def to_write_def)
qed

lemma pop_owes:
  assumes "proc_inv p" "pending p = ReqPop q"
  shows "owes (resume now (AnsPop v) p) (paid (to_read p) q v) (to_write p)"
  using assms(2) unfolding pending_Pop
proof (elim disjE exE conjE)
  fix r k assume "pc p = PopWait r k" "chan_queue p r = Some q"
  then show ?thesis using assms(1) pop_got_owes[of p r k q now v]
    by (simp add: proc_inv_def to_read_def to_write_def)
next
  fix r k hs e assume "pc p = CloseInputWait r k hs e" "chan_queue p r = Some q"
  then show ?thesis using assms(1) close_input_got_owes[of p r k hs e q v] by simp
qed

lemma push_owes:
  assumes "proc_inv p" "pending p = ReqPush q v"
  shows "owes (resume now AnsGo p) (to_read p) (paid (to_write p) q v)"
  using assms(2) unfolding pending_Push
proof (elim disjE exE conjE)
  fix r cs assume "pc p = PushWait v r cs" "chan_queue p r = Some q"
  then show ?thesis using assms(1) push_done_owes[of p v r cs q now]
    by (simp add: proc_inv_def to_read_def to_write_def)
next
  fix r hs e assume p: "pc p = CloseOutputWait r hs e" "chan_queue p r = Some q" "v = None"
  then have "paid (to_write p) q v = hosted_writes p hs" "to_read p = hosted_reads p hs"
    by (auto simp: to_write_def to_read_def fun_eq_iff)
  then show ?thesis using assms(1) p exec_hosted_owes[of p hs e] by (simp add: proc_inv_def)
next
  assume "pc p = AfterWorkWait" "chan_queue p OutPort = Some q" "v = None"
  then show ?thesis
    by (auto simp: work_end_ok_def owes_def proc_inv_def to_read_def to_write_def fun_eq_iff)
qed

lemma abort_pop_owes:
  assumes "proc_inv p" "pending p = ReqAbortPop a"
  shows "owes (resume now (AnsTry b) p) (to_read p) (to_write p)"
  using assms(2)
proof (cases rule: pending_AbortPop)
  case (1 r k v sr)
  then show ?thesis using assms(1)
    by (auto intro: work_failed_owes pop_checked_owes simp: proc_inv_def to_read_def to_write_def)
next
  case (2 cs)
  then show ?thesis using assms(1)
    by (auto intro: work_failed_owes exec_cmds_owes simp: proc_inv_def to_read_def to_write_def)
qed

lemma abort_push_owes:
  assumes "proc_inv p" "pending p = ReqAbortPush a"
  shows "owes (resume now (AnsTry b) p) (to_read p) (to_write p)"
  using assms(2)
proof (cases rule: pending_AbortPush)
  case (1 e)
  then show ?thesis using assms(1)
    by (auto intro: enter_hosted_owes simp: proc_inv_def to_read_def to_write_def)
qed

lemma working_reads_pos:
  assumes "shape p" "pop_ready p r" "chan_queue p r = Some q"
  shows "0 < working_reads p q"
  using assms(1,2)
proof (cases rule: pop_ready_refs)
  case (1 i)
  then have "0 < (\<Sum>j<length (inputs p). if chan_queue p (Inputs j) = Some q then 1 else (0::nat))"
    using assms(3) by (intro member_sum_pos[of _ i]) auto
  then show ?thesis by (simp add: working_reads_def)
next
  case 2
  then show ?thesis using assms working_reads_InPort[of p q] by (auto simp: shape_def)
qed

lemma pop_is_owed:
  assumes "proc_inv p" "pending p = ReqPop q"
  shows "0 < to_read p q"
  using assms(2) unfolding pending_Pop
proof (elim disjE exE conjE)
  fix r k assume "pc p = PopWait r k" "chan_queue p r = Some q"
  then show ?thesis using assms(1) working_reads_pos[of p r q] by (auto simp: proc_inv_def to_read_def)
qed (use assms(1) in \<open>auto simp: proc_inv_def to_read_def\<close>)

lemma push_is_owed:
  assumes "proc_inv p" "pending p = ReqPush q v"
  shows "0 < to_write p q"
  using assms(2) unfolding pending_Push
proof (elim disjE exE conjE)
  fix r cs assume "pc p = PushWait v r cs" "chan_queue p r = Some q"
  then show ?thesis using assms(1) working_writes_reset[of r p q q]
    by (auto simp: proc_inv_def to_write_def)
qed (auto simp: to_write_def)

interpretation co: coroutine_contract pending resume proc_inv bad to_read to_write
proof
  fix p :: "('v, 's) processor" and now q v b a
  assume inv: "proc_inv p"
  show "pending p = ReqStart \<Longrightarrow> bad (resume now AnsGo p) \<or> (proc_inv (resume now AnsGo p) \<and>
      to_read (resume now AnsGo p) = to_read p \<and> to_write (resume now AnsGo p) = to_write p)"
    using start_owes[OF inv, of now] unfolding owes_def pending_Start by blast
  show "pending p = ReqPop q \<Longrightarrow> bad (resume now (AnsPop v) p) \<or> (proc_inv (resume now (AnsPop v) p) \<and>
      to_read (resume now (AnsPop v) p) = paid (to_read p) q v \<and> to_write (resume now (AnsPop v) p) = to_write p)"
    using pop_owes[OF inv, of q now v] unfolding owes_def by blast
  show "pending p = ReqPush q v \<Longrightarrow> bad (resume now AnsGo p) \<or> (proc_inv (resume now AnsGo p) \<and>
      to_read (resume now AnsGo p) = to_read p \<and> to_write (resume now AnsGo p) = paid (to_write p) q v)"
    using push_owes[OF inv, of q v now] unfolding owes_def by blast
  show "pending p = ReqAbortPop a \<Longrightarrow> bad (resume now (AnsTry b) p) \<or> (proc_inv (resume now (AnsTry b) p) \<and>
      to_read (resume now (AnsTry b) p) = to_read p \<and> to_write (resume now (AnsTry b) p) = to_write p)"
    using abort_pop_owes[OF inv, of a now b] unfolding owes_def by blast
  show "pending p = ReqAbortPush a \<Longrightarrow> bad (resume now (AnsTry b) p) \<or> (proc_inv (resume now (AnsTry b) p) \<and>
      to_read (resume now (AnsTry b) p) = to_read p \<and> to_write (resume now (AnsTry b) p) = to_write p)"
    using abort_push_owes[OF inv, of a now b] unfolding owes_def by blast
  show "pending p = ReqNone \<Longrightarrow> to_read p q = 0 \<and> to_write p q = 0"
    using inv by (elim pending_None) (simp_all add: to_read_def to_write_def)
qed (auto simp: pop_is_owed push_is_owed bad_def pending.simps)

end
