(* ===== verification/Pipeline.thy ===== *)
theory Pipeline
  imports Coroutine_Inv
begin

text \<open>
  \<^verbatim>\<open>include/tunnel/pipeline.h\<close>: the builder. A pipeline owns its nodes, knows which of
  them are still leaves and records the edges it makes; every operation connects leaves to new nodes
  through queues it allocates. The process-wide state (the id counter and the queues behind
  the shared pointers) is the record \<open>world\<close>. Iteration over an unordered container
  follows an order chosen by the implementation, an explicit list argument \<open>ord\<close>.
\<close>

section \<open>State\<close>

record 'v world =
  next_id :: nat
  wheap :: "'v qheap"
  aheap :: "int qheap"

record ('v, 's) pipeline =
  bind_abort_channel :: bool
  channel_size :: nat
  option_name :: string
  nodes :: "nat \<rightharpoonup> ('v, 's) processor"
  leaves :: "nat set"
  dags :: "nat \<rightharpoonup> nat set"
  sources :: "nat list"
  sinks :: "nat list"
  abort_channel :: chan

text \<open>\<^verbatim>\<open>PipelineOption\<close> with its defaults, and the constructor.\<close>

definition Pipeline :: "bool \<Rightarrow> nat \<Rightarrow> string \<Rightarrow> ('v, 's) pipeline" where
  "Pipeline binds csize nm =
     \<lparr>bind_abort_channel = binds, channel_size = csize, option_name = nm, nodes = Map.empty,
      leaves = {}, dags = Map.empty, sources = [], sinks = [], abort_channel = Channel_null\<rparr>"

definition default_Pipeline :: "('v, 's) pipeline" where
  "default_Pipeline = Pipeline False default_channel_size ''default''"

text \<open>
  How a call ends: with a value, with an exception, or with the process (a failed \<^verbatim>\<open>assert\<close>,
  a null pointer dereferenced).
\<close>

datatype 'a outcome = Returned 'a | Thrown exn | Died

text \<open>\<^verbatim>\<open>std::make_unique<Node>(...)\<close>: construction draws an id.\<close>

definition make_node :: "'v traits \<Rightarrow> ('v, 's) node_class \<Rightarrow> string \<Rightarrow> 'v world \<Rightarrow>
    ('v, 's) processor \<times> 'v world" where
  "make_node tr c nm w =
     (let (pid, next') = GenerateId (next_id w) in (Processor tr c nm pid, w\<lparr>next_id := next'\<rparr>))"

text \<open>\<^verbatim>\<open>std::unordered_map::insert\<close> keeps an entry that exists.\<close>

definition map_insert :: "'k \<Rightarrow> 'a \<Rightarrow> ('k \<rightharpoonup> 'a) \<Rightarrow> ('k \<rightharpoonup> 'a)" where
  "map_insert k v m = (if m k = None then m(k \<mapsto> v) else m)"

definition add_edge :: "nat \<Rightarrow> nat \<Rightarrow> ('v, 's) pipeline \<Rightarrow> ('v, 's) pipeline" where
  "add_edge from to P =
     P\<lparr>dags := (dags P)(from \<mapsto> insert to (case dags P from of None \<Rightarrow> {} | Some S \<Rightarrow> S))\<rparr>"

definition new_node_check :: "nat \<Rightarrow> ('v, 's) pipeline \<Rightarrow> exn option" where
  "new_node_check nid P =
     (if nodes P nid \<noteq> None then Some (StdException ''add duplicate node to pipeline'') else None)"

definition leaf_check :: "nat \<Rightarrow> ('v, 's) pipeline \<Rightarrow> exn option" where
  "leaf_check leaf_id P =
     (if leaf_id \<notin> leaves P then Some (StdException ''invalid leaf node for pipeline'') else None)"

fun leaves_check :: "nat list \<Rightarrow> ('v, 's) pipeline \<Rightarrow> exn option" where
  "leaves_check [] P = None"
| "leaves_check (each # ls) P =
     (case leaf_check each P of Some e \<Rightarrow> Some e | None \<Rightarrow> leaves_check ls P)"

section \<open>Adding nodes\<close>

definition AddSource :: "('v, 's) processor \<Rightarrow> ('v, 's) pipeline \<Rightarrow> nat outcome \<times> ('v, 's) pipeline" where
  "AddSource source P =
     (let nid = GetId source
      in case new_node_check nid P of
           Some e \<Rightarrow> (Thrown e, P)
         | None \<Rightarrow>
             (Returned nid,
              P\<lparr>nodes := map_insert nid source (nodes P), leaves := insert nid (leaves P),
                sources := sources P @ [nid]\<rparr>))"

text \<open>
  Connecting the node stored under \<open>from\<close> to a node not stored yet, and recording the edge:
  the part \<^verbatim>\<open>connect(*nodes_[from], *node, ...); add_edge(from, id)\<close> of every operation.
  \<^const>\<open>None\<close>: \<^verbatim>\<open>nodes_[from]\<close> is null.
\<close>

definition link :: "(('v, 's) processor \<Rightarrow> ('v, 's) processor \<Rightarrow> ('v, 's) processor \<times> ('v, 's) processor) \<Rightarrow>
    nat \<Rightarrow> ('v, 's) processor \<Rightarrow> ('v, 's) pipeline \<Rightarrow> (('v, 's) processor \<times> ('v, 's) pipeline) option" where
  "link conn from node P =
     (case nodes P from of
        None \<Rightarrow> None
      | Some inp \<Rightarrow>
          let (inp', node') = conn inp node
          in Some (node', add_edge from (GetId node) (P\<lparr>nodes := (nodes P)(from \<mapsto> inp')\<rparr>)))"

definition AddTransform :: "nat \<Rightarrow> ('v, 's) processor \<Rightarrow> 'v world \<Rightarrow> ('v, 's) pipeline \<Rightarrow>
    nat outcome \<times> 'v world \<times> ('v, 's) pipeline" where
  "AddTransform leaf_id transform w P =
     (let trans_id = GetId transform
      in case new_node_check trans_id P of
           Some e \<Rightarrow> (Thrown e, w, P)
         | None \<Rightarrow>
             (case leaf_check leaf_id P of
                Some e \<Rightarrow> (Thrown e, w, P)
              | None \<Rightarrow>
                  let (q, h) = make_queue (channel_size P) (wheap w)
                  in case link (connect_queue q) leaf_id transform P of
                       None \<Rightarrow> (Died, w, P)
                     | Some (transform', P1) \<Rightarrow>
                         (Returned trans_id, w\<lparr>wheap := h\<rparr>,
                          P1\<lparr>leaves := insert trans_id (leaves P1 - {leaf_id}),
                             nodes := map_insert trans_id transform' (nodes P1)\<rparr>)))"

text \<open>
  The overload with a \<^verbatim>\<open>creater\<close> appends a transform to every leaf. The k-th call of the
  user's function is \<open>creater k\<close>. An exception in the middle of the loop leaves the nodes
  connected so far, with \<^verbatim>\<open>leaves_\<close> unchanged.
\<close>

fun add_transforms :: "(nat \<Rightarrow> 'v world \<Rightarrow> ('v, 's) processor result \<times> 'v world) \<Rightarrow> nat \<Rightarrow> nat list \<Rightarrow>
    nat set \<Rightarrow> 'v world \<Rightarrow> ('v, 's) pipeline \<Rightarrow> nat set outcome \<times> 'v world \<times> ('v, 's) pipeline" where
  "add_transforms creater k [] new_leaves w P = (Returned new_leaves, w, P)"
| "add_transforms creater k (each # ls) new_leaves w P =
     (case creater k w of
        (Inl e, w1) \<Rightarrow> (Thrown e, w1, P)
      | (Inr transform, w1) \<Rightarrow>
          let new_id = GetId transform
          in case new_node_check new_id P of
               Some e \<Rightarrow> (Thrown e, w1, P)
             | None \<Rightarrow>
                 let (q, h) = make_queue (channel_size P) (wheap w1)
                 in case link (connect_queue q) each transform P of
                      None \<Rightarrow> (Died, w1, P)
                    | Some (transform', P1) \<Rightarrow>
                        add_transforms creater (Suc k) ls (insert new_id new_leaves) (w1\<lparr>wheap := h\<rparr>)
                          (P1\<lparr>nodes := map_insert new_id transform' (nodes P1)\<rparr>))"

definition AddTransform_each :: "(nat \<Rightarrow> 'v world \<Rightarrow> ('v, 's) processor result \<times> 'v world) \<Rightarrow> nat list \<Rightarrow>
    'v world \<Rightarrow> ('v, 's) pipeline \<Rightarrow> nat set outcome \<times> 'v world \<times> ('v, 's) pipeline" where
  "AddTransform_each creater ord w P =
     (case add_transforms creater 0 ord {} w P of
        (Returned new_leaves, w', P') \<Rightarrow> (Returned new_leaves, w', P'\<lparr>leaves := new_leaves\<rparr>)
      | r \<Rightarrow> r)"

section \<open>Merging leaves into one node\<close>

text \<open>All the leaves write one shared queue, the new node expects one EOF from each.\<close>

fun link_all :: "nat \<Rightarrow> nat list \<Rightarrow> ('v, 's) processor \<Rightarrow> ('v, 's) pipeline \<Rightarrow>
    (('v, 's) processor \<times> ('v, 's) pipeline) option" where
  "link_all q [] node P = Some (node, P)"
| "link_all q (each # ls) node P =
     (case link (connect_queue q) each node P of
        None \<Rightarrow> None
      | Some (node', P') \<Rightarrow> link_all q ls node' P')"

text \<open>\<^verbatim>\<open>merge_to<insert_to_leaves>\<close>, given the iteration order of the argument set.\<close>

definition merge_to :: "bool \<Rightarrow> ('v, 's) processor \<Rightarrow> nat list \<Rightarrow> 'v world \<Rightarrow> ('v, 's) pipeline \<Rightarrow>
    nat outcome \<times> 'v world \<times> ('v, 's) pipeline" where
  "merge_to insert_to_leaves node ord w P =
     (let nid = GetId node
      in case new_node_check nid P of
           Some e \<Rightarrow> (Thrown e, w, P)
         | None \<Rightarrow>
             (case leaves_check ord P of
                Some e \<Rightarrow> (Thrown e, w, P)
              | None \<Rightarrow>
                  let (q, h) = make_queue (channel_size P) (wheap w)
                  in case link_all q ord node P of
                       None \<Rightarrow> (Died, w, P)
                     | Some (node', P1) \<Rightarrow>
                         (Returned nid, w\<lparr>wheap := h\<rparr>,
                          P1\<lparr>nodes := map_insert nid node' (nodes P1),
                             leaves := (leaves P1 - set ord) \<union> (if insert_to_leaves then {nid} else {})\<rparr>)))"

text \<open>\<^verbatim>\<open>merge<insert_to_leaves>\<close>, given the iteration order of \<^verbatim>\<open>leaves_\<close>.\<close>

definition merge :: "bool \<Rightarrow> ('v, 's) processor \<Rightarrow> nat list \<Rightarrow> 'v world \<Rightarrow> ('v, 's) pipeline \<Rightarrow>
    nat outcome \<times> 'v world \<times> ('v, 's) pipeline" where
  "merge insert_to_leaves node ord w P =
     (if leaves P = {} then (Thrown (StdException ''can not merge for empty_leaves pipeline''), w, P)
      else
        let nid = GetId node
        in case new_node_check nid P of
             Some e \<Rightarrow> (Thrown e, w, P)
           | None \<Rightarrow>
               let (q, h) = make_queue (channel_size P) (wheap w)
               in case link_all q ord node P of
                    None \<Rightarrow> (Died, w, P)
                  | Some (node', P1) \<Rightarrow>
                      (Returned nid, w\<lparr>wheap := h\<rparr>,
                       P1\<lparr>nodes := map_insert nid node' (nodes P1),
                          leaves := (if insert_to_leaves then {nid} else {})\<rparr>))"

definition register_sink :: "nat outcome \<times> 'v world \<times> ('v, 's) pipeline \<Rightarrow>
    nat outcome \<times> 'v world \<times> ('v, 's) pipeline" where
  "register_sink r =
     (case r of
        (Returned nid, w, P) \<Rightarrow> (Returned nid, w, P\<lparr>sinks := sinks P @ [nid]\<rparr>)
      | _ \<Rightarrow> r)"

definition SetSink :: "('v, 's) processor \<Rightarrow> nat list \<Rightarrow> 'v world \<Rightarrow> ('v, 's) pipeline \<Rightarrow>
    nat outcome \<times> 'v world \<times> ('v, 's) pipeline" where
  "SetSink sink ord w P = register_sink (merge False sink ord w P)"

definition SetSink_to :: "('v, 's) processor \<Rightarrow> nat list \<Rightarrow> 'v world \<Rightarrow> ('v, 's) pipeline \<Rightarrow>
    nat outcome \<times> 'v world \<times> ('v, 's) pipeline" where
  "SetSink_to sink ord w P = register_sink (merge_to False sink ord w P)"

text \<open>The four overloads of \<^verbatim>\<open>Merge\<close>.\<close>

definition Merge_to :: "('v, 's) processor \<Rightarrow> nat list \<Rightarrow> 'v world \<Rightarrow> ('v, 's) pipeline \<Rightarrow>
    nat outcome \<times> 'v world \<times> ('v, 's) pipeline" where
  "Merge_to transform ord w P = merge_to True transform ord w P"

definition Merge_noop_to :: "'v traits \<Rightarrow> nat list \<Rightarrow> 'v world \<Rightarrow> ('v, 's) pipeline \<Rightarrow>
    nat outcome \<times> 'v world \<times> ('v, 's) pipeline" where
  "Merge_noop_to tr ord w P =
     (let (no_op, w1) = make_node tr NoOpTransformC ''no_op'' w in merge_to True no_op ord w1 P)"

definition Merge :: "('v, 's) processor \<Rightarrow> nat list \<Rightarrow> 'v world \<Rightarrow> ('v, 's) pipeline \<Rightarrow>
    nat outcome \<times> 'v world \<times> ('v, 's) pipeline" where
  "Merge transform ord w P = merge True transform ord w P"

definition Merge_noop :: "'v traits \<Rightarrow> nat list \<Rightarrow> 'v world \<Rightarrow> ('v, 's) pipeline \<Rightarrow>
    nat outcome \<times> 'v world \<times> ('v, 's) pipeline" where
  "Merge_noop tr ord w P =
     (let (no_op, w1) = make_node tr NoOpTransformC ''no_op'' w in merge True no_op ord w1 P)"


section \<open>Splitting a leaf\<close>

text \<open>
  The loop of \<^verbatim>\<open>DispatchFrom\<close> and \<^verbatim>\<open>ForkFrom\<close>: give the splitting node \<open>n\<close> outputs, each
  leading to a new no-op transform, and collect their ids.
\<close>

fun fan_out :: "'v traits \<Rightarrow> nat \<Rightarrow> ('v, 's) processor \<Rightarrow> nat set \<Rightarrow> 'v world \<Rightarrow> ('v, 's) pipeline \<Rightarrow>
    ('v, 's) processor \<times> nat set \<times> 'v world \<times> ('v, 's) pipeline" where
  "fan_out tr 0 node res w P = (node, res, w, P)"
| "fan_out tr (Suc n) node res w P =
     (let (no_op, w1) = make_node tr NoOpTransformC ''no_op'' w;
          ((node', no_op'), h) = connect_multi_out (channel_size P) (wheap w1) node no_op;
          noop_id = GetId no_op;
          P1 = add_edge (GetId node) noop_id P;
          P2 = P1\<lparr>nodes := map_insert noop_id no_op' (nodes P1)\<rparr>
      in fan_out tr n node' (insert noop_id res) (w1\<lparr>wheap := h\<rparr>) P2)"

text \<open>After the loop: connect the leaf to the splitting node and replace it by the no-ops.\<close>

definition attach_split :: "nat \<Rightarrow> ('v, 's) processor \<Rightarrow> nat set \<Rightarrow> 'v world \<Rightarrow> ('v, 's) pipeline \<Rightarrow>
    nat set outcome \<times> 'v world \<times> ('v, 's) pipeline" where
  "attach_split leaf node res w P =
     (let (q, h) = make_queue (channel_size P) (wheap w)
      in case link (connect_queue q) leaf node P of
           None \<Rightarrow> (Died, w, P)
         | Some (node', P1) \<Rightarrow>
             (Returned res, w\<lparr>wheap := h\<rparr>,
              P1\<lparr>leaves := (leaves P1 - {leaf}) \<union> res,
                 nodes := map_insert (GetId node) node' (nodes P1)\<rparr>))"

definition DispatchFrom :: "'v traits \<Rightarrow> nat \<Rightarrow> ('v, 's) processor \<Rightarrow> 'v world \<Rightarrow> ('v, 's) pipeline \<Rightarrow>
    nat set outcome \<times> 'v world \<times> ('v, 's) pipeline" where
  "DispatchFrom tr leaf node w P =
     (case leaf_check leaf P of
        Some e \<Rightarrow> (Thrown e, w, P)
      | None \<Rightarrow>
          let (node', res, w1, P1) = fan_out tr (class_size (node_class node)) node {} w P
          in attach_split leaf node' res w1 P1)"

text \<open>The constructor of \<^verbatim>\<open>OneIMultiO\<close> asserts that there is an output.\<close>

definition ForkFrom :: "'v traits \<Rightarrow> nat \<Rightarrow> nat \<Rightarrow> 'v world \<Rightarrow> ('v, 's) pipeline \<Rightarrow>
    nat set outcome \<times> 'v world \<times> ('v, 's) pipeline" where
  "ForkFrom tr leaf sz w P =
     (case leaf_check leaf P of
        Some e \<Rightarrow> (Thrown e, w, P)
      | None \<Rightarrow>
          if sz = 0 then (Died, w, P)
          else
            let (node, w1) = make_node tr (ForkC sz) ''fork'' w;
                (node', res, w2, P1) = fan_out tr sz node {} w1 P
            in attach_split leaf node' res w2 P1)"

section \<open>Concatenating leaves\<close>

text \<open>Every leaf gets a queue of its own, in the order of the argument.\<close>

fun link_each :: "nat list \<Rightarrow> ('v, 's) processor \<Rightarrow> 'v world \<Rightarrow> ('v, 's) pipeline \<Rightarrow>
    (('v, 's) processor \<times> 'v world \<times> ('v, 's) pipeline) option" where
  "link_each [] node w P = Some (node, w, P)"
| "link_each (each # ls) node w P =
     (let (q, h) = make_queue (channel_size P) (wheap w)
      in case link (\<lambda>inp outp. (SetOutputPort (Channel_shared q) inp, AddInputPort (Channel_shared q) outp))
                each node P of
           None \<Rightarrow> None
         | Some (node', P') \<Rightarrow>
             link_each ls node' (w\<lparr>wheap := h\<rparr>) (P'\<lparr>leaves := leaves P' - {each}\<rparr>))"

definition ConcatFrom :: "'v traits \<Rightarrow> nat list \<Rightarrow> 'v world \<Rightarrow> ('v, 's) pipeline \<Rightarrow>
    nat outcome \<times> 'v world \<times> ('v, 's) pipeline" where
  "ConcatFrom tr ls w P =
     (case leaves_check ls P of
        Some e \<Rightarrow> (Thrown e, w, P)
      | None \<Rightarrow>
          if ls = [] then (Died, w, P)
          else
            let (concat_node, w1) = make_node tr (ConcatC (length ls)) ''concat'' w;
                nid = GetId concat_node
            in case link_each ls concat_node w1 P of
                 None \<Rightarrow> (Died, w1, P)
               | Some (node', w2, P1) \<Rightarrow>
                   (Returned nid, w2,
                    P1\<lparr>leaves := insert nid (leaves P1), nodes := map_insert nid node' (nodes P1)\<rparr>))"

section \<open>Queries and settings\<close>

definition IsCompleted :: "('v, 's) pipeline \<Rightarrow> bool" where
  "IsCompleted P \<longleftrightarrow> leaves P = {}"

definition GetProcessorSize :: "('v, 's) pipeline \<Rightarrow> nat" where
  "GetProcessorSize P = card (dom (nodes P))"

definition IsSource :: "nat \<Rightarrow> ('v, 's) pipeline \<Rightarrow> bool" where
  "IsSource nid P \<longleftrightarrow> nid \<in> set (sources P)"

definition IsSink :: "nat \<Rightarrow> ('v, 's) pipeline \<Rightarrow> bool" where
  "IsSink nid P \<longleftrightarrow> nid \<in> set (sinks P)"

definition SetAbortChannel :: "chan \<Rightarrow> ('v, 's) pipeline \<Rightarrow> ('v, 's) pipeline" where
  "SetAbortChannel c P = P\<lparr>abort_channel := c\<rparr>"

definition BindExecutorForProcessor :: "nat \<Rightarrow> nat option \<Rightarrow> ('v, 's) pipeline \<Rightarrow>
    unit outcome \<times> ('v, 's) pipeline" where
  "BindExecutorForProcessor nid ex P =
     (if ex = None then (Died, P)
      else
        case nodes P nid of
          None \<Rightarrow> (Thrown (StdException ''bind executor error, invalid processor id''), P)
        | Some p \<Rightarrow> (Returned (), P\<lparr>nodes := (nodes P)(nid \<mapsto> SetBindExecutor ex p)\<rparr>))"

text \<open>\<^verbatim>\<open>Dump\<close>, given the iteration orders of \<^verbatim>\<open>nodes_\<close> and of every successor set.\<close>

fun show_nat :: "nat \<Rightarrow> string" where
  "show_nat n =
     (if n < 10 then [char_of (48 + n)] else show_nat (n div 10) @ [char_of (48 + n mod 10)])"

declare show_nat.simps [simp del]

definition dump_node :: "(nat \<Rightarrow> nat list) \<Rightarrow> nat \<Rightarrow> ('v, 's) pipeline \<Rightarrow> string" where
  "dump_node succs nid P =
     show_nat nid @ '' ('' @ (case nodes P nid of None \<Rightarrow> [] | Some p \<Rightarrow> name p) @ '') : '' @
     (case dags P nid of
        None \<Rightarrow> ''\<newline>''
      | Some S \<Rightarrow> List.concat (map (\<lambda>to. show_nat to @ '' '') (succs nid)) @ ''\<newline>'')"

definition Dump :: "nat list \<Rightarrow> (nat \<Rightarrow> nat list) \<Rightarrow> ('v, 's) pipeline \<Rightarrow> string" where
  "Dump ord succs P =
     ''pipeline : '' @ option_name P @ ''\<newline>'' @
     ''node size : '' @ show_nat (GetProcessorSize P) @ ''\<newline>'' @
     List.concat (map (\<lambda>nid. dump_node succs nid P) ord) @
     ''the pipeline is '' @ (if IsCompleted P then ''completed'' else ''incompleted'') @ ''\<newline>''"

section \<open>Running\<close>

text \<open>
  \<^verbatim>\<open>Run\<close> up to \<^verbatim>\<open>collectAllPara\<close>: the checks, the abort channel (of capacity 10 when
  the user gave none, its index uninitialised) and the coroutines it starts.
\<close>

definition Run_abort_channel :: "nat \<Rightarrow> 'v world \<Rightarrow> ('v, 's) pipeline \<Rightarrow> chan \<times> 'v world" where
  "Run_abort_channel garbage w P =
     (if chan_bool (abort_channel P) then (abort_channel P, w)
      else let (c, h) = Channel_sized garbage 10 (aheap w) in (c, w\<lparr>aheap := h\<rparr>))"

definition Run_bind :: "chan \<Rightarrow> ('v, 's) pipeline \<Rightarrow> nat \<rightharpoonup> ('v, 's) processor" where
  "Run_bind c P =
     (\<lambda>nid. map_option (\<lambda>p. if bind_abort_channel P then BindAbortChannel c p else p) (nodes P nid))"

definition Run :: "nat option \<Rightarrow> nat \<Rightarrow> 'v world \<Rightarrow> ('v, 's) pipeline \<Rightarrow>
    (('v, 's) processor, 'v) net outcome" where
  "Run ex garbage w P =
     (if leaves P \<noteq> {} then Thrown (StdException ''try to run incompleted pipeline'')
      else if dom (nodes P) = {} then Thrown (StdException ''try to run empty pipeline'')
      else if ex = None then Thrown (StdException ''pipeline can not run without executor'')
      else
        let (c, w1) = Run_abort_channel garbage w P
        in Returned \<lparr>procs = Run_bind c P, queues = queue_at (wheap w1), aborts = queue_at (aheap w1)\<rparr>)"

text \<open>
  \<^verbatim>\<open>Run\<close> after \<^verbatim>\<open>collectAllPara\<close>: the loop over \<^verbatim>\<open>nodes_\<close>, which builds a
  \<^verbatim>\<open>ProcessorWorkResult\<close> per node.
\<close>

record work_result =
  result_try :: "exn option"
  result_events :: event_collector

definition try_of :: "('v, 's) processor \<Rightarrow> exn option" where
  "try_of p = (case pc p of Finished e \<Rightarrow> e | _ \<Rightarrow> None)"

fun Run_collect :: "('v, 's) processor list \<Rightarrow> exn option list \<Rightarrow> work_result list \<Rightarrow> work_result list" where
  "Run_collect [] lazy_results results = results"
| "Run_collect (node # ns) lazy_results results =
     (let result = \<lparr>result_try = hd lazy_results, result_events = event_collector node\<rparr>
      in Run_collect ns (tl lazy_results) results)"

end
