(* ===== verification/Pipeline_Inv.thy ===== *)
theory Pipeline_Inv
  imports Pipeline
begin

text \<open>
  What the builder of \<^verbatim>\<open>pipeline.h\<close> guarantees: every operation that returns keeps the
  invariant \<open>pipe_inv\<close> of a pipeline under construction. The recorded edges are exactly the
  data flow through the queues, the graph has no cycle, and for every queue the EOFs its
  writers will put are the EOFs its readers will wait for.
\<close>

section \<open>The invariant\<close>

definition reads_q :: "('v, 's) processor \<Rightarrow> nat set" where
  "reads_q p = {q. \<exists>r \<in> set (in_refs (pkind p)). chan_queue p r = Some q}"

definition writes_q :: "('v, 's) processor \<Rightarrow> nat set" where
  "writes_q p = {q. \<exists>r \<in> set (out_refs (pkind p)). chan_queue p r = Some q}"

definition node_sum :: "(('v, 's) processor \<Rightarrow> nat \<Rightarrow> nat) \<Rightarrow> ('v, 's) pipeline \<Rightarrow> nat \<Rightarrow> nat \<Rightarrow> nat" where
  "node_sum f P q i = (case nodes P i of None \<Rightarrow> 0 | Some p \<Rightarrow> f p q)"

definition node_set :: "(('v, 's) processor \<Rightarrow> nat set) \<Rightarrow> ('v, 's) pipeline \<Rightarrow> nat \<Rightarrow> nat set" where
  "node_set f P i = (case nodes P i of None \<Rightarrow> {} | Some p \<Rightarrow> f p)"

definition edges :: "('v, 's) pipeline \<Rightarrow> (nat \<times> nat) set" where
  "edges P = {(i, j). \<exists>S. dags P i = Some S \<and> j \<in> S}"

text \<open>A node as the builder stores it. Channel endpoints talk to queues outside the pipeline.\<close>

definition node_ok :: "'v world \<Rightarrow> nat \<Rightarrow> ('v, 's) processor \<Rightarrow> bool" where
  "node_ok w i p \<longleftrightarrow>
     pc p = Created \<and> GetId p = i \<and> i < next_id w \<and> shape p \<and> ins_open p \<and>
     ch_queue (abort_port p) = None \<and> pkind p \<noteq> KChannelSource \<and> pkind p \<noteq> KChannelSink \<and>
     (\<forall>q \<in> reads_q p \<union> writes_q p. q < next_queue (wheap w))"

definition leaf_ok :: "('v, 's) processor \<Rightarrow> bool" where
  "leaf_ok p \<longleftrightarrow> out_refs (pkind p) = [OutPort] \<and> \<not> is_open p OutPort"

definition role_ok :: "nat set \<Rightarrow> nat \<Rightarrow> ('v, 's) processor \<Rightarrow> bool" where
  "role_ok ls i p \<longleftrightarrow> (if i \<in> ls then leaf_ok p else outs_open p)"

definition pipe_inv :: "'v world \<Rightarrow> ('v, 's) pipeline \<Rightarrow> bool" where
  "pipe_inv w P \<longleftrightarrow>
     finite (dom (nodes P)) \<and> leaves P \<subseteq> dom (nodes P) \<and>
     (\<forall>i p. nodes P i = Some p \<longrightarrow> node_ok w i p \<and> role_ok (leaves P) i p) \<and>
     (\<forall>q. (\<Sum>i\<in>dom (nodes P). node_sum working_writes P q i) =
          (\<Sum>i\<in>dom (nodes P). node_sum working_reads P q i)) \<and>
     edges P = feeds (dom (nodes P)) (node_set reads_q P) (node_set writes_q P) \<and>
     (\<exists>rk :: nat \<Rightarrow> nat. \<forall>(i, j) \<in> edges P. rk i < rk j) \<and>
     (\<forall>q. bq_queue (queue_at (wheap w) q) = [])"

lemma pipe_inv_acyclic: "pipe_inv w P \<Longrightarrow> acyclic (edges P)"
  unfolding pipe_inv_def by (blast intro: acyclic_ranked)

section \<open>Owed EOFs and queues\<close>

lemma working_reads_0:
  assumes "shape p" "q \<notin> reads_q p"
  shows "working_reads p q = 0"
  using assms by (cases "pkind p") (auto simp: working_reads_def reads_q_def shape_def)

lemma working_writes_0:
  assumes "shape p" "q \<notin> writes_q p"
  shows "working_writes p q = 0"
  using assms by (cases "pkind p") (auto simp: working_writes_def writes_q_def shape_def)

abbreviation give_out :: "nat \<Rightarrow> ('v, 's) processor \<Rightarrow> ('v, 's) processor" where
  "give_out q p \<equiv> SetOutputPort (Channel_shared q) p"

lemma chan_queue_SetOutputPort [simp]:
  "chan_queue (SetOutputPort c p) r = (if r = OutPort then ch_queue c else chan_queue p r)"
  by (cases r) (auto simp: SetOutputPort_def get_chan.simps)

lemma SetOutputPort_frame [simp]:
  "pc (SetOutputPort c p) = pc p" "processor_id (SetOutputPort c p) = processor_id p"
  "node_class (SetOutputPort c p) = node_class p" "input_count (SetOutputPort c p) = input_count p"
  "inputs (SetOutputPort c p) = inputs p" "outputs (SetOutputPort c p) = outputs p"
  "abort_port (SetOutputPort c p) = abort_port p"
  by (simp_all add: SetOutputPort_def)

lemma in_refs_ins: "OutPort \<notin> set (in_refs k)" "Outputs i \<notin> set (in_refs k)"
  "InPort \<notin> set (out_refs k)" "Inputs i \<notin> set (out_refs k)"
  by (cases k; auto)+

lemma give_out_leaf:
  assumes "leaf_ok p" "shape p" "ins_open p"
  shows "shape (give_out q p)" "ins_open (give_out q p)" "outs_open (give_out q p)"
    "reads_q (give_out q p) = reads_q p" "writes_q (give_out q p) = {q}" "writes_q p = {}"
    "working_reads (give_out q p) q' = working_reads p q'"
    "working_writes (give_out q p) q' = (if q' = q then 1 else 0)"
proof -
  show "shape (give_out q p)" "ins_open (give_out q p)" "outs_open (give_out q p)"
    using assms by (auto simp: shape_def leaf_ok_def ins_open_def outs_open_def in_refs_ins)
  have "r \<in> set (in_refs (pkind p)) \<Longrightarrow> r \<noteq> OutPort" for r using in_refs_ins by auto
  then show "reads_q (give_out q p) = reads_q p" by (auto simp: reads_q_def)
  show "writes_q (give_out q p) = {q}" "writes_q p = {}"
    using assms by (auto simp: writes_q_def leaf_ok_def)
  show "working_reads (give_out q p) q' = working_reads p q'"
    by (simp add: working_reads_def)
  have "length (outputs p) = 0" using assms by (cases "pkind p") (auto simp: leaf_ok_def shape_def)
  then show "working_writes (give_out q p) q' = (if q' = q then 1 else 0)"
    by (simp add: working_writes_def)
qed

section \<open>Extending a pipeline\<close>

text \<open>
  The one shape all operations have: leaves \<open>L\<close> get their output connected (leaf \<open>i\<close> to queue
  \<open>qo i\<close>), new nodes \<open>F\<close> are added, of which \<open>F'\<close> are leaves, and only new queues are
  used. \<open>rF\<close> orders the new nodes.
\<close>

definition extends :: "'v world \<Rightarrow> ('v, 's) pipeline \<Rightarrow> 'v world \<Rightarrow> ('v, 's) pipeline \<Rightarrow>
    nat set \<Rightarrow> (nat \<Rightarrow> nat) \<Rightarrow> nat set \<Rightarrow> nat set \<Rightarrow> (nat \<Rightarrow> nat) \<Rightarrow> bool" where
  "extends w P w' P' L qo F F' rF \<longleftrightarrow>
     L \<subseteq> leaves P \<and> finite F \<and> F \<inter> dom (nodes P) = {} \<and> F' \<subseteq> F \<and>
     dom (nodes P') = dom (nodes P) \<union> F \<and>
     (\<forall>i p. nodes P i = Some p \<longrightarrow> nodes P' i = Some (if i \<in> L then give_out (qo i) p else p)) \<and>
     (\<forall>i \<in> L. next_queue (wheap w) \<le> qo i \<and> qo i < next_queue (wheap w')) \<and>
     (\<forall>j p. j \<in> F \<longrightarrow> nodes P' j = Some p \<longrightarrow>
        node_ok w' j p \<and> role_ok F' j p \<and> (\<forall>q \<in> reads_q p \<union> writes_q p. next_queue (wheap w) \<le> q)) \<and>
     leaves P' = leaves P - L \<union> F' \<and>
     (\<forall>q \<ge> next_queue (wheap w).
        (\<Sum>i\<in>L. if qo i = q then 1 else 0) + (\<Sum>j\<in>F. node_sum working_writes P' q j) =
        (\<Sum>j\<in>F. node_sum working_reads P' q j)) \<and>
     next_queue (wheap w) \<le> next_queue (wheap w') \<and> next_id w \<le> next_id w' \<and>
     (\<forall>q. bq_queue (queue_at (wheap w') q) = []) \<and>
     edges P' = edges P \<union> {(i, j). i \<in> L \<and> j \<in> F \<and> qo i \<in> node_set reads_q P' j} \<union>
       {(i, j). i \<in> F \<and> j \<in> F \<and> node_set writes_q P' i \<inter> node_set reads_q P' j \<noteq> {}} \<and>
     (\<forall>i \<in> F. \<forall>j \<in> F. node_set writes_q P' i \<inter> node_set reads_q P' j \<noteq> {} \<longrightarrow> rF i < rF j)"

lemma extends_old:
  assumes "pipe_inv w P" "extends w P w' P' L qo F F' rF" "nodes P i = Some p"
  shows "node_ok w' i (if i \<in> L then give_out (qo i) p else p)"
    "role_ok (leaves P') i (if i \<in> L then give_out (qo i) p else p)"
proof -
  have p: "node_ok w i p" "role_ok (leaves P) i p" using assms(1,3) by (auto simp: pipe_inv_def)
  have L: "L \<subseteq> leaves P" "next_queue (wheap w) \<le> next_queue (wheap w')" "next_id w \<le> next_id w'"
    "\<forall>i \<in> L. qo i < next_queue (wheap w')" "leaves P' = leaves P - L \<union> F'" "i \<notin> F'"
    using assms(2,3) by (auto simp: extends_def)
  have "leaf_ok p" if "i \<in> L" using p(2) L(1) that by (auto simp: role_ok_def)
  then show "node_ok w' i (if i \<in> L then give_out (qo i) p else p)"
    "role_ok (leaves P') i (if i \<in> L then give_out (qo i) p else p)"
    using p L give_out_leaf(1-3)[of p "qo i"] give_out_leaf(4,5)[of p "qo i"]
    by (auto simp: node_ok_def role_ok_def GetId_def intro: order_less_le_trans)
qed

lemma extends_node:
  assumes "pipe_inv w P" "extends w P w' P' L qo F F' rF" "nodes P' i = Some p"
  shows "node_ok w' i p" "role_ok (leaves P') i p"
proof -
  have "node_ok w' i p \<and> role_ok (leaves P') i p"
  proof (cases "i \<in> F")
    case True
    then have "i \<notin> leaves P"
      using assms(1,2) by (auto simp: extends_def pipe_inv_def)
    with True assms show ?thesis by (auto simp: extends_def role_ok_def)
  next
    case False
    then have "i \<in> dom (nodes P)" using assms(2,3) by (auto simp: extends_def)
    then obtain p0 where p0: "nodes P i = Some p0" by auto
    then have "p = (if i \<in> L then give_out (qo i) p0 else p0)"
      using assms(2,3) by (auto simp: extends_def split: if_splits)
    then show ?thesis using extends_old[OF assms(1,2) p0] by simp
  qed
  then show "node_ok w' i p" "role_ok (leaves P') i p" by auto
qed

text \<open>Old nodes only touch old queues, except for the new output of the leaves in \<open>L\<close>.\<close>

lemma extends_sums:
  assumes "pipe_inv w P" "extends w P w' P' L qo F F' rF" "i \<in> dom (nodes P)"
  shows "node_sum working_reads P' q i = node_sum working_reads P q i"
    "node_sum working_writes P' q i =
       node_sum working_writes P q i + (if i \<in> L \<and> qo i = q then 1 else 0)"
proof -
  obtain p where p: "nodes P i = Some p" using assms(3) by auto
  have P': "nodes P' i = Some (if i \<in> L then give_out (qo i) p else p)"
    using assms(2) p by (simp add: extends_def)
  have ok: "shape p" "ins_open p" "i \<in> L \<Longrightarrow> leaf_ok p"
    using assms(1,2) p by (auto simp: pipe_inv_def node_ok_def role_ok_def extends_def)
  have "i \<in> L \<Longrightarrow> working_writes p q = 0"
    using ok give_out_leaf(6) working_writes_0 by blast
  then show "node_sum working_reads P' q i = node_sum working_reads P q i"
    "node_sum working_writes P' q i =
       node_sum working_writes P q i + (if i \<in> L \<and> qo i = q then 1 else 0)"
    using p P' ok give_out_leaf(7,8)[of p "qo i" q] by (auto simp: node_sum_def)
qed

lemma extends_sets:
  assumes "pipe_inv w P" "extends w P w' P' L qo F F' rF" "i \<in> dom (nodes P)"
  shows "node_set reads_q P' i = node_set reads_q P i"
    "node_set writes_q P' i = (if i \<in> L then {qo i} else node_set writes_q P i)"
    "i \<in> L \<Longrightarrow> node_set writes_q P i = {}"
    "q \<in> node_set reads_q P i \<Longrightarrow> q < next_queue (wheap w)"
    "q \<in> node_set writes_q P i \<Longrightarrow> q < next_queue (wheap w)"
proof -
  obtain p where p: "nodes P i = Some p" using assms(3) by auto
  have P': "nodes P' i = Some (if i \<in> L then give_out (qo i) p else p)"
    using assms(2) p by (simp add: extends_def)
  have ok: "node_ok w i p" "i \<in> L \<Longrightarrow> leaf_ok p"
    using assms(1,2) p by (auto simp: pipe_inv_def role_ok_def extends_def)
  then show "node_set reads_q P' i = node_set reads_q P i"
    "node_set writes_q P' i = (if i \<in> L then {qo i} else node_set writes_q P i)"
    "i \<in> L \<Longrightarrow> node_set writes_q P i = {}"
    "q \<in> node_set reads_q P i \<Longrightarrow> q < next_queue (wheap w)"
    "q \<in> node_set writes_q P i \<Longrightarrow> q < next_queue (wheap w)"
    using p P' give_out_leaf(4,5)[of p "qo i"] give_out_leaf(6)[of p]
    by (auto simp: node_set_def node_ok_def)
qed

lemma extends_new_sets:
  assumes "extends w P w' P' L qo F F' rF" "j \<in> F"
  shows "q \<in> node_set reads_q P' j \<Longrightarrow> next_queue (wheap w) \<le> q"
    "q \<in> node_set writes_q P' j \<Longrightarrow> next_queue (wheap w) \<le> q"
  using assms by (auto simp: extends_def node_set_def split: option.splits)

lemma extends_balance:
  assumes inv: "pipe_inv w P" and ext: "extends w P w' P' L qo F F' rF"
  shows "(\<Sum>i\<in>dom (nodes P'). node_sum working_writes P' q i) =
    (\<Sum>i\<in>dom (nodes P'). node_sum working_reads P' q i)"
proof -
  let ?D = "dom (nodes P)"
  have fin: "finite ?D" "finite F" and disj: "?D \<inter> F = {}" and dom': "dom (nodes P') = ?D \<union> F"
    and L: "L \<subseteq> ?D" and old: "(\<Sum>i\<in>?D. node_sum working_writes P q i) = (\<Sum>i\<in>?D. node_sum working_reads P q i)"
    using inv ext by (auto simp: pipe_inv_def extends_def)
  have split: "(\<Sum>i\<in>?D \<union> F. f i) = (\<Sum>i\<in>?D. f i) + (\<Sum>i\<in>F. f i)" for f :: "nat \<Rightarrow> nat"
    using fin disj by (rule sum.union_disjoint)
  have r: "(\<Sum>i\<in>?D. node_sum working_reads P' q i) = (\<Sum>i\<in>?D. node_sum working_reads P q i)"
    using extends_sums(1)[OF inv ext] by simp
  have "(\<Sum>i\<in>?D. if i \<in> L \<and> qo i = q then 1 else (0::nat)) = (\<Sum>i\<in>L. if qo i = q then 1 else 0)"
    using L fin by (intro sum.mono_neutral_cong_right) auto
  then have w: "(\<Sum>i\<in>?D. node_sum working_writes P' q i) =
      (\<Sum>i\<in>?D. node_sum working_writes P q i) + (\<Sum>i\<in>L. if qo i = q then 1 else 0)"
    using extends_sums(2)[OF inv ext] by (simp add: sum.distrib)
  show ?thesis
  proof (cases "next_queue (wheap w) \<le> q")
    case True
    then have "(\<Sum>i\<in>L. if qo i = q then 1 else 0) + (\<Sum>j\<in>F. node_sum working_writes P' q j) =
        (\<Sum>j\<in>F. node_sum working_reads P' q j)"
      using ext by (simp add: extends_def)
    then show ?thesis using r w old by (simp add: dom' split)
  next
    case False
    have "(\<Sum>i\<in>L. if qo i = q then 1 else (0::nat)) = 0"
      using False ext by (intro sum_zero_on) (auto simp: extends_def)
    moreover have "node_sum working_reads P' q j = 0" "node_sum working_writes P' q j = 0" if "j \<in> F" for j
      using False ext that
      by (auto simp: extends_def node_sum_def node_ok_def split: option.splits
          intro!: working_reads_0 working_writes_0)
    ultimately show ?thesis using r w old by (simp add: dom' split)
  qed
qed

lemma extends_feeds:
  assumes inv: "pipe_inv w P" and ext: "extends w P w' P' L qo F F' rF"
  shows "edges P' = feeds (dom (nodes P')) (node_set reads_q P') (node_set writes_q P')"
proof -
  let ?D = "dom (nodes P)" and ?rd = "node_set reads_q P'" and ?wr = "node_set writes_q P'"
  have disj: "?D \<inter> F = {}" and dom': "dom (nodes P') = ?D \<union> F" and L: "L \<subseteq> ?D"
    and qo: "\<And>i. i \<in> L \<Longrightarrow> next_queue (wheap w) \<le> qo i"
    and old: "edges P = feeds ?D (node_set reads_q P) (node_set writes_q P)"
    using inv ext by (auto simp: pipe_inv_def extends_def)
  note sets = extends_sets[OF inv ext]
  have DD: "?wr i \<inter> ?rd j \<noteq> {} \<longleftrightarrow> (i, j) \<in> edges P" if "i \<in> ?D" "j \<in> ?D" for i j
    using that sets[OF that(1)] sets(1,4)[OF that(2)] qo[of i] unfolding old feeds_def
    by (auto split: if_splits) (metis leD)
  have DF: "?wr i \<inter> ?rd j \<noteq> {} \<longleftrightarrow> i \<in> L \<and> qo i \<in> ?rd j" if "i \<in> ?D" "j \<in> F" for i j
    using that sets(2,5)[OF that(1)] extends_new_sets(1)[OF ext that(2)]
    by (auto split: if_splits) (meson leD)
  have FD: "?wr i \<inter> ?rd j = {}" if "i \<in> F" "j \<in> ?D" for i j
    using sets(1,4)[OF that(2)] extends_new_sets(2)[OF ext that(1)] by (auto) (meson leD)
  have edges: "edges P' = edges P \<union> {(i, j). i \<in> L \<and> j \<in> F \<and> qo i \<in> ?rd j} \<union>
       {(i, j). i \<in> F \<and> j \<in> F \<and> ?wr i \<inter> ?rd j \<noteq> {}}" using ext by (simp add: extends_def)
  have ED: "edges P \<subseteq> ?D \<times> ?D" unfolding old feeds_def by auto
  have "(i, j) \<in> edges P' \<longleftrightarrow> i \<in> ?D \<union> F \<and> j \<in> ?D \<union> F \<and> ?wr i \<inter> ?rd j \<noteq> {}" for i j
  proof (cases "i \<in> ?D"; cases "j \<in> ?D")
    assume "i \<in> ?D" "j \<in> ?D"
    moreover from this have "i \<notin> F" "j \<notin> F" using disj by auto
    ultimately show ?thesis using DD[of i j] by (simp add: edges)
  next
    assume i: "i \<in> ?D" and j: "j \<notin> ?D"
    then have "i \<notin> F" "(i, j) \<notin> edges P" using disj ED by auto
    then show ?thesis using DF[of i j] i j by (simp add: edges) blast
  next
    assume i: "i \<notin> ?D" and j: "j \<in> ?D"
    then have "j \<notin> F" "(i, j) \<notin> edges P" using disj ED by auto
    then show ?thesis using FD[of i j] i j by (simp add: edges)
  next
    assume i: "i \<notin> ?D" and j: "j \<notin> ?D"
    then have "i \<notin> L" "(i, j) \<notin> edges P" using L ED by auto
    then show ?thesis using i j by (simp add: edges)
  qed
  then show ?thesis unfolding dom' feeds_def by auto
qed

lemma extends_rank:
  assumes inv: "pipe_inv w P" and ext: "extends w P w' P' L qo F F' rF"
  shows "\<exists>rk :: nat \<Rightarrow> nat. \<forall>(i, j) \<in> edges P'. rk i < rk j"
proof -
  let ?D = "dom (nodes P)"
  obtain rk :: "nat \<Rightarrow> nat" where rk: "\<forall>(i, j) \<in> edges P. rk i < rk j" using inv by (auto simp: pipe_inv_def)
  have ED: "edges P \<subseteq> ?D \<times> ?D" using inv by (auto simp: pipe_inv_def feeds_def)
  have fin: "finite ?D" and disj: "?D \<inter> F = {}" and L: "L \<subseteq> ?D"
    using inv ext by (auto simp: pipe_inv_def extends_def)
  let ?M = "Max (insert 0 (rk ` ?D))"
  let ?rk = "\<lambda>i. if i \<in> F then Suc (?M + rF i) else rk i"
  have M: "rk i \<le> ?M" if "i \<in> ?D" for i using that fin by (intro Max_ge) auto
  have edges: "edges P' = edges P \<union> {(i, j). i \<in> L \<and> j \<in> F \<and> qo i \<in> node_set reads_q P' j} \<union>
       {(i, j). i \<in> F \<and> j \<in> F \<and> node_set writes_q P' i \<inter> node_set reads_q P' j \<noteq> {}}"
    and rF: "\<forall>i \<in> F. \<forall>j \<in> F. node_set writes_q P' i \<inter> node_set reads_q P' j \<noteq> {} \<longrightarrow> rF i < rF j"
    using ext by (simp_all add: extends_def)
  have rkI: "?rk i < ?rk j" if ij: "(i, j) \<in> edges P'" for i j
  proof -
    consider "(i, j) \<in> edges P" | "i \<in> L" "j \<in> F"
      | "i \<in> F" "j \<in> F" "node_set writes_q P' i \<inter> node_set reads_q P' j \<noteq> {}"
      using ij unfolding edges by blast
    then show ?thesis
    proof cases
      case 1
      then have "i \<notin> F" "j \<notin> F" "rk i < rk j" using ED disj rk by auto
      then show ?thesis by simp
    next
      case 2
      then have "i \<notin> F" "rk i \<le> ?M" using L disj M[of i] by auto
      then show ?thesis using 2 by simp
    next
      case 3
      then have "rF i < rF j" using rF by blast
      then show ?thesis using 3 by simp
    qed
  qed
  show ?thesis by (intro exI[of _ ?rk] ballI, clarify) (rule rkI)
qed

lemma extends_inv:
  assumes "pipe_inv w P" "extends w P w' P' L qo F F' rF"
  shows "pipe_inv w' P'"
proof -
  have "finite (dom (nodes P'))" "leaves P' \<subseteq> dom (nodes P')"
    "\<forall>q. bq_queue (queue_at (wheap w') q) = []"
    using assms by (auto simp: pipe_inv_def extends_def)
  then show ?thesis
    unfolding pipe_inv_def
    using extends_node[OF assms] extends_balance[OF assms] extends_feeds[OF assms] extends_rank[OF assms]
    by blast
qed


section \<open>New nodes\<close>

lemma Processor_frame [simp]:
  "pc (Processor tr c nm i) = Created" "processor_id (Processor tr c nm i) = i"
  "node_class (Processor tr c nm i) = c" "inputs (Processor tr c nm i) = []"
  "outputs (Processor tr c nm i) = []" "chan_queue (Processor tr c nm i) r = None"
  "c \<noteq> ChannelSourceC \<Longrightarrow> input_count (Processor tr c nm i) = 0"
  by (cases r; auto simp: Processor_def get_chan.simps split: node_class.splits)+

text \<open>A node whose input port is fed by \<open>n\<close> writers of the queue \<open>q\<close>.\<close>

definition feed :: "nat \<Rightarrow> nat \<Rightarrow> ('v, 's) processor \<Rightarrow> ('v, 's) processor" where
  "feed q n p =
     (if n = 0 then p else p\<lparr>input_port := Channel_shared q, input_count := input_count p + n\<rparr>)"

lemma feed_SetInputPort: "feed q n (SetInputPort (Channel_shared q) p) = feed q (Suc n) p"
  by (simp add: feed_def SetInputPort_def)

lemma feed_frame [simp]:
  "pc (feed q n p) = pc p" "processor_id (feed q n p) = processor_id p"
  "node_class (feed q n p) = node_class p" "inputs (feed q n p) = inputs p"
  "outputs (feed q n p) = outputs p" "input_count (feed q n p) = input_count p + n"
  "abort_port (feed q n p) = abort_port p"
  by (simp_all add: feed_def)

lemma chan_queue_feed [simp]:
  "0 < n \<Longrightarrow> chan_queue (feed q n p) r = (if r = InPort then Some q else chan_queue p r)"
  by (cases r) (auto simp: feed_def get_chan.simps)

lemma feed_node:
  assumes "0 < n" "in_refs (pkind p) = [InPort]" "input_count p = 0" "shape p" "\<not> is_open p InPort"
  shows "shape (feed q n p)" "ins_open (feed q n p)" "outs_open (feed q n p) = outs_open p"
    "leaf_ok (feed q n p) = leaf_ok p" "reads_q (feed q n p) = {q}" "writes_q (feed q n p) = writes_q p"
    "working_reads (feed q n p) q' = (if q' = q then n else 0)"
    "working_writes (feed q n p) q' = working_writes p q'"
proof -
  have outs: "r \<in> set (out_refs k) \<Longrightarrow> r \<noteq> InPort" for r k using in_refs_ins by auto
  show "shape (feed q n p)" "ins_open (feed q n p)" "leaf_ok (feed q n p) = leaf_ok p" "reads_q (feed q n p) = {q}"
    using assms by (auto simp: shape_def ins_open_def leaf_ok_def reads_q_def)
  show "outs_open (feed q n p) = outs_open p" "writes_q (feed q n p) = writes_q p"
    using assms outs by (auto simp: outs_open_def writes_q_def)
  have "length (inputs p) = 0" using assms(2,4) by (cases "pkind p") (auto simp: shape_def)
  then show "working_reads (feed q n p) q' = (if q' = q then n else 0)"
    using assms by (simp add: working_reads_def)
  show "working_writes (feed q n p) q' = working_writes p q'"
    using assms by (simp add: working_writes_def)
qed

text \<open>The nodes the user hands to the builder, as constructed and not touched since.\<close>

lemma fresh_node:
  assumes "kind_of c \<in> {KSource, KSink, KTransform}"
  shows "shape (Processor tr c nm i)" "working_writes (Processor tr c nm i) q = 0"
    "working_reads (Processor tr c nm i) q = 0"
    "reads_q (Processor tr c nm i) = {}" "writes_q (Processor tr c nm i) = {}"
    "leaf_ok (Processor tr c nm i) \<longleftrightarrow> kind_of c \<noteq> KSink"
    "outs_open (Processor tr c nm i) \<longleftrightarrow> kind_of c = KSink"
    "ins_open (Processor tr c nm i) \<longleftrightarrow> kind_of c = KSource"
  using assms
  by (auto simp: shape_def working_writes_def working_reads_def reads_q_def writes_q_def leaf_ok_def
      outs_open_def ins_open_def)

lemma kind_not_channel_source: "kind_of c \<in> {KSource, KSink, KTransform} \<Longrightarrow> c \<noteq> ChannelSourceC"
  by auto

section \<open>Linking leaves to a node\<close>

lemma edges_add_edge [simp]: "edges (add_edge i j P) = insert (i, j) (edges P)"
  by (auto simp: edges_def add_edge_def split: option.splits if_splits)

lemma edges_frame [simp]:
  "edges (P\<lparr>nodes := N\<rparr>) = edges P" "edges (P\<lparr>leaves := ls\<rparr>) = edges P"
  "edges (P\<lparr>sinks := xs\<rparr>) = edges P" "edges (P\<lparr>sources := xs\<rparr>) = edges P"
  by (simp_all add: edges_def)

lemma add_edge_frame [simp]:
  "nodes (add_edge i j P) = nodes P" "leaves (add_edge i j P) = leaves P"
  "channel_size (add_edge i j P) = channel_size P" "sources (add_edge i j P) = sources P"
  "sinks (add_edge i j P) = sinks P" "option_name (add_edge i j P) = option_name P"
  "bind_abort_channel (add_edge i j P) = bind_abort_channel P"
  "abort_channel (add_edge i j P) = abort_channel P"
  by (simp_all add: add_edge_def)

text \<open>The fields that only \<open>AddSource\<close> and \<open>SetSink\<close> change.\<close>

definition same_setup :: "('v, 's) pipeline \<Rightarrow> ('v, 's) pipeline \<Rightarrow> bool" where
  "same_setup P P' \<longleftrightarrow>
     channel_size P' = channel_size P \<and> sources P' = sources P \<and> sinks P' = sinks P \<and>
     option_name P' = option_name P \<and> bind_abort_channel P' = bind_abort_channel P \<and>
     abort_channel P' = abort_channel P"

lemma link_queue:
  assumes "nodes P i = Some p"
  shows "link (connect_queue q) i node P =
    Some (SetInputPort (Channel_shared q) node,
      add_edge i (GetId node) (P\<lparr>nodes := (nodes P)(i \<mapsto> give_out q p)\<rparr>))"
  using assms by (simp add: link_def connect_queue_def)

lemma link_all_spec:
  assumes "set ls \<subseteq> dom (nodes P)" "distinct ls"
  shows "\<exists>P'. link_all q ls node P = Some (feed q (length ls) node, P') \<and>
    (\<forall>i. nodes P' i = (if i \<in> set ls then map_option (give_out q) (nodes P i) else nodes P i)) \<and>
    edges P' = edges P \<union> set ls \<times> {GetId node} \<and> leaves P' = leaves P \<and> same_setup P P'"
  using assms
proof (induction ls arbitrary: P node)
  case Nil
  then show ?case by (simp add: feed_def same_setup_def)
next
  case (Cons i ls)
  then obtain p where p: "nodes P i = Some p" by auto
  let ?node = "SetInputPort (Channel_shared q) node"
  let ?P = "add_edge i (GetId node) (P\<lparr>nodes := (nodes P)(i \<mapsto> give_out q p)\<rparr>)"
  have "set ls \<subseteq> dom (nodes ?P)" "distinct ls" using Cons.prems by auto
  from Cons.IH[OF this, of ?node] obtain P' where P': "link_all q ls ?node ?P = Some (feed q (length ls) ?node, P')"
    "\<forall>i. nodes P' i = (if i \<in> set ls then map_option (give_out q) (nodes ?P i) else nodes ?P i)"
    "edges P' = edges ?P \<union> set ls \<times> {GetId ?node}" "leaves P' = leaves ?P" "same_setup ?P P'" by blast
  have "GetId ?node = GetId node" by (simp add: GetId_def SetInputPort_def)
  with P' p Cons.prems show ?case
    by (intro exI[of _ P']) (auto simp: link_queue feed_SetInputPort same_setup_def)
qed


section \<open>The operations keep the invariant\<close>

text \<open>A node of a class that does not talk to channels of the user, as its constructor left it.\<close>

lemma Processor_unbound [simp]: "ch_queue (abort_port (Processor tr c nm i)) = None"
  by (simp add: Processor_def)

definition fresh :: "'v world \<Rightarrow> kind \<Rightarrow> ('v, 's) processor \<Rightarrow> bool" where
  "fresh w k p \<longleftrightarrow>
     (\<exists>tr c nm i. p = Processor tr c nm i \<and> kind_of c = k \<and> i < next_id w)"

lemma node_set_simps [simp]:
  "nodes P i = Some p \<Longrightarrow> node_set f P i = f p" "nodes P i = None \<Longrightarrow> node_set f P i = {}"
  "nodes P i = Some p \<Longrightarrow> node_sum g P q i = g p q" "nodes P i = None \<Longrightarrow> node_sum g P q i = 0"
  by (simp_all add: node_set_def node_sum_def)

lemma AddSource_inv:
  assumes "pipe_inv w P" "fresh w KSource src" "AddSource src P = (Returned i, P')"
  shows "pipe_inv w P'"
proof -
  obtain tr c nm where src: "src = Processor tr c nm i" "kind_of c = KSource" "i < next_id w"
    and P': "nodes P i = None" "P' = P\<lparr>nodes := (nodes P)(i \<mapsto> src), leaves := insert i (leaves P),
      sources := sources P @ [i]\<rparr>"
    using assms(2,3)
    by (auto simp: fresh_def AddSource_def new_node_check_def map_insert_def GetId_def Let_def split: if_splits)
  note f = fresh_node[of c tr nm i]
  have "extends w P w P' {} (\<lambda>_. 0) {i} {i} (\<lambda>_. 0)"
    unfolding extends_def using P' src f assms(1)
    by (auto simp: node_ok_def role_ok_def GetId_def pipe_inv_def)
  then show ?thesis using assms(1) extends_inv by blast
qed

text \<open>New queues are empty, and the old ones are not touched.\<close>

lemma make_queue_empty:
  assumes "\<forall>q. bq_queue (queue_at h q) = []"
  shows "\<forall>q. bq_queue (queue_at (snd (make_queue c h)) q) = []"
  using assms by (simp add: BoundedQueue_def)

text \<open>A set of leaves is merged into one new node.\<close>

lemma merge_extends:
  assumes inv: "pipe_inv w P" and node: "fresh w k node" "k = KTransform \<or> k = KSink"
    and i: "i = GetId node" "nodes P i = None"
    and ls: "set ls \<subseteq> leaves P" "distinct ls" "ls \<noteq> []"
    and P': "\<forall>i'. nodes P' i' = (if i' = i then Some (feed (next_queue (wheap w)) (length ls) node)
        else if i' \<in> set ls then map_option (give_out (next_queue (wheap w))) (nodes P i') else nodes P i')"
      "edges P' = edges P \<union> set ls \<times> {i}"
      "leaves P' = leaves P - set ls \<union> (if k = KTransform then {i} else {})"
  shows "pipe_inv (w\<lparr>wheap := snd (make_queue cs (wheap w))\<rparr>) P'"
proof -
  let ?q = "next_queue (wheap w)" and ?w = "w\<lparr>wheap := snd (make_queue cs (wheap w))\<rparr>"
  let ?F' = "if k = KTransform then {i} else {}" and ?p = "feed (next_queue (wheap w)) (length ls) node"
  obtain tr c nm where n: "node = Processor tr c nm i" "kind_of c = k" "i < next_id w"
    using node i by (auto simp: fresh_def GetId_def)
  have k: "kind_of c \<in> {KSource, KSink, KTransform}" using n node by auto
  note f = fresh_node[OF k, of tr nm i]
  have ls_dom: "set ls \<subseteq> dom (nodes P)" using ls inv by (auto simp: pipe_inv_def)
  have "in_refs (kind_of c) = [InPort]" using n node by auto
  then have p: "shape ?p" "ins_open ?p" "outs_open ?p = (k = KSink)" "leaf_ok ?p = (k \<noteq> KSink)" "reads_q ?p = {?q}"
    "writes_q ?p = {}" "\<And>q. working_reads ?p q = (if q = ?q then length ls else 0)" "\<And>q. working_writes ?p q = 0"
    using feed_node[of "length ls" node ?q] f n ls(3) kind_not_channel_source[OF k] by simp_all
  have Pi: "nodes P' i = Some ?p" using P'(1) by simp
  have dom': "dom (nodes P') = dom (nodes P) \<union> {i}" using P'(1) ls_dom by (auto split: if_splits)
  have ok: "node_ok ?w i ?p" "role_ok ?F' i ?p"
    using p n node by (auto simp: node_ok_def role_ok_def GetId_def)
  have bal: "(\<Sum>i\<in>set ls. if ?q = q then 1 else 0) = (if q = ?q then length ls else 0)" for q
    using ls(2) by (simp add: distinct_card)
  have "extends w P ?w P' (set ls) (\<lambda>_. ?q) {i} ?F' (\<lambda>_. 0)"
    unfolding extends_def
  proof (intro conjI)
    show "\<forall>i' p. nodes P i' = Some p \<longrightarrow> nodes P' i' = Some (if i' \<in> set ls then give_out ?q p else p)"
      using P'(1) i(2) by auto
    show "\<forall>q\<ge>?q. (\<Sum>i\<in>set ls. if ?q = q then 1 else 0) + (\<Sum>j\<in>{i}. node_sum working_writes P' q j) =
        (\<Sum>j\<in>{i}. node_sum working_reads P' q j)"
      using Pi p(7,8) bal by simp
    show "\<forall>j p. j \<in> {i} \<longrightarrow> nodes P' j = Some p \<longrightarrow>
        node_ok ?w j p \<and> role_ok ?F' j p \<and> (\<forall>q\<in>reads_q p \<union> writes_q p. ?q \<le> q)"
      using ok p Pi by auto
    show "\<forall>q. bq_queue (queue_at (wheap ?w) q) = []"
      using make_queue_empty[of "wheap w" cs] inv by (simp add: pipe_inv_def)
  qed (use dom' P' ls(1) i p Pi in auto)
  then show ?thesis using inv extends_inv by blast
qed

lemma pipe_inv_cong:
  fixes P P' :: "('v, 's) pipeline"
  assumes "nodes P' = nodes P" "leaves P' = leaves P" "dags P' = dags P"
    "wheap w' = wheap w" "next_id w' = next_id w"
  shows "pipe_inv w' P' = pipe_inv w P"
proof -
  have "node_set f P' = node_set f P" "node_sum g P' q = node_sum g P q" for f g q
    using assms by (simp_all add: node_set_def node_sum_def fun_eq_iff)
  moreover have "edges P' = edges P" using assms by (simp add: edges_def)
  moreover have "node_ok w' i p = node_ok w i p" for i and p :: "('v, 's) processor"
    using assms by (simp add: node_ok_def)
  ultimately show ?thesis using assms by (simp add: pipe_inv_def)
qed

lemma pipe_inv_frame [simp]:
  "pipe_inv w (P\<lparr>sinks := xs\<rparr>) = pipe_inv w P" "pipe_inv w (P\<lparr>sources := xs\<rparr>) = pipe_inv w P"
  "pipe_inv w (P\<lparr>abort_channel := c\<rparr>) = pipe_inv w P" "pipe_inv (w\<lparr>aheap := a\<rparr>) P = pipe_inv w P"
  by (rule pipe_inv_cong; simp)+

lemma node_ok_later:
  "node_ok w i p \<Longrightarrow> next_id w \<le> n \<Longrightarrow> node_ok (w\<lparr>next_id := n\<rparr>) i p"
  by (auto simp: node_ok_def)

lemma pipe_inv_later:
  assumes "pipe_inv w P" "next_id w \<le> n"
  shows "pipe_inv (w\<lparr>next_id := n\<rparr>) P"
  using assms unfolding pipe_inv_def by (fastforce intro: node_ok_later)

lemma leaves_check_None: "leaves_check ls P = None \<longleftrightarrow> set ls \<subseteq> leaves P"
  by (induction ls) (auto simp: leaf_check_def)

lemma link_all_inv:
  assumes inv: "pipe_inv w P" and node: "fresh w k node" "k = KTransform \<or> k = KSink"
    and i: "nodes P (GetId node) = None" and ls: "set ls \<subseteq> leaves P" "distinct ls" "ls \<noteq> []"
    and link: "link_all (next_queue (wheap w)) ls node P = Some (node', P1)"
    and leaves': "ls' = leaves P - set ls \<union> (if k = KTransform then {GetId node} else {})"
  shows "pipe_inv (w\<lparr>wheap := snd (make_queue cs (wheap w))\<rparr>)
      (P1\<lparr>nodes := map_insert (GetId node) node' (nodes P1), leaves := ls'\<rparr>) \<and> leaves P1 = leaves P"
proof -
  have "set ls \<subseteq> dom (nodes P)" using ls inv by (auto simp: pipe_inv_def)
  from link_all_spec[OF this ls(2), of "next_queue (wheap w)" node] link
  have P1: "node' = feed (next_queue (wheap w)) (length ls) node"
    "\<forall>i. nodes P1 i = (if i \<in> set ls then map_option (give_out (next_queue (wheap w))) (nodes P i) else nodes P i)"
    "edges P1 = edges P \<union> set ls \<times> {GetId node}" "leaves P1 = leaves P" by auto
  have "GetId node \<notin> set ls" using i ls inv by (auto simp: pipe_inv_def)
  then have "nodes P1 (GetId node) = None" using P1(2) i by simp
  then show ?thesis
    using P1 leaves' by (auto simp: map_insert_def intro!: merge_extends[OF inv node refl i ls])
qed

lemma merge_to_inv:
  assumes "pipe_inv w P" "fresh w (if b then KTransform else KSink) node" "distinct ord" "ord \<noteq> []"
    "merge_to b node ord w P = (Returned i, w', P')"
  shows "pipe_inv w' P'"
proof -
  obtain node' P1 where c: "nodes P (GetId node) = None" "set ord \<subseteq> leaves P"
    "link_all (next_queue (wheap w)) ord node P = Some (node', P1)"
    and w': "w' = w\<lparr>wheap := snd (make_queue (channel_size P) (wheap w))\<rparr>"
    and P': "P' = P1\<lparr>nodes := map_insert (GetId node) node' (nodes P1),
        leaves := leaves P1 - set ord \<union> (if b then {GetId node} else {})\<rparr>"
    using assms(5)
    by (auto simp: merge_to_def Let_def new_node_check_def leaves_check_None[symmetric] make_queue_def
        split: option.splits if_splits)
  show ?thesis
    using link_all_inv[OF assms(1,2) _ c(1,2) assms(3,4) c(3) refl, of "channel_size P"]
    unfolding w' P' by (cases b) auto
qed

lemma merge_inv:
  assumes "pipe_inv w P" "fresh w (if b then KTransform else KSink) node" "distinct ord" "set ord = leaves P"
    "merge b node ord w P = (Returned i, w', P')"
  shows "pipe_inv w' P'"
proof -
  obtain node' P1 where c: "nodes P (GetId node) = None" "leaves P \<noteq> {}"
    "link_all (next_queue (wheap w)) ord node P = Some (node', P1)"
    and w': "w' = w\<lparr>wheap := snd (make_queue (channel_size P) (wheap w))\<rparr>"
    and P': "P' = P1\<lparr>nodes := map_insert (GetId node) node' (nodes P1),
        leaves := (if b then {GetId node} else {})\<rparr>"
    using assms(5)
    by (auto simp: merge_def Let_def new_node_check_def make_queue_def split: option.splits if_splits)
  have "set ord \<subseteq> leaves P" "ord \<noteq> []" using assms(4) c(2) by auto
  then show ?thesis
    using link_all_inv[OF assms(1,2) _ c(1) _ assms(3) _ c(3) refl, of "channel_size P"] assms(4)
    unfolding w' P' by (cases b) auto
qed

lemma SetSink_inv:
  assumes "pipe_inv w P" "fresh w KSink node" "distinct ord" "set ord = leaves P"
    "SetSink node ord w P = (Returned i, w', P')"
  shows "pipe_inv w' P'"
  using assms merge_inv[of w P False node ord]
  by (auto simp: SetSink_def register_sink_def split: prod.splits outcome.splits)

lemma SetSink_to_inv:
  assumes "pipe_inv w P" "fresh w KSink node" "distinct ord" "ord \<noteq> []"
    "SetSink_to node ord w P = (Returned i, w', P')"
  shows "pipe_inv w' P'"
  using assms merge_to_inv[of w P False node ord]
  by (auto simp: SetSink_to_def register_sink_def split: prod.splits outcome.splits)

lemma make_node_fresh:
  assumes "make_node tr c nm w = (p, w')" "Suc (next_id w) < 2 ^ 64"
  shows "fresh w' (kind_of c) p" "w' = w\<lparr>next_id := Suc (next_id w)\<rparr>" "p = Processor tr c nm (next_id w)"
proof -
  show p: "p = Processor tr c nm (next_id w)" and w': "w' = w\<lparr>next_id := Suc (next_id w)\<rparr>"
    using assms by (auto simp: make_node_def GenerateId_def)
  show "fresh w' (kind_of c) p" unfolding fresh_def
    by (intro exI[of _ tr] exI[of _ c] exI[of _ nm] exI[of _ "next_id w"]) (simp add: p w')
qed

lemma Merge_noop_inv:
  fixes P :: "('v, 's) pipeline"
  assumes "pipe_inv w P" "Suc (next_id w) < 2 ^ 64" "distinct ord" "set ord = leaves P"
    "Merge_noop tr ord w P = (Returned i, w', P')"
  shows "pipe_inv w' P'"
proof -
  obtain p :: "('v, 's) processor" and w1 where n: "make_node tr NoOpTransformC ''no_op'' w = (p, w1)" by force
  note f = make_node_fresh[OF n assms(2)]
  have "pipe_inv w1 P" using pipe_inv_later[OF assms(1), of "Suc (next_id w)"] f(2) by simp
  then show ?thesis using merge_inv[of w1 P True p ord] assms f(1) n by (simp add: Merge_noop_def)
qed

lemma Merge_noop_to_inv:
  fixes P :: "('v, 's) pipeline"
  assumes "pipe_inv w P" "Suc (next_id w) < 2 ^ 64" "distinct ord" "ord \<noteq> []"
    "Merge_noop_to tr ord w P = (Returned i, w', P')"
  shows "pipe_inv w' P'"
proof -
  obtain p :: "('v, 's) processor" and w1 where n: "make_node tr NoOpTransformC ''no_op'' w = (p, w1)" by force
  note f = make_node_fresh[OF n assms(2)]
  have "pipe_inv w1 P" using pipe_inv_later[OF assms(1), of "Suc (next_id w)"] f(2) by simp
  then show ?thesis using merge_to_inv[of w1 P True p ord] assms f(1) n by (simp add: Merge_noop_to_def)
qed

text \<open>One transform after one leaf is the case of a single leaf.\<close>

lemma link_inv:
  assumes "pipe_inv w P" "fresh w KTransform node" "nodes P (GetId node) = None" "i \<in> leaves P"
    "link (connect_queue (next_queue (wheap w))) i node P = Some (node', P1)"
    "ls' = insert (GetId node) (leaves P - {i})"
  shows "pipe_inv (w\<lparr>wheap := snd (make_queue cs (wheap w))\<rparr>)
      (P1\<lparr>nodes := map_insert (GetId node) node' (nodes P1), leaves := ls'\<rparr>) \<and> leaves P1 = leaves P"
  using assms by (intro link_all_inv[of w P KTransform node "[i]"]) auto

lemma AddTransform_inv:
  assumes "pipe_inv w P" "fresh w KTransform node" "AddTransform leaf node w P = (Returned i, w', P')"
  shows "pipe_inv w' P'"
proof -
  obtain node' P1 where c: "nodes P (GetId node) = None" "leaf \<in> leaves P"
    "link (connect_queue (next_queue (wheap w))) leaf node P = Some (node', P1)"
    and w': "w' = w\<lparr>wheap := snd (make_queue (channel_size P) (wheap w))\<rparr>"
    and P': "P' = P1\<lparr>nodes := map_insert (GetId node) node' (nodes P1),
        leaves := insert (GetId node) (leaves P1 - {leaf})\<rparr>"
    using assms(3)
    by (auto simp: AddTransform_def Let_def new_node_check_def leaf_check_def make_queue_def
        split: option.splits if_splits)
  show ?thesis
    using link_inv[OF assms(1,2) c refl, of "channel_size P"]
    unfolding w' P' by simp
qed

text \<open>
  What the user's \<open>creater\<close> does: it throws, or constructs a transform and returns it. It
  does not touch the queues of the pipeline.
\<close>

definition creater_ok :: "(nat \<Rightarrow> 'v world \<Rightarrow> ('v, 's) processor result \<times> 'v world) \<Rightarrow> bool" where
  "creater_ok creater \<longleftrightarrow>
     (\<forall>k w. case creater k w of
        (Inl e, w') \<Rightarrow> True
      | (Inr t, w') \<Rightarrow> (\<exists>tr c nm. t = Processor tr c nm (next_id w) \<and> kind_of c = KTransform) \<and>
          wheap w' = wheap w \<and> next_id w' = (next_id w + 1) mod 2 ^ 64)"

lemma creater_okD:
  assumes "creater_ok creater" "creater k w = (Inr t, w')"
  shows "pkind t = KTransform" "wheap w' = wheap w"
    "Suc (next_id w) < 2 ^ 64 \<Longrightarrow> fresh w' KTransform t \<and> next_id w' = Suc (next_id w)"
  using spec[OF spec[OF assms(1)[unfolded creater_ok_def], of k], of w] assms(2) by (auto simp: fresh_def)

lemma add_transforms_inv:
  assumes "creater_ok creater" "pipe_inv w (P\<lparr>leaves := set ls \<union> nl\<rparr>)" "distinct ls" "set ls \<inter> nl = {}"
    "add_transforms creater k ls nl w P = (Returned nl', w', P')" "next_id w + length ls < 2 ^ 64"
  shows "pipe_inv w' (P'\<lparr>leaves := nl'\<rparr>)"
  using assms(2-)
proof (induction ls arbitrary: k nl w P)
  case Nil
  then show ?case by simp
next
  case (Cons i ls)
  obtain t w1 where c: "creater k w = (Inr t, w1)"
    using Cons.prems(4) by (auto split: prod.splits sum.splits)
  let ?q = "next_queue (wheap w1)" and ?w2 = "w1\<lparr>wheap := snd (make_queue (channel_size P) (wheap w1))\<rparr>"
  have w1: "fresh w1 KTransform t" "wheap w1 = wheap w" "next_id w \<le> next_id w1"
    using creater_okD[OF assms(1) c] Cons.prems(5) by auto
  obtain t' P1 where l: "nodes P (GetId t) = None" "link (connect_queue ?q) i t P = Some (t', P1)"
    and rec: "add_transforms creater (Suc k) ls (insert (GetId t) nl) ?w2
        (P1\<lparr>nodes := map_insert (GetId t) t' (nodes P1)\<rparr>) = (Returned nl', w', P')"
    using Cons.prems(4) c
    by (auto simp: Let_def new_node_check_def make_queue_def split: option.splits if_splits)
  let ?P = "P\<lparr>leaves := insert i (set ls) \<union> nl\<rparr>"
  have inv1: "pipe_inv w1 ?P"
  proof -
    have "pipe_inv (w\<lparr>next_id := next_id w1\<rparr>) ?P"
      using pipe_inv_later[OF _ w1(3), of ?P] Cons.prems(1) by simp
    then show ?thesis using w1(2) pipe_inv_cong[of ?P ?P w1 "w\<lparr>next_id := next_id w1\<rparr>"] by simp
  qed
  have l': "link (connect_queue ?q) i t ?P = Some (t', P1\<lparr>leaves := insert i (set ls) \<union> nl\<rparr>)"
    using l(2) by (auto simp: link_def add_edge_def split: option.splits prod.splits)
  have "i \<notin> set ls" "i \<notin> nl" "insert i (set ls) \<union> nl \<subseteq> dom (nodes P)"
    using Cons.prems inv1 by (auto simp: pipe_inv_def)
  then have fresh_id: "GetId t \<notin> insert i (set ls) \<union> nl" using l(1) by auto
  have "pipe_inv ?w2 (P1\<lparr>nodes := map_insert (GetId t) t' (nodes P1), leaves := set ls \<union> insert (GetId t) nl\<rparr>)"
    using link_inv[OF inv1 w1(1) _ _ l', of "set ls \<union> insert (GetId t) nl" "channel_size P"]
      l(1) \<open>i \<notin> set ls\<close> \<open>i \<notin> nl\<close> by (simp add: insert_Diff_if Un_Diff)
  then show ?case
    using Cons.IH[OF _ _ _ rec] Cons.prems fresh_id creater_okD(3)[OF assms(1) c] by simp
qed

lemma AddTransform_each_inv:
  assumes "creater_ok creater" "pipe_inv w P" "distinct ord" "set ord = leaves P"
    "AddTransform_each creater ord w P = (Returned nl, w', P')" "next_id w + length ord < 2 ^ 64"
  shows "pipe_inv w' P'"
proof -
  obtain P1 where "add_transforms creater 0 ord {} w P = (Returned nl, w', P1)" "P' = P1\<lparr>leaves := nl\<rparr>"
    using assms(5) by (auto simp: AddTransform_each_def split: prod.splits outcome.splits)
  then show ?thesis using add_transforms_inv[where nl = "{}" and ls = ord and w = w and P = P, OF assms(1)] assms by simp
qed


section \<open>Splitting a leaf\<close>

abbreviation noop :: "'v traits \<Rightarrow> nat \<Rightarrow> nat \<Rightarrow> ('v, 's) processor" where
  "noop tr q i \<equiv> feed q (Suc 0) (Processor tr NoOpTransformC ''no_op'' i)"

definition add_outs :: "nat \<Rightarrow> nat \<Rightarrow> ('v, 's) processor \<Rightarrow> ('v, 's) processor" where
  "add_outs q n p = p\<lparr>outputs := outputs p @ map Channel_shared [q..<q + n]\<rparr>"

lemma add_outs_Suc: "add_outs (Suc q) n (AddOutputPort (Channel_shared q) p) = add_outs q (Suc n) p"
  by (simp add: add_outs_def AddOutputPort_def upt_conv_Cons del: upt_Suc)

lemma fan_out_spec:
  assumes "next_id w + n < 2 ^ 64" "\<forall>i \<in> {next_id w..<next_id w + n}. nodes P i = None"
    "\<forall>q. bq_queue (queue_at (wheap w) q) = []"
  shows "\<exists>w' P'. fan_out tr n node res w P =
      (add_outs (next_queue (wheap w)) n node, res \<union> {next_id w..<next_id w + n}, w', P') \<and>
    next_id w' = next_id w + n \<and> next_queue (wheap w') = next_queue (wheap w) + n \<and>
    (\<forall>q. bq_queue (queue_at (wheap w') q) = []) \<and>
    (\<forall>i. nodes P' i = (if i \<in> {next_id w..<next_id w + n}
        then Some (noop tr (next_queue (wheap w) + (i - next_id w)) i) else nodes P i)) \<and>
    edges P' = edges P \<union> {GetId node} \<times> {next_id w..<next_id w + n} \<and>
    leaves P' = leaves P \<and> same_setup P P'"
  using assms
proof (induction n arbitrary: node res w P)
  case 0
  then show ?case by (simp add: add_outs_def same_setup_def)
next
  case (Suc n)
  let ?i = "next_id w" and ?q = "next_queue (wheap w)"
  let ?w = "w\<lparr>next_id := Suc ?i, wheap := snd (make_queue (channel_size P) (wheap w))\<rparr>"
  let ?P = "(add_edge (GetId node) ?i P)\<lparr>nodes := (nodes P)(?i \<mapsto> noop tr ?q ?i)\<rparr>"
  let ?node = "AddOutputPort (Channel_shared ?q) node"
  have step: "fan_out tr (Suc n) node res w P = fan_out tr n ?node (insert ?i res) ?w ?P"
    using Suc.prems
    by (simp add: make_node_def GenerateId_def connect_multi_out_def make_queue_def map_insert_def GetId_def Let_def
        feed_SetInputPort[where n = 0, symmetric] feed_def[where n = 0])
  have "next_id ?w + n < 2 ^ 64" "\<forall>i \<in> {next_id ?w..<next_id ?w + n}. nodes ?P i = None"
    "\<forall>q. bq_queue (queue_at (wheap ?w) q) = []"
    using Suc.prems by (auto simp: BoundedQueue_def)
  from Suc.IH[OF this, of ?node "insert ?i res"] obtain w' P' where
    r: "fan_out tr n ?node (insert ?i res) ?w ?P =
      (add_outs (Suc ?q) n ?node, insert ?i res \<union> {Suc ?i..<Suc ?i + n}, w', P')"
    and w': "next_id w' = Suc ?i + n" "next_queue (wheap w') = Suc ?q + n"
      "\<forall>q. bq_queue (queue_at (wheap w') q) = []"
    and n': "\<forall>i. nodes P' i = (if i \<in> {Suc ?i..<Suc ?i + n}
        then Some (noop tr (Suc ?q + (i - Suc ?i)) i) else nodes ?P i)"
    and P': "edges P' = edges ?P \<union> {GetId ?node} \<times> {Suc ?i..<Suc ?i + n}"
      "leaves P' = leaves ?P" "same_setup ?P P'"
    by auto
  have nodes': "nodes P' i = (if i \<in> {?i..<?i + Suc n} then Some (noop tr (?q + (i - ?i)) i) else nodes P i)" for i
  proof (cases "i \<in> {Suc ?i..<Suc ?i + n}")
    case True
    then have "Suc ?q + (i - Suc ?i) = ?q + (i - ?i)" by auto
    with True n' show ?thesis by (simp add: Suc_le_eq del: One_nat_def)
  qed (use n' in \<open>auto simp: Suc_le_eq\<close>)
  have ids: "insert ?i {Suc ?i..<Suc ?i + n} = {?i..<?i + Suc n}" by auto
  have "GetId ?node = GetId node" by (simp add: GetId_def AddOutputPort_def)
  then have "edges P' = edges P \<union> {GetId node} \<times> {?i..<?i + Suc n}" using P'(1) ids by auto
  with step r w' P' nodes' ids show ?case
    by (intro exI[of _ w'] exI[of _ P']) (auto simp: add_outs_Suc same_setup_def)
qed


lemma add_outs_frame [simp]:
  "pc (add_outs q n p) = pc p" "processor_id (add_outs q n p) = processor_id p"
  "node_class (add_outs q n p) = node_class p" "inputs (add_outs q n p) = inputs p"
  "input_count (add_outs q n p) = input_count p" "length (outputs (add_outs q n p)) = length (outputs p) + n"
  "abort_port (add_outs q n p) = abort_port p"
  by (simp_all add: add_outs_def)

lemma split_node:
  assumes "kind_of c = KOneI n" "0 < n" and p_def: "p = add_outs q0 n (Processor tr c nm d)"
  shows "shape p" "outs_open p" "\<not> is_open p InPort" "writes_q p = {q0..<q0 + n}"
    "working_writes p q = (if q \<in> {q0..<q0 + n} then 1 else 0)" "input_count p = 0"
proof -
  have ch: "chan_queue p r = (case r of Outputs k \<Rightarrow> if k < n then Some (q0 + k) else None | _ \<Rightarrow> None)" for r
    by (cases r) (auto simp: p_def add_outs_def get_chan.simps Processor_def)
  have k: "pkind p = KOneI n" "length (outputs p) = n" using assms by (simp_all add: p_def)
  show "shape p" "outs_open p" "\<not> is_open p InPort"
    using assms ch k by (auto simp: shape_def outs_open_def p_def)
  have "q \<in> {q0..<q0 + n} \<Longrightarrow> \<exists>k<n. q = q0 + k" for q by (intro exI[of _ "q - q0"]) auto
  then show "writes_q p = {q0..<q0 + n}" unfolding writes_q_def k ch by fastforce
  have "(\<Sum>k<n. if q0 + k = q then 1 else 0) = (if q \<in> {q0..<q0 + n} then 1 else (0::nat))"
  proof (cases "q0 \<le> q")
    case True
    then have "q0 + k = q \<longleftrightarrow> k = q - q0" for k by auto
    then show ?thesis using True by (auto simp: less_diff_conv2)
  qed auto
  then show "working_writes p q = (if q \<in> {q0..<q0 + n} then 1 else 0)"
    unfolding working_writes_def ch k by simp
  have "c \<noteq> ChannelSourceC" using assms(1) by auto
  then show "input_count p = 0" by (simp add: p_def)
qed

lemma noop_node:
  fixes p :: "('v, 's) processor"
  assumes "p = noop tr q i"
  shows "shape p" "ins_open p" "leaf_ok p" "reads_q p = {q}" "writes_q p = {}"
    "working_reads p q' = (if q' = q then 1 else 0)" "working_writes p q' = 0"
  using feed_node[of "Suc 0" "Processor tr NoOpTransformC ''no_op'' i :: ('v, 's) processor" q]
    fresh_node[of "NoOpTransformC :: ('v, 's) node_class" tr "''no_op''" i] assms
  by simp_all

lemma sum_noops:
  "(\<Sum>i\<in>{a..<a + n}. if q = b + (i - a) then 1 else 0) = (if q \<in> {b..<b + n} then 1 else (0::nat))"
  for a b n q :: nat
proof (cases "b \<le> q")
  case True
  then have "(\<Sum>i\<in>{a..<a + n}. if q = b + (i - a) then 1 else 0) = (\<Sum>i\<in>{a..<a + n}. if i = a + (q - b) then 1 else (0::nat))"
    by (intro sum.cong) auto
  then show ?thesis using True by (auto simp: less_diff_conv2)
qed auto

lemma split_extends:
  assumes inv: "pipe_inv w P" and leaf: "leaf \<in> leaves P" and node: "fresh w (KOneI n) node" "0 < n"
    and d: "d = GetId node" "nodes P d = None"
    and I: "I = {m..<m + n}" "\<forall>i \<in> I. nodes P i = None" "d \<notin> I" "next_id w \<le> m + n" "next_id w' = m + n"
    and q0: "q0 = next_queue (wheap w)" "next_queue (wheap w') = Suc (q0 + n)"
      "\<forall>q. bq_queue (queue_at (wheap w') q) = []"
    and P': "\<forall>i. nodes P' i =
        (if i = d then Some (feed (q0 + n) (Suc 0) (add_outs q0 n node))
         else if i \<in> I then Some (noop tr (q0 + (i - m)) i)
         else if i = leaf then map_option (give_out (q0 + n)) (nodes P i) else nodes P i)"
      "edges P' = edges P \<union> {d} \<times> I \<union> {(leaf, d)}" "leaves P' = leaves P - {leaf} \<union> I"
  shows "pipe_inv w' P'"
proof -
  obtain tr' c nm where n: "node = Processor tr' c nm d" "kind_of c = KOneI n" "d < next_id w"
    using node d by (auto simp: fresh_def GetId_def)
  let ?s = "feed (q0 + n) (Suc 0) (add_outs q0 n node)"
  note sn = split_node[OF n(2) node(2) refl, of q0 tr' nm d]
  have s: "shape ?s" "ins_open ?s" "outs_open ?s" "reads_q ?s = {q0 + n}" "writes_q ?s = {q0..<q0 + n}"
    "\<And>q. working_reads ?s q = (if q = q0 + n then 1 else 0)"
    "\<And>q. working_writes ?s q = (if q \<in> {q0..<q0 + n} then 1 else 0)"
    using feed_node[of "Suc 0" "add_outs q0 n node" "q0 + n"] sn n by simp_all
  have leaf_dom: "leaf \<in> dom (nodes P)" using leaf inv by (auto simp: pipe_inv_def)
  then have dl: "d \<noteq> leaf" "leaf \<notin> I" using d I(2) by auto
  have Pd: "nodes P' d = Some ?s" and PI: "\<And>i. i \<in> I \<Longrightarrow> nodes P' i = Some (noop tr (q0 + (i - m)) i)"
    using P'(1) I(3) by auto
  have dom': "dom (nodes P') = dom (nodes P) \<union> insert d I"
    using P'(1) leaf_dom by (auto split: if_splits)
  have finI: "finite I" using I(1) by simp
  have "extends w P w' P' {leaf} (\<lambda>_. q0 + n) (insert d I) I (\<lambda>i. if i = d then 0 else 1)"
    unfolding extends_def
  proof (intro conjI)
    show "\<forall>i p. nodes P i = Some p \<longrightarrow> nodes P' i = Some (if i \<in> {leaf} then give_out (q0 + n) p else p)"
      using P'(1) d(2) I(2) dl by auto
    show "\<forall>j p. j \<in> insert d I \<longrightarrow> nodes P' j = Some p \<longrightarrow>
        node_ok w' j p \<and> role_ok I j p \<and> (\<forall>q\<in>reads_q p \<union> writes_q p. next_queue (wheap w) \<le> q)"
    proof (intro allI impI)
      fix j p assume j: "j \<in> insert d I" "nodes P' j = Some p"
      show "node_ok w' j p \<and> role_ok I j p \<and> (\<forall>q\<in>reads_q p \<union> writes_q p. next_queue (wheap w) \<le> q)"
      proof (cases "j = d")
        case True
        then have p: "p = ?s" using j Pd by simp
        have "node_ok w' d ?s" using s n q0 I by (auto simp: node_ok_def GetId_def)
        moreover have "\<forall>q\<in>reads_q ?s \<union> writes_q ?s. next_queue (wheap w) \<le> q" using s(4,5) q0 by auto
        ultimately show ?thesis using s(3) I(3) True p by (simp add: role_ok_def)
      next
        case False
        then have p: "p = noop tr (q0 + (j - m)) j" and jI: "j \<in> I" using j PI by auto
        note nn = noop_node[OF p]
        have "node_ok w' j p" using nn jI q0 I(1,5) p by (auto simp: node_ok_def GetId_def)
        then show ?thesis using nn jI q0 by (simp add: role_ok_def)
      qed
    qed
    show "\<forall>q\<ge>next_queue (wheap w). (\<Sum>i\<in>{leaf}. if q0 + n = q then 1 else 0) +
        (\<Sum>j\<in>insert d I. node_sum working_writes P' q j) = (\<Sum>j\<in>insert d I. node_sum working_reads P' q j)"
    proof (intro allI impI)
      fix q
      have "(\<Sum>j\<in>I. node_sum working_writes P' q j) = 0"
        using PI by (intro sum_zero_on) (simp add: noop_node(7)[OF refl])
      moreover have "(\<Sum>j\<in>I. node_sum working_reads P' q j) = (\<Sum>i\<in>I. if q = q0 + (i - m) then 1 else 0)"
        using PI by (intro sum.cong) (simp_all add: noop_node(6)[OF refl])
      ultimately show "(\<Sum>i\<in>{leaf}. if q0 + n = q then 1 else 0) +
        (\<Sum>j\<in>insert d I. node_sum working_writes P' q j) = (\<Sum>j\<in>insert d I. node_sum working_reads P' q j)"
        using Pd s(6,7) finI I(3) sum_noops[of q q0 m n] unfolding I(1) by simp
    qed
    show "edges P' = edges P \<union> {(i, j). i \<in> {leaf} \<and> j \<in> insert d I \<and> q0 + n \<in> node_set reads_q P' j} \<union>
       {(i, j). i \<in> insert d I \<and> j \<in> insert d I \<and> node_set writes_q P' i \<inter> node_set reads_q P' j \<noteq> {}}"
    proof -
      have "{(i, j). i \<in> {leaf} \<and> j \<in> insert d I \<and> q0 + n \<in> node_set reads_q P' j} = {(leaf, d)}"
        using Pd PI s(4) I(1) by (auto simp: noop_node(4)[OF refl])
      moreover have "{(i, j). i \<in> insert d I \<and> j \<in> insert d I \<and>
          node_set writes_q P' i \<inter> node_set reads_q P' j \<noteq> {}} = {d} \<times> I"
        using Pd PI s(4,5) I(1,3) by (auto simp: noop_node(4,5)[OF refl])
      ultimately show ?thesis using P'(2) by auto
    qed
    show "\<forall>i\<in>insert d I. \<forall>j\<in>insert d I. node_set writes_q P' i \<inter> node_set reads_q P' j \<noteq> {} \<longrightarrow>
        (if i = d then 0 else 1) < (if j = d then 0 else (1::nat))"
      using Pd PI s(4,5) I(3) by (auto simp: noop_node(4,5)[OF refl])
  qed (use dom' leaf P'(3) d(2) I q0 finI in auto)
  then show ?thesis using inv extends_inv by blast
qed

lemma pipe_inv_unused: "pipe_inv w P \<Longrightarrow> next_id w \<le> i \<Longrightarrow> nodes P i = None"
  unfolding pipe_inv_def node_ok_def by (metis leD not_None_eq)

lemma split_inv:
  assumes inv: "pipe_inv w P" and leaf: "leaf \<in> leaves P" and node: "fresh w (KOneI n) node" "0 < n"
    and d: "nodes P (GetId node) = None" and wrap: "next_id w + n < 2 ^ 64"
    and fan: "fan_out tr n node {} w P = (node', res, w1, P1)"
    and att: "attach_split leaf node' res w1 P1 = (Returned r, w', P')"
  shows "pipe_inv w' P'"
proof -
  let ?I = "{next_id w..<next_id w + n}" and ?q = "next_queue (wheap w)" and ?d = "GetId node"
  have unused: "\<forall>i \<in> ?I. nodes P i = None" using pipe_inv_unused[OF inv] by auto
  have "\<forall>q. bq_queue (queue_at (wheap w) q) = []" using inv by (simp add: pipe_inv_def)
  from fan_out_spec[OF wrap unused this, of tr node "{}"] fan
  have f: "node' = add_outs ?q n node" "res = ?I" "next_id w1 = next_id w + n"
    "next_queue (wheap w1) = ?q + n" "\<forall>q. bq_queue (queue_at (wheap w1) q) = []"
    "\<forall>i. nodes P1 i = (if i \<in> ?I then Some (noop tr (?q + (i - next_id w)) i) else nodes P i)"
    "edges P1 = edges P \<union> {?d} \<times> ?I" "leaves P1 = leaves P" by auto
  have d_lt: "?d < next_id w" using node by (auto simp: fresh_def GetId_def)
  have "leaf \<in> dom (nodes P)" using leaf inv by (auto simp: pipe_inv_def)
  then obtain p where p: "nodes P leaf = Some p" "leaf \<notin> ?I" "leaf \<noteq> ?d"
    using d unused by fastforce
  then have p1: "nodes P1 leaf = Some p" using f(6) by auto
  let ?h = "snd (make_queue (channel_size P1) (wheap w1))"
  have "GetId node' = ?d" using f(1) by (simp add: GetId_def)
  then have P': "w' = w1\<lparr>wheap := ?h\<rparr>"
    "P' = (add_edge leaf ?d (P1\<lparr>nodes := (nodes P1)(leaf \<mapsto> give_out (?q + n) p)\<rparr>))
       \<lparr>leaves := leaves P1 - {leaf} \<union> ?I,
        nodes := map_insert ?d (feed (?q + n) (Suc 0) node') ((nodes P1)(leaf \<mapsto> give_out (?q + n) p))\<rparr>"
    using att link_queue[OF p1, of "?q + n" node'] f(2,4) feed_SetInputPort[of "?q + n" 0 node']
    by (auto simp: attach_split_def Let_def make_queue_def feed_def[where n = 0])
  have "nodes P1 ?d = None" using f(6) d d_lt by simp
  then have nodes': "nodes P' i =
      (if i = ?d then Some (feed (?q + n) (Suc 0) (add_outs ?q n node))
       else if i \<in> ?I then Some (noop tr (?q + (i - next_id w)) i)
       else if i = leaf then map_option (give_out (?q + n)) (nodes P i) else nodes P i)" for i
    using P'(2) f(1,6) p by (auto simp: map_insert_def)
  show ?thesis
  proof (rule split_extends[OF inv leaf node refl d refl unused])
    show "?d \<notin> ?I" using d_lt by simp
    show "next_queue (wheap w') = Suc (?q + n)" "next_id w' = next_id w + n"
      "\<forall>q. bq_queue (queue_at (wheap w') q) = []"
      using P'(1) f(3,4) make_queue_empty[OF f(5)] by simp_all
    show "edges P' = edges P \<union> {?d} \<times> ?I \<union> {(leaf, ?d)}" using P'(2) f(7) by simp
  qed (use nodes' P' f in auto)
qed

lemma DispatchFrom_inv:
  assumes "pipe_inv w P" "fresh w (KOneI n) node" "0 < n" "nodes P (GetId node) = None"
    "next_id w + n < 2 ^ 64" "DispatchFrom tr leaf node w P = (Returned r, w', P')"
  shows "pipe_inv w' P'"
proof -
  have n: "class_size (node_class node) = n"
    using assms(2) by (auto simp: fresh_def elim!: kind_of.elims split: base_class.splits)
  obtain node' res w1 P1 where f: "fan_out tr n node {} w P = (node', res, w1, P1)" by (metis prod_cases4)
  have "leaf \<in> leaves P" "attach_split leaf node' res w1 P1 = (Returned r, w', P')"
    using assms(6) f n by (auto simp: DispatchFrom_def leaf_check_def split: if_splits)
  then show ?thesis using split_inv[OF assms(1) _ assms(2-5) f] by blast
qed

lemma ForkFrom_inv:
  fixes P :: "('v, 's) pipeline"
  assumes "pipe_inv w P" "next_id w + sz + 1 < 2 ^ 64" "ForkFrom tr leaf sz w P = (Returned r, w', P')"
  shows "pipe_inv w' P'"
proof -
  obtain node :: "('v, 's) processor" and w1 where n: "make_node tr (ForkC sz) ''fork'' w = (node, w1)" by force
  have "Suc (next_id w) < 2 ^ 64" using assms(2) by simp
  note f = make_node_fresh[OF n this]
  have inv1: "pipe_inv w1 P" using pipe_inv_later[OF assms(1), of "Suc (next_id w)"] f(2) by simp
  obtain node' res w2 P1 where fan: "fan_out tr sz node {} w1 P = (node', res, w2, P1)" by (metis prod_cases4)
  have leaf: "leaf \<in> leaves P" "0 < sz" "attach_split leaf node' res w2 P1 = (Returned r, w', P')"
    using assms(3) n fan by (auto simp: ForkFrom_def leaf_check_def split: if_splits)
  have "GetId node = next_id w" using f(3) by (simp add: GetId_def)
  then have "nodes P (GetId node) = None" using pipe_inv_unused[OF assms(1)] by simp
  moreover have "next_id w1 + sz < 2 ^ 64" using f(2) assms(2) by simp
  moreover have "fresh w1 (KOneI sz) node" using f(1) by simp
  ultimately show ?thesis using split_inv[OF inv1 leaf(1) _ leaf(2) _ _ fan leaf(3)] by blast
qed


section \<open>Concatenating leaves\<close>

definition add_ins :: "nat \<Rightarrow> nat \<Rightarrow> ('v, 's) processor \<Rightarrow> ('v, 's) processor" where
  "add_ins q n p = p\<lparr>inputs := inputs p @ map Channel_shared [q..<q + n]\<rparr>"

lemma add_ins_Suc: "add_ins (Suc q) n (AddInputPort (Channel_shared q) p) = add_ins q (Suc n) p"
  by (simp add: add_ins_def AddInputPort_def upt_conv_Cons del: upt_Suc)

text \<open>The position of a leaf in the argument list decides its queue.\<close>

fun index_of :: "nat list \<Rightarrow> nat \<Rightarrow> nat" where
  "index_of [] i = 0"
| "index_of (x # xs) i = (if x = i then 0 else Suc (index_of xs i))"

lemma index_of_less: "i \<in> set ls \<Longrightarrow> index_of ls i < length ls"
  by (induction ls) auto

lemma sum_index_of:
  "distinct ls \<Longrightarrow> (\<Sum>i\<in>set ls. if b + index_of ls i = q then 1 else 0) =
    (if q \<in> {b..<b + length ls} then 1 else (0::nat))"
proof (induction ls arbitrary: b)
  case (Cons x ls)
  have "(\<Sum>i\<in>set ls. if b + index_of (x # ls) i = q then 1 else (0::nat)) =
      (\<Sum>i\<in>set ls. if Suc b + index_of ls i = q then 1 else 0)"
    using Cons.prems by (intro sum.cong) auto
  also have "\<dots> = (if q \<in> {Suc b..<Suc b + length ls} then 1 else 0)"
    using Cons.prems by (intro Cons.IH) simp
  finally have "(\<Sum>i\<in>set (x # ls). if b + index_of (x # ls) i = q then 1 else (0::nat)) =
      (if b = q then 1 else 0) + (if q \<in> {Suc b..<Suc b + length ls} then 1 else 0)"
    using Cons.prems by simp
  then show ?case by (auto simp del: index_of.simps)
qed simp

lemma link_each_spec:
  assumes "set ls \<subseteq> dom (nodes P)" "distinct ls" "\<forall>q. bq_queue (queue_at (wheap w) q) = []"
  shows "\<exists>w' P'. link_each ls node w P = Some (add_ins (next_queue (wheap w)) (length ls) node, w', P') \<and>
    next_id w' = next_id w \<and> next_queue (wheap w') = next_queue (wheap w) + length ls \<and>
    (\<forall>q. bq_queue (queue_at (wheap w') q) = []) \<and>
    (\<forall>i. nodes P' i = (if i \<in> set ls
        then map_option (give_out (next_queue (wheap w) + index_of ls i)) (nodes P i) else nodes P i)) \<and>
    edges P' = edges P \<union> set ls \<times> {GetId node} \<and> leaves P' = leaves P - set ls \<and> same_setup P P'"
  using assms
proof (induction ls arbitrary: node w P)
  case Nil
  then show ?case by (simp add: add_ins_def same_setup_def)
next
  case (Cons i ls)
  let ?q = "next_queue (wheap w)" and ?w = "w\<lparr>wheap := snd (make_queue (channel_size P) (wheap w))\<rparr>"
  obtain p where p: "nodes P i = Some p" using Cons.prems by auto
  let ?node = "AddInputPort (Channel_shared ?q) node"
  let ?P = "(add_edge i (GetId node) (P\<lparr>nodes := (nodes P)(i \<mapsto> give_out ?q p)\<rparr>))\<lparr>leaves := leaves P - {i}\<rparr>"
  have step: "link_each (i # ls) node w P = link_each ls ?node ?w ?P"
    using p by (simp add: link_def make_queue_def)
  have "set ls \<subseteq> dom (nodes ?P)" "distinct ls" "\<forall>q. bq_queue (queue_at (wheap ?w) q) = []"
    using Cons.prems by (auto simp: BoundedQueue_def)
  from Cons.IH[OF this, of ?node] obtain w' P' where
    r: "link_each ls ?node ?w ?P = Some (add_ins (Suc ?q) (length ls) ?node, w', P')"
    and w': "next_id w' = next_id w" "next_queue (wheap w') = Suc ?q + length ls"
      "\<forall>q. bq_queue (queue_at (wheap w') q) = []"
    and n': "\<forall>j. nodes P' j = (if j \<in> set ls
        then map_option (give_out (Suc ?q + index_of ls j)) (nodes ?P j) else nodes ?P j)"
    and P': "edges P' = edges ?P \<union> set ls \<times> {GetId ?node}" "leaves P' = leaves ?P - set ls" "same_setup ?P P'"
    by auto
  have nodes': "nodes P' j = (if j \<in> set (i # ls)
      then map_option (give_out (?q + index_of (i # ls) j)) (nodes P j) else nodes P j)" for j
    using n' Cons.prems(2) p by auto
  have "GetId ?node = GetId node" by (simp add: GetId_def AddInputPort_def)
  then have "edges P' = edges P \<union> set (i # ls) \<times> {GetId node}" "leaves P' = leaves P - set (i # ls)"
    using P'(1,2) by auto
  with step r w' P'(3) nodes' show ?case
    by (intro exI[of _ w'] exI[of _ P']) (auto simp: add_ins_Suc same_setup_def)
qed

lemma concat_node:
  assumes "p = add_ins q0 n (Processor tr (ConcatC n) nm d)"
  shows "shape p" "ins_open p" "leaf_ok p" "reads_q p = {q0..<q0 + n}" "writes_q p = {}"
    "working_reads p q = (if q \<in> {q0..<q0 + n} then 1 else 0)" "working_writes p q = 0"
    "pkind p = KMulti n"
proof -
  have ch: "chan_queue p r = (case r of Inputs k \<Rightarrow> if k < n then Some (q0 + k) else None | _ \<Rightarrow> None)" for r
    using assms by (cases r) (auto simp: add_ins_def get_chan.simps Processor_def)
  have k: "pkind p = KMulti n" "length (inputs p) = n" "length (outputs p) = 0"
    using assms by (simp_all add: add_ins_def)
  then show "pkind p = KMulti n" by simp
  show "shape p" "ins_open p" "leaf_ok p" "writes_q p = {}" "working_writes p q = 0"
    using ch k by (auto simp: shape_def ins_open_def leaf_ok_def writes_q_def working_writes_def)
  have "q \<in> {q0..<q0 + n} \<Longrightarrow> \<exists>k<n. q = q0 + k" for q by (intro exI[of _ "q - q0"]) auto
  then show "reads_q p = {q0..<q0 + n}" unfolding reads_q_def k ch by fastforce
  have "(\<Sum>k<n. if q0 + k = q then 1 else 0) = (if q \<in> {q0..<q0 + n} then 1 else (0::nat))"
    using sum_noops[of q q0 0 n] by (simp add: atLeast0LessThan eq_commute[of q])
  then show "working_reads p q = (if q \<in> {q0..<q0 + n} then 1 else 0)"
    unfolding working_reads_def ch k by simp
qed

lemma ConcatFrom_inv:
  fixes P :: "('v, 's) pipeline"
  assumes inv: "pipe_inv w P" and wrap: "Suc (next_id w) < 2 ^ 64" and "distinct ls"
    and run: "ConcatFrom tr ls w P = (Returned d, w', P')"
  shows "pipe_inv w' P'"
proof -
  let ?q = "next_queue (wheap w)" and ?n = "length ls"
  obtain node :: "('v, 's) processor" and w1 where n: "make_node tr (ConcatC ?n) ''concat'' w = (node, w1)" by force
  note f = make_node_fresh[OF n wrap]
  have ls: "set ls \<subseteq> leaves P"
    using run by (auto simp: ConcatFrom_def leaves_check_None[symmetric] split: option.splits)
  then have ls_dom: "set ls \<subseteq> dom (nodes P)" using inv by (auto simp: pipe_inv_def)
  have "\<forall>q. bq_queue (queue_at (wheap w1) q) = []" using inv f(2) by (simp add: pipe_inv_def)
  from link_each_spec[OF ls_dom assms(3) this, of node] obtain w2 P1 where
    l: "link_each ls node w1 P = Some (add_ins ?q ?n node, w2, P1)"
    and w2: "next_id w2 = Suc (next_id w)" "next_queue (wheap w2) = ?q + ?n" "\<forall>q. bq_queue (queue_at (wheap w2) q) = []"
    and n1: "\<forall>i. nodes P1 i = (if i \<in> set ls then map_option (give_out (?q + index_of ls i)) (nodes P i) else nodes P i)"
    and P1: "edges P1 = edges P \<union> set ls \<times> {GetId node}" "leaves P1 = leaves P - set ls"
    using f(2) by auto
  let ?p = "add_ins ?q ?n node" and ?d = "next_id w"
  have d: "GetId node = ?d" "nodes P ?d = None" "?d \<notin> set ls"
    using f(3) pipe_inv_unused[OF inv] ls_dom by (auto simp: GetId_def)
  have P': "w' = w2" "P' = P1\<lparr>leaves := insert ?d (leaves P1), nodes := map_insert ?d ?p (nodes P1)\<rparr>"
    using run n l d(1) by (auto simp: ConcatFrom_def Let_def split: option.splits if_splits)
  have nodes': "nodes P' i = (if i = ?d then Some ?p
      else if i \<in> set ls then map_option (give_out (?q + index_of ls i)) (nodes P i) else nodes P i)" for i
    using P' n1 d by (auto simp: map_insert_def)
  note c = concat_node[of ?p ?q ?n tr "''concat''" ?d, OF arg_cong[OF f(3)]]
  have Pd: "nodes P' ?d = Some ?p" using nodes' by simp
  have "extends w P w' P' (set ls) (\<lambda>i. ?q + index_of ls i) {?d} {?d} (\<lambda>_. 0)"
    unfolding extends_def
  proof (intro conjI)
    show "dom (nodes P') = dom (nodes P) \<union> {?d}" using nodes' ls_dom by (auto split: if_splits)
    show "\<forall>i p. nodes P i = Some p \<longrightarrow> nodes P' i = Some (if i \<in> set ls then give_out (?q + index_of ls i) p else p)"
      using nodes' d(2) by auto
    show "\<forall>j p. j \<in> {?d} \<longrightarrow> nodes P' j = Some p \<longrightarrow>
        node_ok w' j p \<and> role_ok {?d} j p \<and> (\<forall>q\<in>reads_q p \<union> writes_q p. next_queue (wheap w) \<le> q)"
      using Pd c w2 P'(1) f(3) by (auto simp: node_ok_def role_ok_def GetId_def add_ins_def)
    show "\<forall>q\<ge>next_queue (wheap w). (\<Sum>i\<in>set ls. if ?q + index_of ls i = q then 1 else 0) +
        (\<Sum>j\<in>{?d}. node_sum working_writes P' q j) = (\<Sum>j\<in>{?d}. node_sum working_reads P' q j)"
      using Pd c(6,7) sum_index_of[OF assms(3), of ?q] by simp
    show "edges P' = edges P \<union> {(i, j). i \<in> set ls \<and> j \<in> {?d} \<and> ?q + index_of ls i \<in> node_set reads_q P' j} \<union>
       {(i, j). i \<in> {?d} \<and> j \<in> {?d} \<and> node_set writes_q P' i \<inter> node_set reads_q P' j \<noteq> {}}"
      using Pd c(4,5) P1(1) P'(2) d(1) index_of_less by (auto simp: node_set_def)
  qed (use ls P' P1 w2 Pd c(5) index_of_less d in auto)
  then show ?thesis using inv extends_inv by blast
qed

end
