(* ===== verification/Pipeline_Roles.thy ===== *)
theory Pipeline_Roles
  imports Pipeline_Inv
begin

text \<open>
  The members \<^verbatim>\<open>sources_\<close> and \<^verbatim>\<open>sinks_\<close> of a pipeline list exactly its sources and sinks, once
  each, and \<^verbatim>\<open>dags_\<close> has no entry without a successor: an invariant of the builder.
\<close>

section \<open>Kinds of the stored nodes\<close>

definition kind_at :: "('v, 's) pipeline \<Rightarrow> nat \<Rightarrow> kind option" where
  "kind_at P i = map_option (\<lambda>p. pkind p) (nodes P i)"

definition roles_ok :: "('v, 's) pipeline \<Rightarrow> bool" where
  "roles_ok P \<longleftrightarrow>
     distinct (sources P) \<and> (\<forall>i. i \<in> set (sources P) \<longleftrightarrow> kind_at P i = Some KSource) \<and>
     distinct (sinks P) \<and> (\<forall>i. i \<in> set (sinks P) \<longleftrightarrow> kind_at P i = Some KSink) \<and>
     {} \<notin> ran (dags P)"

text \<open>
  What a step of the builder may do: it keeps the kinds of the nodes there are and adds nodes of the
  kinds \<open>K\<close> only.
\<close>

definition grows :: "kind set \<Rightarrow> ('v, 's) pipeline \<Rightarrow> ('v, 's) pipeline \<Rightarrow> bool" where
  "grows K P P' \<longleftrightarrow>
     sources P' = sources P \<and> sinks P' = sinks P \<and>
     (\<forall>i. kind_at P' i = kind_at P i \<or> kind_at P i = None \<and> kind_at P' i \<in> Some ` K) \<and>
     ({} \<notin> ran (dags P) \<longrightarrow> {} \<notin> ran (dags P'))"

lemma kind_at_None: "kind_at P i = None \<longleftrightarrow> nodes P i = None"
  by (simp add: kind_at_def)

lemma grows_refl [simp]: "grows K P P"
  by (auto simp: grows_def)

lemma grows_trans [trans]:
  assumes "grows K P P1" "grows K P1 P2"
  shows "grows K P P2"
proof -
  have "kind_at P2 i = kind_at P i \<or> kind_at P i = None \<and> kind_at P2 i \<in> Some ` K" for i
    using assms unfolding grows_def by (metis (no_types, lifting))
  then show ?thesis using assms by (simp add: grows_def)
qed

lemma grows_leaves [simp]: "grows K P (P'\<lparr>leaves := S\<rparr>) = grows K P P'"
  "grows K (P\<lparr>leaves := S\<rparr>) P' = grows K P P'"
  by (simp_all add: grows_def kind_at_def)

lemma grows_insert: "pkind p \<in> K \<Longrightarrow> grows K P (P\<lparr>nodes := map_insert i p (nodes P)\<rparr>)"
  by (auto simp: grows_def kind_at_def map_insert_def)

lemma grows_add_edge: "grows K P (add_edge i j P)"
  by (auto simp: grows_def kind_at_def add_edge_def ran_def)

lemma grows_update: "map_option (\<lambda>p. pkind p) (nodes P i) = Some (pkind p) \<Longrightarrow> grows K P (P\<lparr>nodes := (nodes P)(i \<mapsto> p)\<rparr>)"
  by (auto simp: grows_def kind_at_def)

lemma roles_grow:
  assumes "roles_ok P" "grows K P P'" "KSource \<notin> K" "KSink \<notin> K"
  shows "roles_ok P'"
proof -
  have "kind_at P' i = Some k \<longleftrightarrow> kind_at P i = Some k" if "k \<notin> K" for i k
    using assms(2) that unfolding grows_def by (metis image_iff option.distinct(1) option.inject)
  then show ?thesis using assms by (simp add: roles_ok_def grows_def)
qed

section \<open>The operations\<close>

lemma link_grows:
  assumes "link conn i node P = Some (node', P')" "\<And>a b. pkind (fst (conn a b)) = pkind a"
    "\<And>a b. pkind (snd (conn a b)) = pkind b"
  shows "pkind node' = pkind node \<and> grows K P P'"
proof -
  obtain p where p: "nodes P i = Some p" "node' = snd (conn p node)"
    "P' = add_edge i (GetId node) (P\<lparr>nodes := (nodes P)(i \<mapsto> fst (conn p node))\<rparr>)"
    using assms(1) by (auto simp: link_def split: option.splits prod.splits)
  have "grows K P (P\<lparr>nodes := (nodes P)(i \<mapsto> fst (conn p node))\<rparr>)"
    using p(1) assms(2) by (intro grows_update) simp
  also have "grows K \<dots> P'" unfolding p(3) by (rule grows_add_edge)
  finally show ?thesis using p(2) assms(3) by simp
qed

lemma kind_SetInputPort [simp]: "node_class (SetInputPort c p) = node_class p"
  "node_class (AddInputPort c p) = node_class p" "node_class (AddOutputPort c p) = node_class p"
  by (simp_all add: SetInputPort_def AddInputPort_def AddOutputPort_def)

lemma connect_queue_grows:
  "link (connect_queue q) i node P = Some (node', P') \<Longrightarrow> pkind node' = pkind node \<and> grows K P P'"
  by (erule link_grows) (simp_all add: connect_queue_def)

lemma link_all_grows:
  "link_all q ls node P = Some (node', P') \<Longrightarrow> pkind node' = pkind node \<and> grows K P P'"
proof (induction ls arbitrary: node P)
  case (Cons i ls)
  then show ?case
    by (auto split: option.splits dest!: connect_queue_grows[where K = K] intro: grows_trans)
qed simp

lemma link_each_grows:
  "link_each ls node w P = Some (node', w', P') \<Longrightarrow> pkind node' = pkind node \<and> grows K P P'"
proof (induction ls arbitrary: node w P)
  case (Cons i ls)
  let ?q = "Channel_shared (next_queue (wheap w))"
  obtain node1 P1 where l: "link (\<lambda>inp outp. (SetOutputPort ?q inp, AddInputPort ?q outp)) i node P = Some (node1, P1)"
    "link_each ls node1 (w\<lparr>wheap := snd (make_queue (channel_size P) (wheap w))\<rparr>) (P1\<lparr>leaves := leaves P1 - {i}\<rparr>)
      = Some (node', w', P')"
    using Cons.prems(1) by (auto simp: make_queue_def Let_def split: option.splits)
  have "pkind node1 = pkind node \<and> grows K P P1" by (rule link_grows[OF l(1)]) simp_all
  then show ?case using Cons.IH[OF l(2)] by (auto intro: grows_trans)
qed simp

lemma fan_out_grows:
  "fan_out tr n node res w P = (node', res', w', P') \<Longrightarrow> KTransform \<in> K \<Longrightarrow>
     pkind node' = pkind node \<and> grows K P P'"
proof (induction n arbitrary: node res w P)
  case (Suc n)
  let ?i = "next_id w" and ?node = "AddOutputPort (Channel_shared (next_queue (wheap w))) node"
  let ?no_op = "SetInputPort (Channel_shared (next_queue (wheap w))) (Processor tr NoOpTransformC ''no_op'' ?i)"
  let ?w = "w\<lparr>next_id := (?i + 1) mod 2 ^ 64, wheap := snd (make_queue (channel_size P) (wheap w))\<rparr>"
  let ?P = "(add_edge (GetId node) ?i P)\<lparr>nodes := map_insert ?i ?no_op (nodes (add_edge (GetId node) ?i P))\<rparr>"
  have rec: "fan_out tr n ?node (insert ?i res) ?w ?P = (node', res', w', P')"
    using Suc.prems(1)
    by (simp add: make_node_def GenerateId_def connect_multi_out_def make_queue_def Let_def GetId_def)
  have "grows K P (add_edge (GetId node) ?i P)" by (rule grows_add_edge)
  also have "grows K \<dots> ?P" using Suc.prems(2) by (intro grows_insert) simp
  finally show ?case using Suc.IH[OF rec Suc.prems(2)] by (auto intro: grows_trans)
qed auto

lemma attach_split_grows:
  assumes "attach_split leaf node res w P = (Returned r, w', P')" "pkind node \<in> K"
  shows "grows K P P'"
proof -
  obtain node' P1 where l: "link (connect_queue (next_queue (wheap w))) leaf node P = Some (node', P1)"
    "P' = P1\<lparr>leaves := (leaves P1 - {leaf}) \<union> res, nodes := map_insert (GetId node) node' (nodes P1)\<rparr>"
    using assms(1) by (auto simp: attach_split_def Let_def make_queue_def split: option.splits)
  have "grows K P P1" "pkind node' = pkind node" using connect_queue_grows[OF l(1)] by blast+
  moreover have "grows K P1 (P1\<lparr>nodes := map_insert (GetId node) node' (nodes P1)\<rparr>)"
    using assms(2) calculation(2) by (intro grows_insert) simp
  ultimately have "grows K P (P1\<lparr>nodes := map_insert (GetId node) node' (nodes P1)\<rparr>)" by (rule_tac grows_trans)
  then show ?thesis unfolding l(2) by (simp add: grows_def kind_at_def)
qed

lemma split_grows:
  assumes "fan_out tr n node {} w P = (node', res, w1, P1)" "attach_split leaf node' res w1 P1 = (Returned r, w', P')"
    "KTransform \<in> K" "pkind node \<in> K"
  shows "grows K P P'"
proof -
  have f: "pkind node' = pkind node" "grows K P P1" using fan_out_grows[OF assms(1,3)] by auto
  show ?thesis using grows_trans[OF f(2)] attach_split_grows[OF assms(2), of K] f(1) assms(4) by simp
qed

text \<open>Storing the node an operation has connected.\<close>

lemma grows_kinds: "grows K P P' \<Longrightarrow> K \<subseteq> K' \<Longrightarrow> grows K' P P'"
  unfolding grows_def using image_mono[of K K' Some] by blast

lemma stored_grows:
  assumes "pkind node' = pkind node \<and> grows {} P P1" "pkind node \<in> K" "nodes P i = None"
    "nodes P' = map_insert i node' (nodes P1)" "dags P' = dags P1"
    "sources P' = sources P1" "sinks P' = sinks P1"
  shows "grows K P P'" "kind_at P' j = (if j = i then Some (pkind node) else kind_at P j)"
proof -
  have "grows K P P1" using assms(1) grows_kinds by blast
  moreover have "grows K P1 (P1\<lparr>nodes := map_insert i node' (nodes P1)\<rparr>)" using assms(1,2) by (intro grows_insert) simp
  ultimately have "grows K P (P1\<lparr>nodes := map_insert i node' (nodes P1)\<rparr>)" by (rule grows_trans)
  then show "grows K P P'" using assms(4-) by (simp add: grows_def kind_at_def)
  have same: "kind_at P1 j = kind_at P j" for j using assms(1) by (simp add: grows_def)
  have "nodes P1 i = None" using same[of i] assms(3) by (simp add: kind_at_def)
  then show "kind_at P' j = (if j = i then Some (pkind node) else kind_at P j)"
    using assms(1,4) same[of j] by (simp add: kind_at_def map_insert_def)
qed

lemma merge_to_grows:
  assumes "merge_to b node ord w P = (Returned i, w', P')" "pkind node \<in> K"
  shows "i = GetId node \<and> nodes P i = None \<and> grows K P P' \<and>
    (\<forall>j. kind_at P' j = (if j = i then Some (pkind node) else kind_at P j))"
proof -
  obtain node' P1 where l: "link_all (next_queue (wheap w)) ord node P = Some (node', P1)" "nodes P (GetId node) = None"
    "i = GetId node" "nodes P' = map_insert (GetId node) node' (nodes P1)" "dags P' = dags P1"
    "sources P' = sources P1" "sinks P' = sinks P1"
    using assms(1) by (auto simp: merge_to_def Let_def make_queue_def new_node_check_def split: option.splits if_splits)
  show ?thesis
    using stored_grows[OF link_all_grows[OF l(1)] assms(2) l(2) l(4-7)] l(2,3) by simp
qed

lemma merge_grows:
  assumes "merge b node ord w P = (Returned i, w', P')" "pkind node \<in> K"
  shows "i = GetId node \<and> nodes P i = None \<and> grows K P P' \<and>
    (\<forall>j. kind_at P' j = (if j = i then Some (pkind node) else kind_at P j))"
proof -
  obtain node' P1 where l: "link_all (next_queue (wheap w)) ord node P = Some (node', P1)" "nodes P (GetId node) = None"
    "i = GetId node" "nodes P' = map_insert (GetId node) node' (nodes P1)" "dags P' = dags P1"
    "sources P' = sources P1" "sinks P' = sinks P1"
    using assms(1) by (auto simp: merge_def Let_def make_queue_def new_node_check_def split: option.splits if_splits)
  show ?thesis
    using stored_grows[OF link_all_grows[OF l(1)] assms(2) l(2) l(4-7)] l(2,3) by simp
qed

lemma AddTransform_grows:
  assumes "AddTransform leaf t w P = (Returned i, w', P')" "pkind t \<in> K"
  shows "grows K P P'"
proof -
  obtain t' P1 where l: "link (connect_queue (next_queue (wheap w))) leaf t P = Some (t', P1)" "nodes P (GetId t) = None"
    "nodes P' = map_insert (GetId t) t' (nodes P1)" "dags P' = dags P1" "sources P' = sources P1" "sinks P' = sinks P1"
    using assms(1) by (auto simp: AddTransform_def Let_def make_queue_def new_node_check_def split: option.splits if_splits)
  show ?thesis
    using stored_grows[OF connect_queue_grows[OF l(1)] assms(2) l(2) l(3-6)] by simp
qed

lemma add_transforms_grows:
  assumes "\<And>k w t w'. creater k w = (Inr t, w') \<Longrightarrow> pkind t \<in> K"
    "add_transforms creater k ls nl w P = (Returned nl', w', P')"
  shows "grows K P P'"
  using assms(2)
proof (induction ls arbitrary: k nl w P)
  case (Cons i ls)
  obtain t w1 where c: "creater k w = (Inr t, w1)"
    using Cons.prems by (auto split: prod.splits sum.splits)
  obtain t' P1 where l: "link (connect_queue (next_queue (wheap w1))) i t P = Some (t', P1)"
    and rec: "add_transforms creater (Suc k) ls (insert (GetId t) nl)
        (w1\<lparr>wheap := snd (make_queue (channel_size P) (wheap w1))\<rparr>)
        (P1\<lparr>nodes := map_insert (GetId t) t' (nodes P1)\<rparr>) = (Returned nl', w', P')"
    using Cons.prems c by (auto simp: Let_def new_node_check_def make_queue_def split: option.splits if_splits)
  have "grows K P P1" "pkind t' = pkind t" using connect_queue_grows[OF l] by blast+
  note this(1)
  also have "grows K P1 (P1\<lparr>nodes := map_insert (GetId t) t' (nodes P1)\<rparr>)"
    using assms(1)[OF c] \<open>pkind t' = pkind t\<close> by (intro grows_insert) simp
  also note Cons.IH[OF rec]
  finally show ?case .
qed simp

lemma roles_AddSource:
  assumes "roles_ok P" "AddSource src P = (Returned i, P')" "pkind src = KSource"
  shows "roles_ok P'"
proof -
  have P': "nodes P (GetId src) = None" "P' = P\<lparr>nodes := (nodes P)(GetId src \<mapsto> src),
      leaves := insert (GetId src) (leaves P), sources := sources P @ [GetId src]\<rparr>"
    using assms(2) by (auto simp: AddSource_def new_node_check_def Let_def map_insert_def split: if_splits)
  then have "kind_at P' j = (if j = GetId src then Some KSource else kind_at P j)" for j
    using assms(3) by (simp add: kind_at_def)
  moreover have "kind_at P (GetId src) = None" using P'(1) by (simp add: kind_at_None)
  ultimately show ?thesis using assms(1) by (auto simp: roles_ok_def P'(2))
qed

lemma roles_register_sink:
  assumes "roles_ok P" "register_sink r = (Returned i, w', P')"
    "\<And>P1. r = (Returned i, w', P1) \<Longrightarrow> nodes P i = None \<and> grows {KSink} P P1 \<and>
       (\<forall>j. kind_at P1 j = (if j = i then Some KSink else kind_at P j))"
  shows "roles_ok P'"
proof -
  obtain P1 where P1: "r = (Returned i, w', P1)" "P' = P1\<lparr>sinks := sinks P1 @ [i]\<rparr>"
    using assms(2) by (cases r; cases "fst r") (auto simp: register_sink_def)
  note r = assms(3)[OF P1(1)]
  have kinds: "kind_at P' j = (if j = i then Some KSink else kind_at P j)" for j
    using r by (simp add: P1(2) kind_at_def)
  have new: "kind_at P i = None" using r by (simp add: kind_at_None)
  show ?thesis
    using assms(1) r new kinds unfolding roles_ok_def grows_def by (auto simp: P1(2))
qed

lemma SetSink_roles:
  assumes "roles_ok P" "pkind sink = KSink"
  shows "SetSink sink ord w P = (Returned i, w', P') \<Longrightarrow> roles_ok P'"
    "SetSink_to sink ord w P = (Returned i, w', P') \<Longrightarrow> roles_ok P'"
  unfolding SetSink_def SetSink_to_def using merge_grows[of False sink ord w P i w' _ "{KSink}"]
    merge_to_grows[of False sink ord w P i w' _ "{KSink}"] assms(2)
  by (auto elim!: roles_register_sink[OF assms(1)])

text \<open>The kinds of the nodes that all other operations add.\<close>

abbreviation inner :: "kind set" where
  "inner \<equiv> - {KSource, KSink}"

lemma inner_roles: "roles_ok P \<Longrightarrow> grows inner P P' \<Longrightarrow> roles_ok P'"
  by (erule (1) roles_grow) simp_all

lemma make_node_kind: "make_node tr c nm w = (p, w') \<Longrightarrow> pkind p = kind_of c"
  by (auto simp: make_node_def GenerateId_def)

lemma Merge_noop_grows:
  assumes "KTransform \<in> K"
  shows "Merge_noop tr ord w P = (Returned i, w', P') \<Longrightarrow> grows K P P'"
    "Merge_noop_to tr ord w P = (Returned i, w', P') \<Longrightarrow> grows K P P'"
  using assms
  by (auto simp: Merge_noop_def Merge_noop_to_def split: prod.splits dest!: make_node_kind
      dest: merge_grows[where K = K] merge_to_grows[where K = K])

lemma DispatchFrom_grows:
  assumes "DispatchFrom tr leaf node w P = (Returned r, w', P')" "KTransform \<in> K" "pkind node \<in> K"
  shows "grows K P P'"
  using assms(1) split_grows[OF _ _ assms(2,3)]
  by (fastforce simp: DispatchFrom_def split: option.splits prod.splits)

lemma ForkFrom_grows:
  fixes P :: "('v, 's) pipeline"
  assumes "ForkFrom tr leaf sz w P = (Returned r, w', P')" "KTransform \<in> K" "KOneI sz \<in> K"
  shows "grows K P P'"
proof -
  obtain node :: "('v, 's) processor" and w1 where n: "make_node tr (ForkC sz) ''fork'' w = (node, w1)" by force
  obtain node' res w2 P1 where fan: "fan_out tr sz node {} w1 P = (node', res, w2, P1)" by (metis prod_cases4)
  have "attach_split leaf node' res w2 P1 = (Returned r, w', P')"
    using assms n fan by (auto simp: ForkFrom_def split: option.splits if_splits)
  from split_grows[OF fan this assms(2)] make_node_kind[OF n] assms(3) show ?thesis by simp
qed

lemma ConcatFrom_grows:
  fixes P :: "('v, 's) pipeline"
  assumes "ConcatFrom tr ls w P = (Returned r, w', P')" "KMulti (length ls) \<in> K"
  shows "grows K P P'"
proof -
  obtain node :: "('v, 's) processor" and w1 where
    n: "make_node tr (ConcatC (length ls)) ''concat'' w = (node, w1)" by force
  obtain node' P1 where l: "link_each ls node w1 P = Some (node', w', P1)"
    "P' = P1\<lparr>leaves := insert r (leaves P1), nodes := map_insert r node' (nodes P1)\<rparr>"
    using assms n by (auto simp: ConcatFrom_def Let_def split: option.splits if_splits)
  have "pkind node' = pkind node" "grows K P P1" using link_each_grows[OF l(1)] by blast+
  note this(2)
  also have "grows K P1 (P1\<lparr>nodes := map_insert r node' (nodes P1)\<rparr>)"
    using \<open>pkind node' = pkind node\<close> make_node_kind[OF n] assms(2) by (intro grows_insert) simp
  finally show ?thesis unfolding l(2) by (simp add: grows_def kind_at_def)
qed

lemma AddTransform_each_grows:
  assumes "creater_ok creater" "AddTransform_each creater ord w P = (Returned nl, w', P')" "KTransform \<in> K"
  shows "grows K P P'"
proof -
  obtain P1 where "add_transforms creater 0 ord {} w P = (Returned nl, w', P1)" "P' = P1\<lparr>leaves := nl\<rparr>"
    using assms(2) by (auto simp: AddTransform_each_def split: prod.splits outcome.splits)
  moreover have "pkind t \<in> K" if "creater k w = (Inr t, w')" for k w t w'
    using creater_okD(1)[OF assms(1) that] assms(3) by simp
  ultimately show ?thesis using add_transforms_grows[of creater K 0 ord "{}" w P nl w' P1] by simp
qed

end
