(* ===== verification/Pipeline_Merge.thy ===== *)
theory Pipeline_Merge
  imports Pipeline_Roles
begin

text \<open>
  \<^verbatim>\<open>MergePipeline\<close> of \<^verbatim>\<open>pipeline.h\<close> with its helpers, and \<^verbatim>\<open>MergeSinkAndSource\<close> of
  \<^verbatim>\<open>simple_transform.h\<close>: the sinks of one completed pipeline and the sources of another are
  replaced by no-op transforms that read what the sink read and write what the source wrote.
  The merged pipeline satisfies the invariant of the builder.
\<close>

section \<open>The operations\<close>

text \<open>The id of a sink is replaced in every successor set; \<^verbatim>\<open>assert\<close> requires equal sizes.\<close>

fun replace_sinks :: "nat list \<Rightarrow> nat list \<Rightarrow> (nat \<rightharpoonup> nat set) \<Rightarrow> (nat \<rightharpoonup> nat set)" where
  "replace_sinks (old # olds) (new # news) dag =
     replace_sinks olds news
       (\<lambda>k. map_option (\<lambda>S. if old \<in> S then insert new (S - {old}) else S) (dag k))"
| "replace_sinks _ _ dag = dag"

definition ReplaceSinkIdInDags ::
  "(nat \<rightharpoonup> nat set) \<Rightarrow> nat list \<Rightarrow> nat list \<Rightarrow> (nat \<rightharpoonup> nat set) option" where
  "ReplaceSinkIdInDags dag old_sink_id new_id =
     (if length old_sink_id = length new_id then Some (replace_sinks old_sink_id new_id dag) else None)"

text \<open>
  The entry of a source is moved to the new id. The local map \<^verbatim>\<open>add_dag\<close> keeps its entries from
  one round to the next: an entry that was inserted has been moved from and is empty.
\<close>

fun replace_sources ::
  "nat list \<Rightarrow> nat list \<Rightarrow> (nat \<rightharpoonup> nat set) \<Rightarrow> (nat \<rightharpoonup> nat set) \<Rightarrow> (nat \<rightharpoonup> nat set)" where
  "replace_sources (old # olds) (new # news) add_dag dag =
     (let (add1, dags1) =
            (case dag old of
               None \<Rightarrow> (add_dag, dag)
             | Some S \<Rightarrow> (map_insert new S add_dag, dag(old := None)));
          dags2 = (\<lambda>k. if dags1 k = None then add1 k else dags1 k);
          add2 = (\<lambda>k. if add1 k \<noteq> None \<and> dags1 k = None then Some {} else add1 k)
      in replace_sources olds news add2 dags2)"
| "replace_sources _ _ add_dag dag = dag"

definition ReplaceSourceIdInDags ::
  "(nat \<rightharpoonup> nat set) \<Rightarrow> nat list \<Rightarrow> nat list \<Rightarrow> (nat \<rightharpoonup> nat set)" where
  "ReplaceSourceIdInDags dag old_source_id new_id =
     replace_sources old_source_id new_id Map.empty dag"

definition MergeSinkAndSource :: "'v traits \<Rightarrow> ('v, 's) processor \<Rightarrow> ('v, 's) processor \<Rightarrow> 'v world \<Rightarrow>
    ('v, 's) processor \<times> 'v world" where
  "MergeSinkAndSource tr sink source w =
     (let (no_op, w1) = make_node tr NoOpTransformC ''no_op'' w
      in (BindAbortChannel (abort_port sink)
            (no_op\<lparr>input_count := input_count sink, input_port := input_port sink,
               output_port := output_port source\<rparr>), w1))"

text \<open>The loop over the sinks and sources; no result when a node pointer is null.\<close>

fun merge_ends :: "'v traits \<Rightarrow> nat list \<Rightarrow> nat list \<Rightarrow> ('v, 's) pipeline \<Rightarrow> ('v, 's) pipeline \<Rightarrow> 'v world \<Rightarrow>
    (('v, 's) processor list \<times> 'v world) option" where
  "merge_ends tr (s # ss) (t # ts) L R w =
     (case (nodes L s, nodes R t) of
        (Some sink, Some source) \<Rightarrow>
          let (no_op, w1) = MergeSinkAndSource tr sink source w
          in map_option (\<lambda>(noops, w2). (no_op # noops, w2)) (merge_ends tr ss ts L R w1)
      | _ \<Rightarrow> None)"
| "merge_ends tr _ _ L R w = Some ([], w)"

definition insert_nodes :: "('v, 's) processor list \<Rightarrow> (nat \<rightharpoonup> ('v, 's) processor) \<Rightarrow>
    (nat \<rightharpoonup> ('v, 's) processor)" where
  "insert_nodes ps m = fold (\<lambda>p m. map_insert (GetId p) p m) ps m"

definition MergePipeline :: "'v traits \<Rightarrow> ('v, 's) pipeline \<Rightarrow> ('v, 's) pipeline \<Rightarrow> 'v world \<Rightarrow>
    ('v, 's) pipeline outcome \<times> 'v world" where
  "MergePipeline tr left right w =
     (if \<not> IsCompleted left \<or> \<not> IsCompleted right
      then (Thrown (StdException ''can only merge two completed pipeline''), w)
      else if GetProcessorSize left = 0 then (Returned right, w)
      else if GetProcessorSize right = 0 then (Returned left, w)
      else if length (sinks left) \<noteq> length (sources right)
      then (Thrown (StdException ''the number of sources and sinks in the merged pipeline is not equal''), w)
      else
        case merge_ends tr (sinks left) (sources right) left right w of
          None \<Rightarrow> (Died, w)
        | Some (noops, w') \<Rightarrow>
            let left_nodes = (\<lambda>i. if IsSink i left then None else nodes left i);
                both_nodes = (\<lambda>i. if left_nodes i \<noteq> None then left_nodes i
                                  else if IsSource i right then None else nodes right i);
                noop_ids = map GetId noops
            in case ReplaceSinkIdInDags (dags left) (sinks left) noop_ids of
                 None \<Rightarrow> (Died, w')
               | Some left_dags \<Rightarrow>
                   let right_dags = ReplaceSourceIdInDags (dags right) (sources right) noop_ids
                   in (Returned
                         \<lparr>bind_abort_channel = bind_abort_channel left \<and> bind_abort_channel right,
                          channel_size = 0,
                          option_name = option_name left @ ''-merge-'' @ option_name right,
                          nodes = insert_nodes noops both_nodes, leaves = {},
                          dags = (\<lambda>i. if left_dags i \<noteq> None then left_dags i else right_dags i),
                          sources = sources left, sinks = sinks right,
                          abort_channel = Channel_null\<rparr>, w'))"

section \<open>Renaming in the recorded edges\<close>

text \<open>The new id of a node that was merged away, the node itself otherwise.\<close>

definition renamed :: "nat list \<Rightarrow> nat list \<Rightarrow> nat \<Rightarrow> nat" where
  "renamed olds news i = (case map_of (zip olds news) i of None \<Rightarrow> i | Some n \<Rightarrow> n)"

lemma renamed_Cons:
  "renamed (old # olds) (new # news) i = (if i = old then new else renamed olds news i)"
  by (simp add: renamed_def)

lemma renamed_Nil [simp]: "renamed [] news i = i" "renamed olds [] i = i"
  by (simp_all add: renamed_def)

lemma renamed_other: "i \<notin> set olds \<Longrightarrow> renamed olds news i = i"
  by (auto simp: renamed_def split: option.split dest: map_of_SomeD set_zip_leftD)

lemma renamed_nth:
  "distinct olds \<Longrightarrow> length olds = length news \<Longrightarrow> i < length olds \<Longrightarrow>
     renamed olds news (olds ! i) = news ! i"
  by (simp add: renamed_def map_of_zip_nth)

lemma replace_sinks_image:
  assumes "length olds = length news" "set olds \<inter> set news = {}"
  shows "replace_sinks olds news dag k = map_option ((`) (renamed olds news)) (dag k)"
  using assms
proof (induction olds news arbitrary: dag rule: list_induct2)
  case Nil
  then show ?case by (simp add: option.map_ident image_def)
next
  case (Cons old olds new news)
  have new: "renamed olds news new = new" using Cons.prems by (intro renamed_other) auto
  have "renamed olds news ` (if old \<in> S then insert new (S - {old}) else S) =
      renamed (old # olds) (new # news) ` S" for S
    using new by (auto simp: renamed_Cons image_iff)
  then show ?case
    using Cons.IH Cons.prems by (simp add: option.map_comp comp_def)
qed

lemma replace_sources_keys:
  assumes "length olds = length news" "distinct olds" "distinct news" "set olds \<inter> set news = {}"
    "set news \<inter> dom dag = {}" "dom add_dag \<subseteq> dom dag" "dom add_dag \<inter> set olds = {}"
  shows "replace_sources olds news add_dag dag k =
     (if k \<in> set olds then None
      else case map_of (zip news olds) k of None \<Rightarrow> dag k | Some old \<Rightarrow> dag old)"
  using assms
proof (induction olds news arbitrary: dag add_dag rule: list_induct2)
  case (Cons old olds new news)
  define dags2 where "dags2 = (\<lambda>k. if k = old then None else if k = new then dag old else dag k)"
  define add2 where "add2 = (if dag old = None then add_dag else add_dag(new \<mapsto> {}))"
  have fresh: "dag new = None" "add_dag new = None" "new \<noteq> old" "add_dag old = None"
    using Cons.prems by auto
  have sub: "dag k = None \<Longrightarrow> add_dag k = None" for k using Cons.prems(5) by auto
  have "replace_sources (old # olds) (new # news) add_dag dag = replace_sources olds news add2 dags2"
  proof (cases "dag old")
    case None
    then have "(\<lambda>k. if dag k = None then add_dag k else dag k) = dags2"
      using fresh sub unfolding dags2_def by (auto simp: fun_eq_iff)
    moreover have "(\<lambda>k. if add_dag k \<noteq> None \<and> dag k = None then Some {} else add_dag k) = add2"
      using None sub by (auto simp: fun_eq_iff add2_def)
    ultimately show ?thesis using None by (simp only: replace_sources.simps Let_def option.case prod.case)
  next
    case (Some S)
    let ?add1 = "map_insert new S add_dag" and ?dags1 = "dag(old := None)"
    have add1: "?add1 = add_dag(new \<mapsto> S)" using fresh by (simp add: map_insert_def)
    have "(\<lambda>k. if ?dags1 k = None then ?add1 k else ?dags1 k) = dags2"
      using fresh sub Some unfolding dags2_def add1 by (auto simp: fun_eq_iff)
    moreover have "(\<lambda>k. if ?add1 k \<noteq> None \<and> ?dags1 k = None then Some {} else ?add1 k) = add2"
      using fresh sub Some unfolding add1 by (auto simp: fun_eq_iff add2_def)
    ultimately show ?thesis using Some by (simp only: replace_sources.simps Let_def option.case prod.case)
  qed
  then have "replace_sources (old # olds) (new # news) add_dag dag k =
      replace_sources olds news add2 dags2 k"
    by (rule fun_cong)
  also have "replace_sources olds news add2 dags2 k =
      (if k \<in> set olds then None
       else case map_of (zip news olds) k of None \<Rightarrow> dags2 k | Some old \<Rightarrow> dags2 old)"
    using Cons.prems fresh
    by (intro Cons.IH) (auto simp: dags2_def add2_def split: if_splits dest: subsetD[OF Cons.prems(5) domI])
  also have "\<dots> = (if k \<in> set (old # olds) then None
       else case map_of (zip (new # news) (old # olds)) k of None \<Rightarrow> dag k | Some old \<Rightarrow> dag old)"
    using Cons.prems fresh
    by (auto simp: dags2_def split: option.split dest!: map_of_SomeD dest: set_zip_rightD set_zip_leftD)
  finally show ?case .
qed simp

section \<open>The nodes of the merged pipeline\<close>

lemma BindAbortChannel_frame [simp]:
  "pc (BindAbortChannel c p) = pc p" "node_class (BindAbortChannel c p) = node_class p"
  "inputs (BindAbortChannel c p) = inputs p" "outputs (BindAbortChannel c p) = outputs p"
  "input_count (BindAbortChannel c p) = input_count p" "abort_port (BindAbortChannel c p) = c"
  "get_chan (BindAbortChannel c p) r = get_chan p r"
  by (simp_all add: BindAbortChannel_def) (cases r; simp add: get_chan.simps)

lemma BindAbortChannel_checks [simp]:
  "shape (BindAbortChannel c p) = shape p" "ins_open (BindAbortChannel c p) = ins_open p"
  "outs_open (BindAbortChannel c p) = outs_open p"
  "working_reads (BindAbortChannel c p) = working_reads p"
  "working_writes (BindAbortChannel c p) = working_writes p"
  by (simp_all add: shape_def ins_open_def outs_open_def working_reads_def working_writes_def fun_eq_iff)

definition joined :: "'v traits \<Rightarrow> nat \<Rightarrow> ('v, 's) processor \<Rightarrow> ('v, 's) processor \<Rightarrow> ('v, 's) processor" where
  "joined tr i sink source =
     BindAbortChannel (abort_port sink)
       ((Processor tr NoOpTransformC ''no_op'' i)\<lparr>input_count := input_count sink,
          input_port := input_port sink, output_port := output_port source\<rparr>)"

lemma MergeSinkAndSource_joined:
  "Suc (next_id w) < 2 ^ 64 \<Longrightarrow>
     MergeSinkAndSource tr sink source w =
       (joined tr (next_id w) sink source, w\<lparr>next_id := Suc (next_id w)\<rparr>)"
  by (simp add: MergeSinkAndSource_def make_node_def GenerateId_def joined_def)

lemma merge_ends_spec:
  assumes "length ss = length ts" "next_id w + length ss < 2 ^ 64"
    "\<And>s. s \<in> set ss \<Longrightarrow> nodes L s \<noteq> None" "\<And>t. t \<in> set ts \<Longrightarrow> nodes R t \<noteq> None"
  shows "merge_ends tr ss ts L R w =
    Some (map (\<lambda>i. joined tr (next_id w + i) (the (nodes L (ss ! i))) (the (nodes R (ts ! i)))) [0..<length ss],
          w\<lparr>next_id := next_id w + length ss\<rparr>)"
  using assms
proof (induction ss ts arbitrary: w rule: list_induct2)
  case (Cons s ss t ts)
  obtain sink source where n: "nodes L s = Some sink" "nodes R t = Some source"
    using Cons.prems(2,3) by fastforce
  let ?w = "w\<lparr>next_id := Suc (next_id w)\<rparr>"
  have one: "MergeSinkAndSource tr sink source w = (joined tr (next_id w) sink source, ?w)"
    using Cons.prems(1) by (intro MergeSinkAndSource_joined) simp
  have rest: "merge_ends tr ss ts L R ?w =
      Some (map (\<lambda>i. joined tr (next_id ?w + i) (the (nodes L (ss ! i))) (the (nodes R (ts ! i)))) [0..<length ss],
            ?w\<lparr>next_id := next_id ?w + length ss\<rparr>)"
    using Cons.prems by (intro Cons.IH) auto
  show ?case
    by (simp add: n one rest upt_conv_Cons map_Suc_upt[symmetric] comp_def del: upt_Suc)
qed simp

lemma insert_nodes_spec:
  assumes "\<And>i. i < length ps \<Longrightarrow> GetId (ps ! i) = n + i" "\<And>j. n \<le> j \<Longrightarrow> m j = None"
  shows "insert_nodes ps m j = (if n \<le> j \<and> j < n + length ps then Some (ps ! (j - n)) else m j)"
  using assms
proof (induction ps arbitrary: m n)
  case (Cons p ps)
  have p: "GetId p = n" using Cons.prems(1)[of 0] by simp
  have m: "map_insert n p m = m(n \<mapsto> p)" using Cons.prems(2)[of n] by (simp add: map_insert_def)
  have "insert_nodes ps (m(n \<mapsto> p)) j =
      (if Suc n \<le> j \<and> j < Suc n + length ps then Some (ps ! (j - Suc n)) else (m(n \<mapsto> p)) j)"
  proof (rule Cons.IH)
    show "GetId (ps ! i) = Suc n + i" if "i < length ps" for i
      using Cons.prems(1)[of "Suc i"] that by simp
    show "(m(n \<mapsto> p)) j = None" if "Suc n \<le> j" for j
      using Cons.prems(2)[of j] that by simp
  qed
  then show ?case
    using p m by (auto simp: insert_nodes_def nth_Cons' Suc_le_eq)
qed (simp add: insert_nodes_def)

text \<open>
  Two pipelines share neither nodes nor queues: a node is owned by one pipeline, and a queue is only
  shared by the nodes the builder connected.
\<close>

definition apart :: "('v, 's) pipeline \<Rightarrow> ('v, 's) pipeline \<Rightarrow> bool" where
  "apart L R \<longleftrightarrow>
     dom (nodes L) \<inter> dom (nodes R) = {} \<and>
     (\<forall>i j. (node_set reads_q L i \<union> node_set writes_q L i) \<inter>
            (node_set reads_q R j \<union> node_set writes_q R j) = {})"

text \<open>What merging needs of the two.\<close>

definition joinable :: "('v, 's) pipeline \<Rightarrow> ('v, 's) pipeline \<Rightarrow> bool" where
  "joinable L R \<longleftrightarrow>
     distinct (sinks L) \<and> (\<forall>s \<in> set (sinks L). \<exists>p. nodes L s = Some p \<and> pkind p = KSink) \<and>
     distinct (sources R) \<and> (\<forall>s \<in> set (sources R). \<exists>p. nodes R s = Some p \<and> pkind p = KSource) \<and>
     dom (dags L) \<subseteq> dom (nodes L) \<and> dom (dags R) \<subseteq> dom (nodes R) \<and>
     dom (nodes L) \<inter> dom (nodes R) = {} \<and>
     (\<forall>i j. (node_set reads_q L i \<union> node_set writes_q L i) \<inter>
            (node_set reads_q R j \<union> node_set writes_q R j) = {})"

lemma dags_dom:
  assumes "pipe_inv w P" "roles_ok P"
  shows "dom (dags P) \<subseteq> dom (nodes P)"
proof
  fix i assume "i \<in> dom (dags P)"
  then obtain S where S: "dags P i = Some S" by auto
  moreover have "S \<noteq> {}" using S assms(2) by (auto simp: roles_ok_def ran_def)
  ultimately have "\<exists>j. (i, j) \<in> edges P" by (auto simp: edges_def)
  then show "i \<in> dom (nodes P)" using assms(1) by (auto simp: pipe_inv_def feeds_def)
qed

lemma joinableI:
  assumes "pipe_inv w L" "pipe_inv w R" "roles_ok L" "roles_ok R" "apart L R"
  shows "joinable L R"
  using assms(3-5) dags_dom[OF assms(1,3)] dags_dom[OF assms(2,4)]
  by (auto simp: joinable_def apart_def roles_ok_def kind_at_def)

text \<open>How the merged pipeline is made of the two.\<close>

definition joins :: "'v traits \<Rightarrow> 'v world \<Rightarrow> ('v, 's) pipeline \<Rightarrow> ('v, 's) pipeline \<Rightarrow> ('v, 's) pipeline \<Rightarrow> bool" where
  "joins tr w L R M \<longleftrightarrow>
     leaves M = {} \<and> ({} \<notin> ran (dags L) \<union> ran (dags R) \<longrightarrow> {} \<notin> ran (dags M)) \<and>
     (\<forall>i < length (sinks L). nodes M (next_id w + i) =
        Some (joined tr (next_id w + i) (the (nodes L (sinks L ! i))) (the (nodes R (sources R ! i))))) \<and>
     (\<forall>j. j < next_id w \<or> next_id w + length (sinks L) \<le> j \<longrightarrow>
        nodes M j =
          (if j \<in> dom (nodes L) - set (sinks L) then nodes L j
           else if j \<in> dom (nodes R) - set (sources R) then nodes R j else None)) \<and>
     edges M =
       (\<lambda>(a, b). (a, renamed (sinks L) [next_id w..<next_id w + length (sinks L)] b)) ` edges L \<union>
       (\<lambda>(a, b). (renamed (sources R) [next_id w..<next_id w + length (sinks L)] a, b)) ` edges R"

lemma GetId_joined [simp]: "GetId (joined tr i a b) = i"
  by (simp add: joined_def GetId_def BindAbortChannel_def)

lemma edges_renamed_keys:
  assumes "length olds = length news" "distinct olds" "distinct news" "set olds \<inter> set news = {}"
    "set news \<inter> dom dag = {}"
  shows "{(i, j). \<exists>S. ReplaceSourceIdInDags dag olds news i = Some S \<and> j \<in> S} =
    (\<lambda>(a, b). (renamed olds news a, b)) ` {(i, j). \<exists>S. dag i = Some S \<and> j \<in> S}"
proof -
  have keys: "ReplaceSourceIdInDags dag olds news k =
     (if k \<in> set olds then None
      else case map_of (zip news olds) k of None \<Rightarrow> dag k | Some old \<Rightarrow> dag old)" for k
    unfolding ReplaceSourceIdInDags_def using assms by (intro replace_sources_keys) auto
  have "(\<exists>S. ReplaceSourceIdInDags dag olds news i = Some S \<and> j \<in> S) \<longleftrightarrow>
      (\<exists>a. renamed olds news a = i \<and> (\<exists>S. dag a = Some S \<and> j \<in> S))" for i j
  proof
    assume "\<exists>S. ReplaceSourceIdInDags dag olds news i = Some S \<and> j \<in> S"
    then obtain S where S: "i \<notin> set olds" "j \<in> S"
      "(case map_of (zip news olds) i of None \<Rightarrow> dag i | Some old \<Rightarrow> dag old) = Some S"
      by (auto simp: keys split: if_splits)
    show "\<exists>a. renamed olds news a = i \<and> (\<exists>S. dag a = Some S \<and> j \<in> S)"
    proof (cases "map_of (zip news olds) i")
      case None
      then show ?thesis using S renamed_other[OF S(1)] by auto
    next
      case (Some old)
      then obtain k where "k < length news" "i = news ! k" "old = olds ! k"
        using assms(1) by (auto dest!: map_of_SomeD simp: set_zip)
      then have "renamed olds news old = i" using renamed_nth[of olds news k] assms by simp
      then show ?thesis using S Some by auto
    qed
  next
    assume "\<exists>a. renamed olds news a = i \<and> (\<exists>S. dag a = Some S \<and> j \<in> S)"
    then obtain a S where a: "renamed olds news a = i" "dag a = Some S" "j \<in> S" by auto
    show "\<exists>S. ReplaceSourceIdInDags dag olds news i = Some S \<and> j \<in> S"
    proof (cases "a \<in> set olds")
      case True
      then obtain k where k: "k < length olds" "a = olds ! k" by (auto simp: in_set_conv_nth)
      then have i: "i = news ! k" using a(1) renamed_nth[of olds news k] assms by simp
      have "i \<notin> set olds" using assms k i by auto
      moreover have "map_of (zip news olds) i = Some a"
        using map_of_zip_nth[of news olds k] assms k i by simp
      ultimately show ?thesis using a by (auto simp: keys)
    next
      case False
      then have "i = a" using a(1) renamed_other by simp
      moreover have "a \<notin> set news" using a(2) assms(5) by auto
      then have "map_of (zip news olds) a = None"
        by (auto simp: map_of_eq_None_iff dest: set_zip_leftD)
      ultimately show ?thesis using a False by (auto simp: keys)
    qed
  qed
  then show ?thesis by (auto simp: image_iff)
qed

lemma ReplaceSourceIdInDags_dom:
  assumes "length olds = length news" "distinct olds" "distinct news" "set olds \<inter> set news = {}"
    "set news \<inter> dom dag = {}"
  shows "dom (ReplaceSourceIdInDags dag olds news) \<subseteq> set news \<union> dom dag"
proof
  fix k
  assume "k \<in> dom (ReplaceSourceIdInDags dag olds news)"
  moreover have "ReplaceSourceIdInDags dag olds news k =
     (if k \<in> set olds then None
      else case map_of (zip news olds) k of None \<Rightarrow> dag k | Some old \<Rightarrow> dag old)"
    unfolding ReplaceSourceIdInDags_def using assms by (intro replace_sources_keys) auto
  ultimately have "map_of (zip news olds) k \<noteq> None \<or> dag k \<noteq> None"
    by (cases "map_of (zip news olds) k") (simp_all split: if_splits add: domIff)
  then show "k \<in> set news \<union> dom dag" by (auto dest!: map_of_SomeD dest: set_zip_leftD)
qed

lemma ReplaceSourceIdInDags_ran:
  assumes "length olds = length news" "distinct olds" "distinct news" "set olds \<inter> set news = {}"
    "set news \<inter> dom dag = {}"
  shows "ran (ReplaceSourceIdInDags dag olds news) \<subseteq> ran dag"
proof
  fix S assume "S \<in> ran (ReplaceSourceIdInDags dag olds news)"
  then obtain k where "ReplaceSourceIdInDags dag olds news k = Some S" by (auto simp: ran_def)
  moreover have "ReplaceSourceIdInDags dag olds news k =
     (if k \<in> set olds then None
      else case map_of (zip news olds) k of None \<Rightarrow> dag k | Some old \<Rightarrow> dag old)"
    unfolding ReplaceSourceIdInDags_def using assms by (intro replace_sources_keys) auto
  ultimately show "S \<in> ran dag" by (auto simp: ran_def split: if_splits option.splits)
qed

lemma edges_renamed_sets:
  assumes "length olds = length news" "set olds \<inter> set news = {}"
  shows "{(i, j). \<exists>S. replace_sinks olds news dag i = Some S \<and> j \<in> S} =
    (\<lambda>(a, b). (a, renamed olds news b)) ` {(i, j). \<exists>S. dag i = Some S \<and> j \<in> S}"
  by (auto simp: replace_sinks_image[OF assms] image_iff)

lemma edges_union:
  assumes "dom f \<inter> dom g = {}"
  shows "{(i, j). \<exists>S. (if f i \<noteq> None then f i else g i) = Some S \<and> j \<in> S} =
    {(i, j). \<exists>S. f i = Some S \<and> j \<in> S} \<union> {(i, j). \<exists>S. g i = Some S \<and> j \<in> S}"
  using assms by (auto split: if_splits) (metis disjoint_iff domI option.distinct(1))

lemma MergePipeline_joins:
  assumes inv: "pipe_inv w L" "pipe_inv w R" and join: "joinable L R"
    and completed: "IsCompleted L" "IsCompleted R" and ne: "nodes L \<noteq> Map.empty" "nodes R \<noteq> Map.empty"
    and len: "length (sinks L) = length (sources R)" and ids: "next_id w + length (sinks L) < 2 ^ 64"
  shows "\<exists>M. MergePipeline tr L R w = (Returned M, w\<lparr>next_id := next_id w + length (sinks L)\<rparr>) \<and>
    joins tr w L R M \<and> sources M = sources L \<and> sinks M = sinks R \<and>
    bind_abort_channel M = (bind_abort_channel L \<and> bind_abort_channel R)"
proof -
  let ?n = "next_id w" and ?k = "length (sinks L)"
  let ?ids = "[?n..<?n + ?k]"
  let ?noops = "map (\<lambda>i. joined tr (?n + i) (the (nodes L (sinks L ! i))) (the (nodes R (sources R ! i)))) [0..<?k]"
  let ?both = "\<lambda>i. if (if IsSink i L then None else nodes L i) \<noteq> None then (if IsSink i L then None else nodes L i)
      else if IsSource i R then None else nodes R i"
  have old: "i < ?n" if "i \<in> dom (nodes L) \<union> dom (nodes R)" for i
    using that inv by (auto simp: pipe_inv_def node_ok_def)
  have ends: "set (sinks L) \<subseteq> dom (nodes L)" "set (sources R) \<subseteq> dom (nodes R)"
    using join by (auto simp: joinable_def)
  have idsG: "map GetId ?noops = ?ids"
    by (intro nth_equalityI) auto
  have fresh: "set (sinks L) \<inter> set ?ids = {}" "set (sources R) \<inter> set ?ids = {}"
    "set ?ids \<inter> dom (dags R) = {}"
  proof -
    have "x < ?n" if "x \<in> set (sinks L) \<union> set (sources R) \<union> dom (dags R)" for x
      using that ends old join unfolding joinable_def by blast
    then show "set (sinks L) \<inter> set ?ids = {}" "set (sources R) \<inter> set ?ids = {}"
      "set ?ids \<inter> dom (dags R) = {}"
      by (auto simp: disjoint_iff) (metis UnI1 UnI2 domI not_less)+
  qed
  define ld where "ld = replace_sinks (sinks L) ?ids (dags L)"
  define rd where "rd = ReplaceSourceIdInDags (dags R) (sources R) ?ids"
  define M where "M = \<lparr>bind_abort_channel = bind_abort_channel L \<and> bind_abort_channel R, channel_size = 0,
      option_name = option_name L @ ''-merge-'' @ option_name R, nodes = insert_nodes ?noops ?both,
      leaves = {}, dags = (\<lambda>i. if ld i \<noteq> None then ld i else rd i), sources = sources L,
      sinks = sinks R, abort_channel = Channel_null\<rparr>"
  have me: "merge_ends tr (sinks L) (sources R) L R w =
      Some (?noops, w\<lparr>next_id := ?n + ?k\<rparr>)"
    using len ids ends by (intro merge_ends_spec) auto
  have card: "GetProcessorSize L \<noteq> 0" "GetProcessorSize R \<noteq> 0"
    using ne inv by (auto simp: GetProcessorSize_def pipe_inv_def card_eq_0_iff dom_eq_empty_conv)
  have call: "MergePipeline tr L R w = (Returned M, w\<lparr>next_id := ?n + ?k\<rparr>)"
    unfolding M_def ld_def rd_def using completed card len me idsG
    by (simp add: MergePipeline_def ReplaceSinkIdInDags_def Let_def cong: if_cong)
  have nodes: "nodes M j = (if ?n \<le> j \<and> j < ?n + ?k then Some (?noops ! (j - ?n)) else ?both j)" for j
    unfolding M_def pipeline.simps
    by (subst insert_nodes_spec[where n = ?n]) (simp_all add: pipe_inv_unused[OF inv(1)] pipe_inv_unused[OF inv(2)])
  have doml: "dom ld = dom (dags L)"
    unfolding ld_def using fresh(1) by (auto simp: replace_sinks_image)
  have domr: "dom rd \<subseteq> set ?ids \<union> dom (dags R)"
    unfolding rd_def using len fresh join
    by (intro ReplaceSourceIdInDags_dom) (auto simp: joinable_def)
  have "dom (nodes L) \<inter> set ?ids = {}"
    using old by (auto simp: disjoint_iff dest!: old[OF UnI1, OF domI])
  moreover have "dom ld \<subseteq> dom (nodes L)"
    using doml join by (simp add: joinable_def)
  moreover have "dom rd \<subseteq> set ?ids \<union> dom (nodes R)"
    using domr conjunct1[OF conjunct2[OF conjunct2[OF conjunct2[OF conjunct2[OF conjunct2[OF
      join[unfolded joinable_def]]]]]]] by blast
  moreover have "dom (nodes L) \<inter> dom (nodes R) = {}"
    using join by (simp add: joinable_def)
  ultimately have disj: "dom ld \<inter> dom rd = {}" by blast
  have "edges M = {(i, j). \<exists>S. ld i = Some S \<and> j \<in> S} \<union> {(i, j). \<exists>S. rd i = Some S \<and> j \<in> S}"
    unfolding edges_def M_def pipeline.simps by (rule edges_union[OF disj])
  moreover have "{(i, j). \<exists>S. ld i = Some S \<and> j \<in> S} = (\<lambda>(a, b). (a, renamed (sinks L) ?ids b)) ` edges L"
    unfolding edges_def ld_def using fresh(1) by (intro edges_renamed_sets) simp_all
  moreover have "{(i, j). \<exists>S. rd i = Some S \<and> j \<in> S} = (\<lambda>(a, b). (renamed (sources R) ?ids a, b)) ` edges R"
    unfolding edges_def rd_def using fresh(2,3) len conjunct1[OF conjunct2[OF conjunct2[OF
      join[unfolded joinable_def]]]] by (intro edges_renamed_keys) simp_all
  ultimately have edges: "edges M = (\<lambda>(a, b). (a, renamed (sinks L) ?ids b)) ` edges L \<union>
      (\<lambda>(a, b). (renamed (sources R) ?ids a, b)) ` edges R"
    by simp
  have "joins tr w L R M"
    unfolding joins_def
  proof (intro conjI allI impI)
    show "leaves M = {}" by (simp add: M_def)
    have "{} \<notin> ran ld" if "{} \<notin> ran (dags L)"
      using that fresh(1) by (auto simp: ld_def replace_sinks_image ran_def)
    moreover have "{} \<notin> ran rd" if "{} \<notin> ran (dags R)"
      using that ReplaceSourceIdInDags_ran[of "sources R" ?ids "dags R"] fresh(2,3) len conjunct1[OF conjunct2[OF
        conjunct2[OF join[unfolded joinable_def]]]] unfolding rd_def by auto
    ultimately show "{} \<notin> ran (dags M)" if "{} \<notin> ran (dags L) \<union> ran (dags R)"
      using that by (auto simp: M_def ran_def split: if_splits)
    show "nodes M (?n + i) = Some (joined tr (?n + i) (the (nodes L (sinks L ! i))) (the (nodes R (sources R ! i))))"
      if "i < ?k" for i
      using that by (simp add: nodes)
    show "nodes M j = (if j \<in> dom (nodes L) - set (sinks L) then nodes L j
        else if j \<in> dom (nodes R) - set (sources R) then nodes R j else None)"
      if "j < ?n \<or> ?n + ?k \<le> j" for j
      using that by (auto simp: nodes IsSink_def IsSource_def)
    show "edges M = (\<lambda>(a, b). (a, renamed (sinks L) ?ids b)) ` edges L \<union>
      (\<lambda>(a, b). (renamed (sources R) ?ids a, b)) ` edges R"
      by (rule edges)
  qed
  then show ?thesis using call by (auto simp: M_def)
qed

section \<open>The merged pipeline keeps the invariant\<close>

lemma joined_node:
  assumes "node_ok w i sink" "pkind sink = KSink" "node_ok w j source" "pkind source = KSource" "outs_open source"
    "m < n" "next_id w \<le> n"
  shows "node_ok (w\<lparr>next_id := n\<rparr>) m (joined tr m sink source)" "outs_open (joined tr m sink source)"
    "reads_q (joined tr m sink source) = reads_q sink" "writes_q (joined tr m sink source) = writes_q source"
    "working_reads (joined tr m sink source) = working_reads sink"
    "working_writes (joined tr m sink source) = working_writes source"
    "pkind (joined tr m sink source) = KTransform"
proof -
  let ?p = "joined tr m sink source"
  have frame: "pc ?p = Created" "pkind ?p = KTransform" "GetId ?p = m" "inputs ?p = []" "outputs ?p = []"
    "input_count ?p = input_count sink" "abort_port ?p = abort_port sink"
    "chan_queue ?p InPort = chan_queue sink InPort" "chan_queue ?p OutPort = chan_queue source OutPort"
    by (simp_all add: joined_def Processor_def get_chan.simps BindAbortChannel_def GetId_def)
  have old: "inputs sink = []" "outputs source = []" "is_open sink InPort" "0 < input_count sink"
    "is_open source OutPort"
    using assms(1-5) by (auto simp: node_ok_def shape_def ins_open_def outs_open_def)
  show "reads_q ?p = reads_q sink" "writes_q ?p = writes_q source"
    using frame assms(2,4) by (simp_all add: reads_q_def writes_q_def)
  then show "node_ok (w\<lparr>next_id := n\<rparr>) m ?p"
    using assms frame old by (auto simp: node_ok_def shape_def ins_open_def)
  show "outs_open ?p" "pkind ?p = KTransform" using frame old by (simp_all add: outs_open_def)
  show "working_reads ?p = working_reads sink" "working_writes ?p = working_writes source"
    using frame old by (simp_all add: working_reads_def working_writes_def fun_eq_iff)
qed

lemma sum_indexed:
  fixes f :: "nat \<Rightarrow> nat"
  assumes "distinct ss"
  shows "(\<Sum>i\<in>{n..<n + length ss}. f (ss ! (i - n))) = sum f (set ss)"
proof -
  have "(\<Sum>i\<in>{n..<n + length ss}. f (ss ! (i - n))) = (\<Sum>i\<in>{0..<length ss}. f (ss ! i))"
    using sum.shift_bounds_nat_ivl[of "\<lambda>i. f (ss ! (i - n))" 0 n "length ss"] by (simp add: add.commute)
  also have "\<dots> = sum_list (map f ss)" by (simp add: sum_list_sum_nth)
  also have "\<dots> = sum f (set ss)" using assms by (simp add: sum_list_distinct_conv_sum_set)
  finally show ?thesis .
qed

lemma sink_writes_nothing: "pkind p = KSink \<Longrightarrow> writes_q p = {}"
  by (simp add: writes_q_def)

lemma source_reads_nothing: "pkind p = KSource \<Longrightarrow> reads_q p = {}"
  by (simp add: reads_q_def)

text \<open>The facts about the nodes of a merge that the parts of the invariant share.\<close>

lemma joins_nodes:
  assumes inv: "pipe_inv w L" "pipe_inv w R" and join: "joinable L R" and empty: "leaves L = {}" "leaves R = {}"
    and len: "length (sinks L) = length (sources R)" and joins: "joins tr w L R M"
  defines "n \<equiv> next_id w" and "k \<equiv> length (sinks L)"
  shows "dom (nodes M) = (dom (nodes L) - set (sinks L)) \<union> (dom (nodes R) - set (sources R)) \<union> {n..<n + k}"
    "i \<in> dom (nodes L) - set (sinks L) \<Longrightarrow> nodes M i = nodes L i"
    "i \<in> dom (nodes R) - set (sources R) \<Longrightarrow> nodes M i = nodes R i"
    "i \<in> {n..<n + k} \<Longrightarrow> \<exists>s t. nodes M i = Some (joined tr i s t) \<and>
       nodes L (sinks L ! (i - n)) = Some s \<and> pkind s = KSink \<and>
       nodes R (sources R ! (i - n)) = Some t \<and> pkind t = KSource"
    "i \<in> dom (nodes L) \<union> dom (nodes R) \<Longrightarrow> i < n"
proof -
  have old: "i < n" if "i \<in> dom (nodes L) \<union> dom (nodes R)" for i
    using that inv by (auto simp: pipe_inv_def node_ok_def n_def)
  then show "i \<in> dom (nodes L) \<union> dom (nodes R) \<Longrightarrow> i < n" .
  have disj: "dom (nodes L) \<inter> dom (nodes R) = {}" using join by (simp add: joinable_def)
  have out: "nodes M j = (if j \<in> dom (nodes L) - set (sinks L) then nodes L j
           else if j \<in> dom (nodes R) - set (sources R) then nodes R j else None)" if "j \<notin> {n..<n + k}" for j
    using joins that unfolding joins_def n_def k_def by (meson atLeastLessThan_iff not_le)
  have new: "nodes M i = Some (joined tr i (the (nodes L (sinks L ! (i - n)))) (the (nodes R (sources R ! (i - n)))))"
    if "i \<in> {n..<n + k}" for i
  proof -
    have "i - n < k" "n + (i - n) = i" using that by auto
    then show ?thesis using joins unfolding joins_def n_def k_def by metis
  qed
  show "i \<in> dom (nodes L) - set (sinks L) \<Longrightarrow> nodes M i = nodes L i"
    using out[of i] old[of i] by auto
  show "i \<in> dom (nodes R) - set (sources R) \<Longrightarrow> nodes M i = nodes R i"
    using out[of i] old[of i] disj by auto
  show "\<exists>s t. nodes M i = Some (joined tr i s t) \<and> nodes L (sinks L ! (i - n)) = Some s \<and> pkind s = KSink \<and>
       nodes R (sources R ! (i - n)) = Some t \<and> pkind t = KSource" if i: "i \<in> {n..<n + k}"
  proof -
    have "sinks L ! (i - n) \<in> set (sinks L)" "sources R ! (i - n) \<in> set (sources R)"
      using i len by (auto simp: k_def)
    then obtain s t where "nodes L (sinks L ! (i - n)) = Some s" "pkind s = KSink"
       "nodes R (sources R ! (i - n)) = Some t" "pkind t = KSource"
      using join unfolding joinable_def by meson
    then show ?thesis using new[OF i] by simp
  qed
  show "dom (nodes M) = (dom (nodes L) - set (sinks L)) \<union> (dom (nodes R) - set (sources R)) \<union> {n..<n + k}"
  proof (intro set_eqI)
    fix j
    show "j \<in> dom (nodes M) \<longleftrightarrow>
        j \<in> (dom (nodes L) - set (sinks L)) \<union> (dom (nodes R) - set (sources R)) \<union> {n..<n + k}"
      by (cases "j \<in> {n..<n + k}") (auto simp: new out domIff)
  qed
qed

lemma joins_queues:
  assumes inv: "pipe_inv w L" "pipe_inv w R" and join: "joinable L R" and empty: "leaves L = {}" "leaves R = {}"
    and len: "length (sinks L) = length (sources R)" and joins: "joins tr w L R M"
  defines "n \<equiv> next_id w" and "k \<equiv> length (sinks L)"
  shows "i \<in> {n..<n + k} \<Longrightarrow> node_set reads_q M i = node_set reads_q L (sinks L ! (i - n)) \<and>
      node_set writes_q M i = node_set writes_q R (sources R ! (i - n)) \<and>
      node_sum working_reads M q i = node_sum working_reads L q (sinks L ! (i - n)) \<and>
      node_sum working_writes M q i = node_sum working_writes R q (sources R ! (i - n))"
    "s \<in> set (sinks L) \<Longrightarrow> node_set writes_q L s = {} \<and> node_sum working_writes L q s = 0"
    "s \<in> set (sources R) \<Longrightarrow> node_set reads_q R s = {} \<and> node_sum working_reads R q s = 0"
proof -
  note J = joins_nodes[OF inv join empty len joins, folded n_def k_def]
  have okL: "node_ok w i p" if "nodes L i = Some p" for i p using inv(1) that by (simp add: pipe_inv_def)
  have okR: "node_ok w i p \<and> outs_open p" if "nodes R i = Some p" for i p
    using inv(2) that empty by (simp add: pipe_inv_def role_ok_def)
  show "node_set reads_q M i = node_set reads_q L (sinks L ! (i - n)) \<and>
      node_set writes_q M i = node_set writes_q R (sources R ! (i - n)) \<and>
      node_sum working_reads M q i = node_sum working_reads L q (sinks L ! (i - n)) \<and>
      node_sum working_writes M q i = node_sum working_writes R q (sources R ! (i - n))"
    if i: "i \<in> {n..<n + k}"
  proof -
    from J(4)[OF i] obtain s t where st: "nodes M i = Some (joined tr i s t)"
       "nodes L (sinks L ! (i - n)) = Some s" "pkind s = KSink"
       "nodes R (sources R ! (i - n)) = Some t" "pkind t = KSource" by blast
    from joined_node(3-6)[OF okL[OF st(2)] st(3) conjunct1[OF okR[OF st(4)]] st(5) conjunct2[OF okR[OF st(4)]],
        of i "Suc (i + next_id w)" tr]
    show ?thesis using st by (simp add: node_set_def node_sum_def)
  qed
  show "node_set writes_q L s = {} \<and> node_sum working_writes L q s = 0" if "s \<in> set (sinks L)"
  proof -
    obtain p where p: "nodes L s = Some p" "pkind p = KSink" using join \<open>s \<in> set (sinks L)\<close> by (auto simp: joinable_def)
    then show ?thesis using working_writes_0[of p q] okL[OF p(1)] sink_writes_nothing[OF p(2)]
      by (simp add: node_set_def node_sum_def node_ok_def)
  qed
  show "node_set reads_q R s = {} \<and> node_sum working_reads R q s = 0" if "s \<in> set (sources R)"
  proof -
    obtain p where p: "nodes R s = Some p" "pkind p = KSource" using join \<open>s \<in> set (sources R)\<close> by (auto simp: joinable_def)
    then show ?thesis using working_reads_0[of p q] okR[OF p(1)] source_reads_nothing[OF p(2)]
      by (simp add: node_set_def node_sum_def node_ok_def)
  qed
qed

lemma joins_balance:
  assumes inv: "pipe_inv w L" "pipe_inv w R" and join: "joinable L R" and empty: "leaves L = {}" "leaves R = {}"
    and len: "length (sinks L) = length (sources R)" and joins: "joins tr w L R M"
  shows "(\<Sum>i\<in>dom (nodes M). node_sum working_writes M q i) = (\<Sum>i\<in>dom (nodes M). node_sum working_reads M q i)"
proof -
  let ?n = "next_id w" and ?k = "length (sinks L)"
  let ?N = "{?n..<?n + ?k}" and ?DL = "dom (nodes L) - set (sinks L)" and ?DR = "dom (nodes R) - set (sources R)"
  note J = joins_nodes[OF inv join empty len joins] and Q = joins_queues[OF inv join empty len joins]
  have fin: "finite (dom (nodes L))" "finite (dom (nodes R))" using inv by (auto simp: pipe_inv_def)
  have ends: "set (sinks L) \<subseteq> dom (nodes L)" "set (sources R) \<subseteq> dom (nodes R)"
    "distinct (sinks L)" "distinct (sources R)" "?DL \<inter> ?DR = {}"
    using join by (auto simp: joinable_def)
  have N: "(?DL \<union> ?DR) \<inter> ?N = {}" using J(5) by fastforce
  have split: "(\<Sum>i\<in>dom (nodes M). f i) = (\<Sum>i\<in>?DL. f i) + (\<Sum>i\<in>?DR. f i) + (\<Sum>i\<in>?N. f i)" for f :: "nat \<Rightarrow> nat"
    unfolding J(1) using fin ends(5) N by (subst sum.union_disjoint; simp)+
  have left: "(\<Sum>i\<in>?DL. node_sum f M q i) = (\<Sum>i\<in>?DL. node_sum f L q i)" for f
    by (intro sum.cong) (simp_all only: node_sum_def J(2))
  have right: "(\<Sum>i\<in>?DR. node_sum f M q i) = (\<Sum>i\<in>?DR. node_sum f R q i)" for f
    by (intro sum.cong) (simp_all only: node_sum_def J(3))
  have mid: "(\<Sum>i\<in>?N. node_sum working_reads M q i) = sum (node_sum working_reads L q) (set (sinks L))"
    "(\<Sum>i\<in>?N. node_sum working_writes M q i) = sum (node_sum working_writes R q) (set (sources R))"
    using sum_indexed[OF ends(3), of "node_sum working_reads L q" ?n]
      sum_indexed[OF ends(4), of "node_sum working_writes R q" ?n]
      sum.cong[OF refl, of ?N "node_sum working_reads M q"] sum.cong[OF refl, of ?N "node_sum working_writes M q"]
      Q(1) unfolding len[symmetric] by metis+
  have whole: "(\<Sum>i\<in>dom (nodes L). f i) = (\<Sum>i\<in>?DL. f i) + sum f (set (sinks L))"
    "(\<Sum>i\<in>dom (nodes R). f i) = (\<Sum>i\<in>?DR. f i) + sum f (set (sources R))" for f :: "nat \<Rightarrow> nat"
    using sum.subset_diff[OF ends(1) fin(1)] sum.subset_diff[OF ends(2) fin(2)] by simp_all
  have zero: "sum (node_sum working_writes L q) (set (sinks L)) = 0"
    "sum (node_sum working_reads R q) (set (sources R)) = 0"
    using Q(2,3) by simp_all
  have bal: "(\<Sum>i\<in>dom (nodes P). node_sum working_writes P q i) = (\<Sum>i\<in>dom (nodes P). node_sum working_reads P q i)"
    if "pipe_inv w P" for P :: "('a, 'b) pipeline" using that by (simp add: pipe_inv_def)
  show ?thesis
    using bal[OF inv(1)] bal[OF inv(2)] zero unfolding split left right mid whole by linarith
qed

lemma renamed_cases:
  assumes "distinct olds" "length olds = k" "b \<in> D" "set olds \<subseteq> D"
  obtains "b \<in> D - set olds" "renamed olds [n..<n + k] b = b"
  | a where "a < k" "b = olds ! a" "renamed olds [n..<n + k] b = n + a"
proof (cases "b \<in> set olds")
  case True
  then obtain a where a: "a < k" "b = olds ! a" using assms(2) by (auto simp: in_set_conv_nth)
  then show ?thesis using that(2) renamed_nth[of olds "[n..<n + k]" a] assms(1,2) by simp
next
  case False
  then show ?thesis using that(1) assms(3) renamed_other by blast
qed

text \<open>Renaming is onto the nodes that took over, and keeps what a node reads or writes.\<close>

lemma renamed_queues:
  assumes olds: "distinct olds" "length olds = k" "set olds \<subseteq> D"
    and same: "\<And>i. i \<in> D - set olds \<Longrightarrow> h i = g i" "\<And>i. i \<in> {n..<n + k} \<Longrightarrow> h i = g (olds ! (i - n))"
  shows "b \<in> D \<Longrightarrow> renamed olds [n..<n + k] b \<in> (D - set olds) \<union> {n..<n + k} \<and> h (renamed olds [n..<n + k] b) = g b"
    "j \<in> (D - set olds) \<union> {n..<n + k} \<Longrightarrow> \<exists>b \<in> D. renamed olds [n..<n + k] b = j"
proof -
  show "renamed olds [n..<n + k] b \<in> (D - set olds) \<union> {n..<n + k} \<and> h (renamed olds [n..<n + k] b) = g b" if "b \<in> D"
    using olds(1,2) \<open>b \<in> D\<close> olds(3) by (cases rule: renamed_cases[where n = n]) (simp_all add: same)
  show "\<exists>b \<in> D. renamed olds [n..<n + k] b = j" if "j \<in> (D - set olds) \<union> {n..<n + k}"
  proof (cases "j \<in> {n..<n + k}")
    case True
    then have "renamed olds [n..<n + k] (olds ! (j - n)) = j" "olds ! (j - n) \<in> D"
      using renamed_nth[of olds "[n..<n + k]" "j - n"] olds by (auto intro!: subsetD[OF olds(3)] nth_mem)
    then show ?thesis by blast
  next
    case False
    then show ?thesis using that renamed_other by blast
  qed
qed

lemma joins_feeds:
  assumes inv: "pipe_inv w L" "pipe_inv w R" and join: "joinable L R" and empty: "leaves L = {}" "leaves R = {}"
    and len: "length (sinks L) = length (sources R)" and joins: "joins tr w L R M"
  shows "edges M = feeds (dom (nodes M)) (node_set reads_q M) (node_set writes_q M)"
proof -
  let ?n = "next_id w" and ?k = "length (sinks L)"
  let ?N = "{?n..<?n + ?k}" and ?DL = "dom (nodes L) - set (sinks L)" and ?DR = "dom (nodes R) - set (sources R)"
  let ?rl = "renamed (sinks L) [?n..<?n + ?k]" and ?rr = "renamed (sources R) [?n..<?n + ?k]"
  note J = joins_nodes[OF inv join empty len joins] and Q = joins_queues[OF inv join empty len joins]
  have ends: "set (sinks L) \<subseteq> dom (nodes L)" "set (sources R) \<subseteq> dom (nodes R)"
    "distinct (sinks L)" "distinct (sources R)"
    using join by (auto simp: joinable_def)
  have apart: "(node_set reads_q L i \<union> node_set writes_q L i) \<inter> (node_set reads_q R j \<union> node_set writes_q R j) = {}" for i j
    using join by (simp add: joinable_def)
  have L: "node_set f M i = node_set f L i" if "i \<in> ?DL" for f i using J(2)[OF that] by (simp add: node_set_def)
  have R: "node_set f M i = node_set f R i" if "i \<in> ?DR" for f i using J(3)[OF that] by (simp add: node_set_def)
  have mid: "node_set reads_q M i = node_set reads_q L (sinks L ! (i - ?n))"
    "node_set writes_q M i = node_set writes_q R (sources R ! (i - ?n))" if "i \<in> ?N" for i
    using Q(1)[OF that, of 0] by blast+
  note rl = renamed_queues[of "sinks L" ?k "dom (nodes L)" "node_set reads_q M" "node_set reads_q L" ?n,
      OF ends(3) refl ends(1) L mid(1)]
  note rr = renamed_queues[of "sources R" ?k "dom (nodes R)" "node_set writes_q M" "node_set writes_q R" ?n,
      OF ends(4) len[symmetric] ends(2) R mid(2)]
  have eL: "edges L = feeds (dom (nodes L)) (node_set reads_q L) (node_set writes_q L)"
    and eR: "edges R = feeds (dom (nodes R)) (node_set reads_q R) (node_set writes_q R)"
    using inv by (simp_all add: pipe_inv_def)
  have noL: "i \<in> ?DL" if "(i, b) \<in> edges L" for i b using that Q(2)[of i 0] by (auto simp: eL feeds_def)
  have noR: "j \<in> ?DR" if "(a, j) \<in> edges R" for a j using that Q(3)[of j 0] by (auto simp: eR feeds_def)
  have eM: "edges M = (\<lambda>(a, b). (a, ?rl b)) ` edges L \<union> (\<lambda>(a, b). (?rr a, b)) ` edges R"
    using joins by (simp add: joins_def)
  show ?thesis
  proof (intro set_eqI iffI; clarify)
    fix i j assume "(i, j) \<in> edges M"
    then consider b where "(i, b) \<in> edges L" "j = ?rl b" | a where "(a, j) \<in> edges R" "i = ?rr a"
      unfolding eM by auto
    then show "(i, j) \<in> feeds (dom (nodes M)) (node_set reads_q M) (node_set writes_q M)"
    proof cases
      case 1
      then show ?thesis using noL[OF 1(1)] rl(1)[of b] L[of i writes_q] unfolding J(1)
        by (auto simp: eL feeds_def)
    next
      case 2
      then show ?thesis using noR[OF 2(1)] rr(1)[of a] R[of j reads_q] unfolding J(1)
        by (auto simp: eR feeds_def)
    qed
  next
    fix i j assume ij: "(i, j) \<in> feeds (dom (nodes M)) (node_set reads_q M) (node_set writes_q M)"
    then obtain q where q: "q \<in> node_set writes_q M i" "q \<in> node_set reads_q M j" by (auto simp: feeds_def)
    have D: "i \<in> ?DL \<or> i \<in> ?DR \<union> ?N" "j \<in> ?DR \<or> j \<in> ?DL \<union> ?N"
      using ij unfolding J(1) by (auto simp: feeds_def)
    have wr: "i \<in> ?DL \<and> q \<in> node_set writes_q L i \<or> (\<exists>a \<in> dom (nodes R). ?rr a = i \<and> q \<in> node_set writes_q R a)"
      using D(1) q(1) rr(1) rr(2)[of i] L[of i writes_q] by blast
    have rd: "j \<in> ?DR \<and> q \<in> node_set reads_q R j \<or> (\<exists>b \<in> dom (nodes L). ?rl b = j \<and> q \<in> node_set reads_q L b)"
      using D(2) q(2) rl(1) rl(2)[of j] R[of j reads_q] by blast
    consider b where "(i, b) \<in> edges L" "?rl b = j" | a where "(a, j) \<in> edges R" "?rr a = i"
      using wr rd apart by (force simp: eL eR feeds_def)
    then show "(i, j) \<in> edges M" by cases (force simp: eM)+
  qed
qed

lemma joins_ranked:
  assumes inv: "pipe_inv w L" "pipe_inv w R" and join: "joinable L R" and empty: "leaves L = {}" "leaves R = {}"
    and len: "length (sinks L) = length (sources R)" and joins: "joins tr w L R M"
  shows "\<exists>rk :: nat \<Rightarrow> nat. \<forall>(i, j) \<in> edges M. rk i < rk j"
proof -
  let ?n = "next_id w" and ?k = "length (sinks L)"
  let ?rl = "renamed (sinks L) [?n..<?n + ?k]" and ?rr = "renamed (sources R) [?n..<?n + ?k]"
  note J = joins_nodes[OF inv join empty len joins]
  have rank: "\<exists>rk :: nat \<Rightarrow> nat. \<forall>i j. (i, j) \<in> edges P \<longrightarrow> rk i < rk j" if "pipe_inv w P" for P :: "('a, 'b) pipeline"
  proof -
    obtain rk :: "nat \<Rightarrow> nat" where "\<forall>(i, j) \<in> edges P. rk i < rk j" using \<open>pipe_inv w P\<close> by (auto simp: pipe_inv_def)
    then show ?thesis by blast
  qed
  obtain f :: "nat \<Rightarrow> nat" where f: "\<And>i j. (i, j) \<in> edges L \<Longrightarrow> f i < f j" using rank[OF inv(1)] by auto
  obtain g :: "nat \<Rightarrow> nat" where g: "\<And>i j. (i, j) \<in> edges R \<Longrightarrow> g i < g j" using rank[OF inv(2)] by auto
  let ?top = "Suc (Max (f ` dom (nodes L)))"
  define rk where "rk = (\<lambda>i. if i \<in> dom (nodes L) then f i else if i \<in> dom (nodes R) then Suc ?top + g i else ?top)"
  have top: "f i < ?top" if "i \<in> dom (nodes L)" for i
    using that inv(1) by (simp add: pipe_inv_def less_Suc_eq_le)
  have ends: "set (sinks L) \<subseteq> dom (nodes L)" "set (sources R) \<subseteq> dom (nodes R)"
    "distinct (sinks L)" "distinct (sources R)" "dom (nodes L) \<inter> dom (nodes R) = {}"
    using join by (auto simp: joinable_def)
  have inD: "edges L \<subseteq> dom (nodes L) \<times> dom (nodes L)" "edges R \<subseteq> dom (nodes R) \<times> dom (nodes R)"
    using inv by (auto simp: pipe_inv_def feeds_def)
  have rkL: "rk i = f i" if "i \<in> dom (nodes L)" for i using that by (simp add: rk_def)
  have rkR: "rk i = Suc ?top + g i" if "i \<in> dom (nodes R)" for i using that ends(5) by (auto simp: rk_def)
  have mid: "rk (?n + a) = ?top" for a using J(5)[of "?n + a"] by (auto simp: rk_def)
  have left: "rk i < rk (?rl b)" if ib: "(i, b) \<in> edges L" for i b
  proof -
    have D: "i \<in> dom (nodes L)" "b \<in> dom (nodes L)" using ib inD(1) by auto
    from ends(3) refl D(2) ends(1) show ?thesis
      by (cases rule: renamed_cases[where n = ?n]) (use rkL[OF D(1)] rkL[OF D(2)] f[OF ib] top[OF D(1)] mid in simp_all)
  qed
  have right: "rk (?rr a) < rk j" if aj: "(a, j) \<in> edges R" for a j
  proof -
    have D: "a \<in> dom (nodes R)" "j \<in> dom (nodes R)" using aj inD(2) by auto
    from ends(4) len[symmetric] D(1) ends(2) show ?thesis
      by (cases rule: renamed_cases[where n = ?n]) (use g[OF aj] rkR[OF D(1)] rkR[OF D(2)] mid in simp_all)
  qed
  have "edges M = (\<lambda>(a, b). (a, ?rl b)) ` edges L \<union> (\<lambda>(a, b). (?rr a, b)) ` edges R"
    using joins by (simp add: joins_def)
  then have "\<forall>(i, j) \<in> edges M. rk i < rk j" using left right by auto
  then show ?thesis by blast
qed

lemma joins_inv:
  assumes inv: "pipe_inv w L" "pipe_inv w R" and join: "joinable L R" and empty: "leaves L = {}" "leaves R = {}"
    and len: "length (sinks L) = length (sources R)" and joins: "joins tr w L R M"
  shows "pipe_inv (w\<lparr>next_id := next_id w + length (sinks L)\<rparr>) M"
proof -
  let ?n = "next_id w" and ?k = "length (sinks L)"
  let ?w = "w\<lparr>next_id := ?n + ?k\<rparr>"
  note J = joins_nodes[OF inv join empty len joins]
  have ok: "node_ok w i p \<and> outs_open p" if "nodes L i = Some p \<or> nodes R i = Some p" for i p
    using that inv empty by (auto simp: pipe_inv_def role_ok_def)
  have "node_ok ?w i p \<and> outs_open p" if p: "nodes M i = Some p" for i p
  proof -
    have "i \<in> dom (nodes M)" using p by auto
    then consider "nodes L i = Some p \<or> nodes R i = Some p" | "i \<in> {?n..<?n + ?k}"
      unfolding J(1) using J(2)[of i] J(3)[of i] p by (metis UnE)
    then show ?thesis
    proof cases
      case 1
      then show ?thesis using ok[OF 1] node_ok_later[of w i p "?n + ?k"] by simp
    next
      case 2
      from J(4)[OF 2] obtain s t where st: "nodes M i = Some (joined tr i s t)"
        "nodes L (sinks L ! (i - ?n)) = Some s" "pkind s = KSink"
        "nodes R (sources R ! (i - ?n)) = Some t" "pkind t = KSource" by blast
      from joined_node(1,2)[of w _ s _ t i "?n + ?k" tr] ok[of "sinks L ! (i - ?n)" s] ok[of "sources R ! (i - ?n)" t]
      show ?thesis using st 2 p by auto
    qed
  qed
  moreover have "leaves M = {}" using joins by (simp add: joins_def)
  moreover have "finite (dom (nodes M))" unfolding J(1) using inv by (simp add: pipe_inv_def)
  moreover have "\<forall>q. bq_queue (queue_at (wheap w) q) = []" using inv(1) by (simp add: pipe_inv_def)
  ultimately show ?thesis
    unfolding pipe_inv_def role_ok_def
    using joins_balance[OF inv join empty len joins] joins_feeds[OF inv join empty len joins]
      joins_ranked[OF inv join empty len joins] by simp
qed

lemma joins_roles:
  assumes inv: "pipe_inv w L" "pipe_inv w R" and roles: "roles_ok L" "roles_ok R" and ap: "apart L R"
    and empty: "leaves L = {}" "leaves R = {}"
    and len: "length (sinks L) = length (sources R)" and joins: "joins tr w L R M"
    and ends: "sources M = sources L" "sinks M = sinks R"
  shows "roles_ok M"
proof -
  note J = joins_nodes[OF inv joinableI[OF inv roles ap] empty len joins]
  have L: "i \<in> set (sources L) \<longleftrightarrow> kind_at L i = Some KSource" "i \<in> set (sinks L) \<longleftrightarrow> kind_at L i = Some KSink" for i
    using roles(1) by (auto simp: roles_ok_def)
  have R: "i \<in> set (sources R) \<longleftrightarrow> kind_at R i = Some KSource" "i \<in> set (sinks R) \<longleftrightarrow> kind_at R i = Some KSink" for i
    using roles(2) by (auto simp: roles_ok_def)
  have disj: "dom (nodes L) \<inter> dom (nodes R) = {}" using ap by (simp add: apart_def)
  have kinds: "kind_at M i = (if i \<in> dom (nodes L) - set (sinks L) then kind_at L i
      else if i \<in> dom (nodes R) - set (sources R) then kind_at R i
      else if i \<in> {next_id w..<next_id w + length (sinks L)} then Some KTransform else None)" for i
  proof -
    have "nodes M i = None" if "i \<notin> (dom (nodes L) - set (sinks L)) \<union> (dom (nodes R) - set (sources R)) \<union>
        {next_id w..<next_id w + length (sinks L)}"
      using that unfolding J(1)[symmetric] by (simp add: domIff)
    then show ?thesis using J(2)[of i] J(3)[of i] J(4)[of i] by (auto simp: kind_at_def joined_def)
  qed
  have "kind_at M i = Some KSource \<longleftrightarrow> kind_at L i = Some KSource" for i
    unfolding kinds using L(2)[of i] R(1)[of i] disj by (auto simp: kind_at_def split: if_splits)
  moreover have "kind_at M i = Some KSink \<longleftrightarrow> kind_at R i = Some KSink" for i
    unfolding kinds using L(2)[of i] R(1)[of i] disj by (auto simp: kind_at_def split: if_splits)
  ultimately show ?thesis
    using roles joins L(1) R(2) unfolding roles_ok_def ends joins_def by auto
qed

text \<open>The call returns a completed pipeline in order, in the world whose id counter has moved on.\<close>

lemma MergePipeline_inv:
  assumes "pipe_inv w L" "pipe_inv w R" "roles_ok L" "roles_ok R" "apart L R"
    "IsCompleted L" "IsCompleted R" "nodes L \<noteq> Map.empty" "nodes R \<noteq> Map.empty"
    "length (sinks L) = length (sources R)" "next_id w + length (sinks L) < 2 ^ 64"
  obtains M where "MergePipeline tr L R w = (Returned M, w\<lparr>next_id := next_id w + length (sinks L)\<rparr>)"
    "pipe_inv (w\<lparr>next_id := next_id w + length (sinks L)\<rparr>) M" "roles_ok M" "IsCompleted M"
    "sources M = sources L" "sinks M = sinks R" "joins tr w L R M"
    "bind_abort_channel M = (bind_abort_channel L \<and> bind_abort_channel R)"
proof -
  have join: "joinable L R" using assms(1-5) by (rule joinableI)
  have empty: "leaves L = {}" "leaves R = {}" using assms(6,7) by (simp_all add: IsCompleted_def)
  obtain M where M: "MergePipeline tr L R w = (Returned M, w\<lparr>next_id := next_id w + length (sinks L)\<rparr>)"
    "joins tr w L R M" "sources M = sources L" "sinks M = sinks R"
    "bind_abort_channel M = (bind_abort_channel L \<and> bind_abort_channel R)"
    using MergePipeline_joins[OF assms(1,2) join assms(6-11)] by blast
  show ?thesis
  proof (rule that[OF M(1)])
    show "pipe_inv (w\<lparr>next_id := next_id w + length (sinks L)\<rparr>) M"
      by (rule joins_inv[OF assms(1,2) join empty assms(10) M(2)])
    show "roles_ok M" by (rule joins_roles[OF assms(1-5) empty assms(10) M(2-4)])
    show "IsCompleted M" using M(2) by (simp add: joins_def IsCompleted_def)
  qed (rule M)+
qed

end
