(* ===== verification/Schedule.thy ===== *)
theory Schedule
  imports Coroutine_Inv
begin

text \<open>
  An executable scheduler for the network of coroutines: it lets the coroutines of a given list
  take their next step, one after the other, and stops where one is suspended. Every schedule
  that runs to its end is a reachable state; concrete runs are computed with it.
\<close>

definition put_proc :: "nat \<Rightarrow> 'p \<Rightarrow> ('p, 'v) net \<Rightarrow> ('p, 'v) net" where
  "put_proc i p s = s\<lparr>procs := (procs s)(i \<mapsto> p)\<rparr>"

fun sched_step :: "('p \<Rightarrow> 'v request) \<Rightarrow> (nat \<Rightarrow> 'v answer \<Rightarrow> 'p \<Rightarrow> 'p) \<Rightarrow> nat \<Rightarrow>
    ('p, 'v) net \<Rightarrow> ('p, 'v) net option" where
  "sched_step pend res i s =
     (case procs s i of
        None \<Rightarrow> None
      | Some p \<Rightarrow>
          (case pend p of
             ReqStart \<Rightarrow> Some (put_proc i (res 0 AnsGo p) s)
           | ReqPop q \<Rightarrow>
               (case BoundedQueue_Pop (queues s q) of
                  None \<Rightarrow> None
                | Some (v, bq) \<Rightarrow> Some (put_proc i (res 0 (AnsPop v) p) s\<lparr>queues := (queues s)(q := bq)\<rparr>))
           | ReqPush q v \<Rightarrow>
               (case BoundedQueue_Push v (queues s q) of
                  None \<Rightarrow> None
                | Some bq \<Rightarrow> Some (put_proc i (res 0 AnsGo p) s\<lparr>queues := (queues s)(q := bq)\<rparr>))
           | ReqAbortPop a \<Rightarrow>
               (case BoundedQueue_TryPop (aborts s a) of
                  (r, bq) \<Rightarrow> Some (put_proc i (res 0 (AnsTry (r \<noteq> None)) p) s\<lparr>aborts := (aborts s)(a := bq)\<rparr>))
           | ReqAbortPush a \<Rightarrow>
               (case BoundedQueue_TryPush (Some 0) (aborts s a) of
                  (b, bq) \<Rightarrow> Some (put_proc i (res 0 (AnsTry b) p) s\<lparr>aborts := (aborts s)(a := bq)\<rparr>))
           | ReqNone \<Rightarrow> None))"

fun sched :: "('p \<Rightarrow> 'v request) \<Rightarrow> (nat \<Rightarrow> 'v answer \<Rightarrow> 'p \<Rightarrow> 'p) \<Rightarrow> nat list \<Rightarrow>
    ('p, 'v) net \<Rightarrow> ('p, 'v) net option" where
  "sched pend res [] s = Some s"
| "sched pend res (i # is) s =
     (case sched_step pend res i s of None \<Rightarrow> None | Some s' \<Rightarrow> sched pend res is s')"

lemma sched_step_sound:
  "sched_step pend res i s = Some s' \<Longrightarrow> proc_step pend res i s s'"
  by (auto simp: put_proc_def simp del: not_None_eq split: option.splits request.splits prod.splits
      intro: proc_step.intros)

text \<open>The scheduler is stuck on a coroutine exactly where no step of it exists.\<close>

lemma sched_step_complete:
  assumes "proc_step pend res i s s'"
  shows "sched_step pend res i s \<noteq> None"
  using assms by cases (auto split: prod.splits)

declare sched_step.simps [simp del]

lemma sched_reach:
  assumes "sched pend res is s = Some s'" "net_reach pend res s0 s"
  shows "net_reach pend res s0 s'"
  using assms
proof (induction "is" arbitrary: s)
  case (Cons i "is")
  then show ?case by (auto split: option.splits intro: net_reach.step sched_step_sound)
qed simp

lemma sched_stuck:
  assumes "\<forall>i \<in> D. sched_step pend res i s = None" "dom (procs s) \<subseteq> D"
  shows "\<nexists>i s'. proc_step pend res i s s'"
proof (intro notI, elim exE)
  fix i s' assume st: "proc_step pend res i s s'"
  then have "i \<in> dom (procs s)" by cases auto
  then show False using assms sched_step_complete[OF st] by auto
qed

lemma sched_dom:
  assumes "sched pend res is s = Some s'"
  shows "dom (procs s') = dom (procs s)"
  using assms
proof (induction "is" arbitrary: s)
  case (Cons i "is")
  then obtain s1 where "sched_step pend res i s = Some s1" "sched pend res is s1 = Some s'"
    by (auto split: option.splits)
  moreover have "dom (procs s1) = dom (procs s)" using sched_step_sound[OF calculation(1)] by cases auto
  ultimately show ?case using Cons.IH by simp
qed simp

end
