(* ===== verification/Pipeline_Run.thy ===== *)
theory Pipeline_Run
  imports Pipeline_Merge Schedule
begin

text \<open>
  From the builder to the running pipeline: every pipeline that the operations of
  \<^verbatim>\<open>pipeline.h\<close> can build satisfies the builder invariant, \<^verbatim>\<open>Run\<close> starts its nodes as a
  network in order, and therefore the books of EOFs stay balanced in every interleaving and
  no pipeline without \<^verbatim>\<open>Concat\<close> can get stuck.
\<close>

section \<open>Capacities of the allocated queues\<close>

text \<open>If a pipeline allocates queues that can hold an element, so can all queues of the process.\<close>

definition caps :: "nat \<Rightarrow> 'v qheap \<Rightarrow> bool" where
  "caps c h \<longleftrightarrow> (0 < c \<longrightarrow> (\<forall>q < next_queue h. 0 < bq_capacity (queue_at h q)))"

lemma caps_make_queue: "caps c h \<Longrightarrow> caps c (snd (make_queue c h))"
  by (auto simp: caps_def BoundedQueue_def less_Suc_eq)

lemma caps_make_queueE: "caps c h \<Longrightarrow> make_queue c h = (q, h') \<Longrightarrow> caps c h'"
  using caps_make_queue by (metis snd_conv)

lemma link_setup: "link conn i node P = Some (node', P') \<Longrightarrow> same_setup P P'"
  by (auto simp: link_def same_setup_def split: option.splits prod.splits)

lemma link_all_setup: "link_all q ls node P = Some (node', P') \<Longrightarrow> same_setup P P'"
proof (induction ls arbitrary: node P)
  case (Cons i ls)
  then show ?case by (auto simp: same_setup_def split: option.splits prod.splits dest!: link_setup Cons.IH)
qed (simp add: same_setup_def)

lemma fan_out_caps:
  assumes "fan_out tr n node res w P = (node', res', w', P')" "caps (channel_size P) (wheap w)"
  shows "caps (channel_size P) (wheap w') \<and> same_setup P P'"
  using assms
proof (induction n arbitrary: node res w P)
  case (Suc n)
  let ?i = "next_id w"
  let ?no_op = "SetInputPort (Channel_shared (next_queue (wheap w))) (Processor tr NoOpTransformC ''no_op'' ?i)"
  let ?w = "w\<lparr>next_id := (?i + 1) mod 2 ^ 64, wheap := snd (make_queue (channel_size P) (wheap w))\<rparr>"
  let ?P = "(add_edge (GetId node) ?i P)\<lparr>nodes := map_insert ?i ?no_op (nodes P)\<rparr>"
  have rec: "fan_out tr n (AddOutputPort (Channel_shared (next_queue (wheap w))) node) (insert ?i res) ?w ?P
      = (node', res', w', P')"
    using Suc.prems(1)
    by (simp add: make_node_def GenerateId_def connect_multi_out_def make_queue_def Let_def GetId_def)
  have "channel_size ?P = channel_size P" by simp
  then show ?case
    using Suc.IH[OF rec] caps_make_queue[OF Suc.prems(2)] by (simp add: same_setup_def)
qed (simp add: same_setup_def)

lemma link_each_caps:
  assumes "link_each ls node w P = Some (node', w', P')" "caps (channel_size P) (wheap w)"
  shows "caps (channel_size P) (wheap w') \<and> same_setup P P'"
  using assms
proof (induction ls arbitrary: node w P)
  case (Cons i ls)
  obtain node1 P1 where l: "link (\<lambda>inp outp. (SetOutputPort (Channel_shared (next_queue (wheap w))) inp,
      AddInputPort (Channel_shared (next_queue (wheap w))) outp)) i node P = Some (node1, P1)"
    "link_each ls node1 (w\<lparr>wheap := snd (make_queue (channel_size P) (wheap w))\<rparr>) (P1\<lparr>leaves := leaves P1 - {i}\<rparr>)
      = Some (node', w', P')"
    using Cons.prems(1) by (auto simp: make_queue_def Let_def split: option.splits)
  have "channel_size P1 = channel_size P" using link_setup[OF l(1)] by (simp add: same_setup_def)
  then show ?case
    using Cons.IH[OF l(2)] caps_make_queue[OF Cons.prems(2)] link_setup[OF l(1)]
    by (simp add: same_setup_def)
qed (simp add: same_setup_def)

text \<open>Every operation allocates queues of the capacity of the pipeline and keeps that capacity.\<close>

definition keeps_caps :: "'v world \<Rightarrow> ('v, 's) pipeline \<Rightarrow> 'v world \<Rightarrow> ('v, 's) pipeline \<Rightarrow> bool" where
  "keeps_caps w P w' P' \<longleftrightarrow>
     caps (channel_size P) (wheap w) \<longrightarrow> caps (channel_size P) (wheap w') \<and> channel_size P' = channel_size P"

lemma keeps_capsI:
  assumes "same_setup P P1" "w' = w\<lparr>wheap := snd (make_queue (channel_size P) (wheap w))\<rparr>"
    "channel_size P' = channel_size P1"
  shows "keeps_caps w P w' P'"
  using assms caps_make_queue by (auto simp: keeps_caps_def same_setup_def simp del: make_queue_simps)

lemma AddTransform_caps:
  assumes "AddTransform leaf t w P = (Returned i, w', P')"
  shows "keeps_caps w P w' P'"
proof -
  obtain t' P1 where "link (connect_queue (next_queue (wheap w))) leaf t P = Some (t', P1)"
    "w' = w\<lparr>wheap := snd (make_queue (channel_size P) (wheap w))\<rparr>" "channel_size P' = channel_size P1"
    using assms by (auto simp: AddTransform_def Let_def make_queue_def split: option.splits)
  then show ?thesis by (blast intro: keeps_capsI link_setup)
qed

lemma merge_to_caps:
  assumes "merge_to b node ord w P = (Returned i, w', P')"
  shows "keeps_caps w P w' P'"
proof -
  obtain t' P1 where "link_all (next_queue (wheap w)) ord node P = Some (t', P1)"
    "w' = w\<lparr>wheap := snd (make_queue (channel_size P) (wheap w))\<rparr>" "channel_size P' = channel_size P1"
    using assms by (auto simp: merge_to_def Let_def make_queue_def split: option.splits)
  then show ?thesis by (blast intro: keeps_capsI link_all_setup)
qed

lemma merge_caps:
  assumes "merge b node ord w P = (Returned i, w', P')"
  shows "keeps_caps w P w' P'"
proof -
  obtain t' P1 where "link_all (next_queue (wheap w)) ord node P = Some (t', P1)"
    "w' = w\<lparr>wheap := snd (make_queue (channel_size P) (wheap w))\<rparr>" "channel_size P' = channel_size P1"
    using assms by (auto simp: merge_def Let_def make_queue_def split: option.splits if_splits)
  then show ?thesis by (blast intro: keeps_capsI link_all_setup)
qed

lemma register_sink_caps:
  assumes "register_sink r = (Returned i, w', P')" "\<And>w1 P1. r = (Returned i, w1, P1) \<Longrightarrow> keeps_caps w P w1 P1"
  shows "keeps_caps w P w' P'"
proof -
  obtain P1 where "r = (Returned i, w', P1)" "P' = P1\<lparr>sinks := sinks P1 @ [i]\<rparr>"
    using assms(1) by (cases r; cases "fst r") (auto simp: register_sink_def)
  then show ?thesis using assms(2)[of w' P1] by (simp add: keeps_caps_def)
qed

lemma make_node_caps: "make_node tr c nm w = (p, w') \<Longrightarrow> wheap w' = wheap w"
  by (auto simp: make_node_def GenerateId_def)

lemma attach_split_caps:
  assumes "attach_split leaf node res w P = (Returned r, w', P')"
  shows "keeps_caps w P w' P'"
proof -
  obtain t' P1 where "link (connect_queue (next_queue (wheap w))) leaf node P = Some (t', P1)"
    "w' = w\<lparr>wheap := snd (make_queue (channel_size P) (wheap w))\<rparr>" "channel_size P' = channel_size P1"
    using assms by (auto simp: attach_split_def Let_def make_queue_def split: option.splits)
  then show ?thesis by (blast intro: keeps_capsI link_setup)
qed

lemma split_caps:
  assumes "fan_out tr n node {} w P = (node', res, w1, P1)" "attach_split leaf node' res w1 P1 = (Returned r, w', P')"
  shows "keeps_caps w P w' P'"
  using fan_out_caps[OF assms(1)] attach_split_caps[OF assms(2)] by (auto simp: keeps_caps_def same_setup_def)

lemma DispatchFrom_caps:
  assumes "DispatchFrom tr leaf node w P = (Returned r, w', P')"
  shows "keeps_caps w P w' P'"
  using assms by (auto simp: DispatchFrom_def split: option.splits prod.splits intro: split_caps)

lemma ForkFrom_caps:
  fixes P :: "('v, 's) pipeline"
  assumes "ForkFrom tr leaf sz w P = (Returned r, w', P')"
  shows "keeps_caps w P w' P'"
proof -
  obtain node :: "('v, 's) processor" and w1 where n: "make_node tr (ForkC sz) ''fork'' w = (node, w1)" by force
  obtain node' res w2 P1 where fan: "fan_out tr sz node {} w1 P = (node', res, w2, P1)" by (metis prod_cases4)
  have "attach_split leaf node' res w2 P1 = (Returned r, w', P')"
    using assms n fan by (auto simp: ForkFrom_def split: option.splits if_splits)
  from split_caps[OF fan this] make_node_caps[OF n] show ?thesis by (simp add: keeps_caps_def)
qed

lemma ConcatFrom_caps:
  fixes P :: "('v, 's) pipeline"
  assumes "ConcatFrom tr ls w P = (Returned r, w', P')"
  shows "keeps_caps w P w' P'"
proof -
  obtain node :: "('v, 's) processor" and w1 where
    n: "make_node tr (ConcatC (length ls)) ''concat'' w = (node, w1)" by force
  obtain node' P1 where "link_each ls node w1 P = Some (node', w', P1)" "channel_size P' = channel_size P1"
    using assms n by (auto simp: ConcatFrom_def Let_def split: option.splits if_splits)
  then show ?thesis
    using link_each_caps[of ls node w1 P node' w' P1] make_node_caps[OF n]
    by (simp add: keeps_caps_def same_setup_def)
qed

lemma add_transforms_caps:
  assumes "creater_ok creater" "add_transforms creater k ls nl w P = (Returned nl', w', P')"
    "caps (channel_size P) (wheap w)"
  shows "caps (channel_size P) (wheap w') \<and> channel_size P' = channel_size P"
  using assms(2-)
proof (induction ls arbitrary: k nl w P)
  case (Cons i ls)
  obtain t w1 where c: "creater k w = (Inr t, w1)"
    using Cons.prems(1) by (auto split: prod.splits sum.splits)
  let ?w2 = "w1\<lparr>wheap := snd (make_queue (channel_size P) (wheap w1))\<rparr>"
  have w1: "wheap w1 = wheap w" using creater_okD(2)[OF assms(1) c] .
  obtain t' P1 where l: "link (connect_queue (next_queue (wheap w1))) i t P = Some (t', P1)"
    and rec: "add_transforms creater (Suc k) ls (insert (GetId t) nl) ?w2
        (P1\<lparr>nodes := map_insert (GetId t) t' (nodes P1)\<rparr>) = (Returned nl', w', P')"
    using Cons.prems(1) c
    by (auto simp: Let_def new_node_check_def make_queue_def split: option.splits if_splits)
  show ?case
    using Cons.IH[OF rec] link_setup[OF l] caps_make_queue[OF Cons.prems(2)] w1 by (simp add: same_setup_def)
qed simp

lemma AddTransform_each_caps:
  assumes "creater_ok creater" "AddTransform_each creater ord w P = (Returned nl, w', P')"
  shows "keeps_caps w P w' P'"
  using assms(2) add_transforms_caps[OF assms(1)]
  by (auto simp: AddTransform_each_def keeps_caps_def split: prod.splits outcome.splits)

section \<open>Pipelines that can be built\<close>

text \<open>
  The pipelines the theorems are about. Any sequence of calls of the public interface that return, with nodes constructed in between.
  The arguments obey the types and the ownership rules of the interface: a node is passed once,
  as constructed, and an unordered set is iterated without repetition. The endpoints are sources and sinks: \<^verbatim>\<open>ChannelSource\<close> and
  \<^verbatim>\<open>ChannelSink\<close>, whose queues other code reads and writes, are not included. An empty set of
  leaves and a leaf listed twice are excluded where the code does not check them.
  A process may build several pipelines before it runs one (\<open>others\<close>), and
  \<^verbatim>\<open>MergePipeline\<close> makes one of two that share no node and no queue.
\<close>

definition idle :: "'v world \<Rightarrow> bool" where
  "idle w \<longleftrightarrow> (\<forall>q. bq_queue (queue_at (wheap w) q) = [])"

inductive built :: "'v world \<Rightarrow> ('v, 's) pipeline \<Rightarrow> bool" where
  new: "idle w \<Longrightarrow> caps cs (wheap w) \<Longrightarrow> built w (Pipeline binds cs nm)"
| others: "built w P \<Longrightarrow> next_id w \<le> next_id w' \<Longrightarrow> next_queue (wheap w) \<le> next_queue (wheap w') \<Longrightarrow>
    idle w' \<Longrightarrow> caps (channel_size P) (wheap w') \<Longrightarrow> built w' P"
| merge_pipeline: "built w L \<Longrightarrow> built w R \<Longrightarrow> apart L R \<Longrightarrow> next_id w + length (sinks L) < 2 ^ 64 \<Longrightarrow>
    MergePipeline tr L R w = (Returned M, w') \<Longrightarrow> built w' M"
| construct: "built w P \<Longrightarrow> make_node tr (c :: ('v, 's) node_class) nm w = (p, w') \<Longrightarrow> Suc (next_id w) < 2 ^ 64 \<Longrightarrow> built w' P"
| add_source: "built w P \<Longrightarrow> fresh w KSource src \<Longrightarrow> AddSource src P = (Returned i, P') \<Longrightarrow> built w P'"
| add_transform: "built w P \<Longrightarrow> fresh w KTransform t \<Longrightarrow>
    AddTransform leaf t w P = (Returned i, w', P') \<Longrightarrow> built w' P'"
| add_transform_each: "built w P \<Longrightarrow> creater_ok creater \<Longrightarrow> distinct ord \<Longrightarrow> set ord = leaves P \<Longrightarrow>
    next_id w + length ord < 2 ^ 64 \<Longrightarrow>
    AddTransform_each creater ord w P = (Returned nl, w', P') \<Longrightarrow> built w' P'"
| set_sink: "built w P \<Longrightarrow> fresh w KSink sink \<Longrightarrow> distinct ord \<Longrightarrow> set ord = leaves P \<Longrightarrow>
    SetSink sink ord w P = (Returned i, w', P') \<Longrightarrow> built w' P'"
| set_sink_to: "built w P \<Longrightarrow> fresh w KSink sink \<Longrightarrow> distinct ord \<Longrightarrow> ord \<noteq> [] \<Longrightarrow>
    SetSink_to sink ord w P = (Returned i, w', P') \<Longrightarrow> built w' P'"
| merge: "built w P \<Longrightarrow> fresh w KTransform t \<Longrightarrow> distinct ord \<Longrightarrow> set ord = leaves P \<Longrightarrow>
    Merge t ord w P = (Returned i, w', P') \<Longrightarrow> built w' P'"
| merge_to: "built w P \<Longrightarrow> fresh w KTransform t \<Longrightarrow> distinct ord \<Longrightarrow> ord \<noteq> [] \<Longrightarrow>
    Merge_to t ord w P = (Returned i, w', P') \<Longrightarrow> built w' P'"
| merge_noop: "built w P \<Longrightarrow> Suc (next_id w) < 2 ^ 64 \<Longrightarrow> distinct ord \<Longrightarrow> set ord = leaves P \<Longrightarrow>
    Merge_noop tr ord w P = (Returned i, w', P') \<Longrightarrow> built w' P'"
| merge_noop_to: "built w P \<Longrightarrow> Suc (next_id w) < 2 ^ 64 \<Longrightarrow> distinct ord \<Longrightarrow> ord \<noteq> [] \<Longrightarrow>
    Merge_noop_to tr ord w P = (Returned i, w', P') \<Longrightarrow> built w' P'"
| dispatch: "built w P \<Longrightarrow> fresh w (KOneI n) d \<Longrightarrow> 0 < n \<Longrightarrow> nodes P (GetId d) = None \<Longrightarrow>
    next_id w + n < 2 ^ 64 \<Longrightarrow> DispatchFrom tr leaf d w P = (Returned r, w', P') \<Longrightarrow> built w' P'"
| fork: "built w P \<Longrightarrow> next_id w + sz + 1 < 2 ^ 64 \<Longrightarrow>
    ForkFrom tr leaf sz w P = (Returned r, w', P') \<Longrightarrow> built w' P'"
| concat: "built w P \<Longrightarrow> Suc (next_id w) < 2 ^ 64 \<Longrightarrow> distinct ls \<Longrightarrow>
    ConcatFrom tr ls w P = (Returned i, w', P') \<Longrightarrow> built w' P'"
| abort_channel: "built w P \<Longrightarrow> built w (SetAbortChannel c P)"

lemma new_inv: "idle w \<Longrightarrow> pipe_inv w (Pipeline binds cs nm) \<and> roles_ok (Pipeline binds cs nm)"
  by (auto simp: pipe_inv_def Pipeline_def edges_def feeds_def idle_def roles_ok_def kind_at_def)

lemma pipe_inv_finite: "pipe_inv w P \<Longrightarrow> finite (dom (nodes P))"
  by (simp add: pipe_inv_def)

lemma pipe_inv_others:
  assumes "pipe_inv w P" "next_id w \<le> next_id w'" "next_queue (wheap w) \<le> next_queue (wheap w')" "idle w'"
  shows "pipe_inv w' P"
proof -
  have "node_ok w' i p" if "node_ok w i p" for i and p :: "('a, 'b) processor"
    using that assms(2,3) unfolding node_ok_def by (meson order.strict_trans2)
  then show ?thesis using assms(1,4) unfolding pipe_inv_def idle_def by blast
qed

text \<open>A call of \<^verbatim>\<open>MergePipeline\<close> that returns did one of three things.\<close>

lemma MergePipeline_Returned:
  assumes "MergePipeline tr L R w = (Returned M, w')" "finite (dom (nodes L))" "finite (dom (nodes R))"
  obtains "nodes L = Map.empty" "M = R" "w' = w" | "nodes R = Map.empty" "M = L" "w' = w"
  | "IsCompleted L" "IsCompleted R" "nodes L \<noteq> Map.empty" "nodes R \<noteq> Map.empty"
    "length (sinks L) = length (sources R)" "channel_size M = 0"
  using assms
  by (auto simp: MergePipeline_def Let_def GetProcessorSize_def card_eq_0_iff dom_eq_empty_conv
      split: if_splits option.splits prod.splits)

lemma MergePipeline_ok:
  assumes "pipe_inv w L \<and> roles_ok L" "pipe_inv w R \<and> roles_ok R" "apart L R"
    "next_id w + length (sinks L) < 2 ^ 64" "MergePipeline tr L R w = (Returned M, w')"
  shows "pipe_inv w' M \<and> roles_ok M"
  using assms(5) pipe_inv_finite[OF conjunct1[OF assms(1)]] pipe_inv_finite[OF conjunct1[OF assms(2)]]
proof (cases rule: MergePipeline_Returned)
  case 3
  obtain M' where "MergePipeline tr L R w = (Returned M', w\<lparr>next_id := next_id w + length (sinks L)\<rparr>)"
    "pipe_inv (w\<lparr>next_id := next_id w + length (sinks L)\<rparr>) M'" "roles_ok M'"
    using MergePipeline_inv[of w L R tr] assms(1-4) 3 by metis
  then show ?thesis using assms(5) by simp
qed (use assms(1,2) in simp_all)

lemma fresh_kind: "fresh w k p \<Longrightarrow> pkind p = k"
  by (auto simp: fresh_def)

lemma fresh_inner: "fresh w KTransform p \<Longrightarrow> pkind p \<in> inner" "fresh w (KOneI n) p \<Longrightarrow> pkind p \<in> inner"
  by (auto simp: fresh_def)

lemma built_ok: "built w P \<Longrightarrow> pipe_inv w P \<and> roles_ok P"
proof (induction rule: built.induct)
  case (new w cs binds nm)
  then show ?case using new_inv by blast
next
  case (others w P w')
  then show ?case using pipe_inv_others by blast
next
  case (merge_pipeline w L R tr M w')
  then show ?case
    using MergePipeline_ok[of w L R tr M w'] by blast
next
  case (construct w P tr c nm p w')
  then show ?case using make_node_fresh(2)[OF construct(2,3)] pipe_inv_later[of w P "Suc (next_id w)"] by simp
next
  case (merge w P t ord i w' P')
  then show ?case
    using merge_inv[of w P True t ord] merge_grows[of True t ord w P i w' P' inner] inner_roles[of P P'] fresh_inner(1)[OF merge(2)]
    by (simp add: Merge_def)
next
  case (merge_to w P t ord i w' P')
  then show ?case
    using merge_to_inv[of w P True t ord] merge_to_grows[of True t ord w P i w' P' inner] inner_roles[of P P'] fresh_inner(1)[OF merge_to(2)]
    by (simp add: Merge_to_def)
next
  case (abort_channel w P c)
  then show ?case by (simp add: SetAbortChannel_def roles_ok_def kind_at_def)
next
  case (add_source w P src i P')
  then show ?case using AddSource_inv[of w P src i P'] roles_AddSource[of P src i P'] fresh_kind by blast
next
  case (add_transform w P t leaf i w' P')
  then show ?case
    using AddTransform_inv[of w P t leaf i w' P'] AddTransform_grows[OF add_transform(3), of inner] inner_roles
      fresh_inner(1)[OF add_transform(2)] by blast
next
  case (add_transform_each w P creater ord nl w' P')
  then show ?case
    using AddTransform_each_inv[of creater w P ord nl w' P'] AddTransform_each_grows[of creater ord w P nl w' P' inner]
      inner_roles[of P P'] by simp
next
  case (set_sink w P sink ord i w' P')
  then show ?case using SetSink_inv[of w P sink ord i w' P'] SetSink_roles(1)[of P sink ord w i w' P'] fresh_kind by blast
next
  case (set_sink_to w P sink ord i w' P')
  then show ?case using SetSink_to_inv[of w P sink ord i w' P'] SetSink_roles(2)[of P sink ord w i w' P'] fresh_kind by blast
next
  case (merge_noop w P ord tr i w' P')
  then show ?case using Merge_noop_inv[of w P ord tr i w' P'] Merge_noop_grows(1)[of inner tr ord w P i w' P'] inner_roles[of P P'] by simp
next
  case (merge_noop_to w P ord tr i w' P')
  then show ?case using Merge_noop_to_inv[of w P ord tr i w' P'] Merge_noop_grows(2)[of inner tr ord w P i w' P'] inner_roles[of P P'] by simp
next
  case (dispatch w P n d tr leaf r w' P')
  then show ?case
    using DispatchFrom_inv[of w P n d tr leaf r w' P'] DispatchFrom_grows[of tr leaf d w P r w' P' inner] inner_roles[of P P']
      fresh_inner(2)[OF dispatch(2)] by simp
next
  case (fork w P sz tr leaf r w' P')
  then show ?case using ForkFrom_inv[of w P sz tr leaf r w' P'] ForkFrom_grows[of tr leaf sz w P r w' P' inner] inner_roles[of P P'] by simp
next
  case (concat w P ls tr i w' P')
  then show ?case using ConcatFrom_inv[of w P ls tr i w' P'] ConcatFrom_grows[of tr ls w P i w' P' inner] inner_roles[of P P'] by simp
qed

lemma built_pipe_inv: "built w P \<Longrightarrow> pipe_inv w P"
  by (simp add: built_ok)

lemma built_roles: "built w P \<Longrightarrow> roles_ok P"
  by (simp add: built_ok)

lemma built_step_caps:
  assumes "keeps_caps w P w' P'" "caps (channel_size P) (wheap w)"
  shows "caps (channel_size P') (wheap w')"
  using assms by (simp add: keeps_caps_def)

lemma built_caps: "built w P \<Longrightarrow> caps (channel_size P) (wheap w)"
proof (induction rule: built.induct)
  case (new w cs binds nm)
  then show ?case by (simp add: Pipeline_def)
next
  case (merge_pipeline w L R tr M w')
  from merge_pipeline(5) pipe_inv_finite[OF built_pipe_inv[OF merge_pipeline(1)]]
    pipe_inv_finite[OF built_pipe_inv[OF merge_pipeline(2)]] show ?case
    by (cases rule: MergePipeline_Returned) (use merge_pipeline.IH in \<open>simp_all add: caps_def\<close>)
next
  case (construct w P tr c nm p w')
  then show ?case using make_node_caps[OF construct(2)] by simp
next
  case (add_source w P src i P')
  then show ?case by (auto simp: AddSource_def Let_def split: option.splits)
next
  case (set_sink w P sink ord i w' P')
  then show ?case by (auto simp: SetSink_def intro!: built_step_caps[of w P w' P'] elim!: register_sink_caps merge_caps)
next
  case (set_sink_to w P sink ord i w' P')
  then show ?case by (auto simp: SetSink_to_def intro!: built_step_caps[of w P w' P'] elim!: register_sink_caps merge_to_caps)
next
  case (merge_noop w P ord tr i w' P')
  then show ?case using make_node_caps[of tr NoOpTransformC "''no_op''" w]
    by (fastforce simp: Merge_noop_def keeps_caps_def split: prod.splits dest!: merge_caps)
next
  case (merge_noop_to w P ord tr i w' P')
  then show ?case using make_node_caps[of tr NoOpTransformC "''no_op''" w]
    by (fastforce simp: Merge_noop_to_def keeps_caps_def split: prod.splits dest!: merge_to_caps)
next
  case (abort_channel w P c)
  then show ?case by (simp add: SetAbortChannel_def)
next
  case (add_transform w P t leaf i w' P')
  then show ?case using AddTransform_caps built_step_caps by blast
next
  case (add_transform_each w P creater ord nl w' P')
  then show ?case using AddTransform_each_caps built_step_caps by blast
next
  case (merge w P t ord i w' P')
  then show ?case using merge_caps[of True t ord w P i w' P'] built_step_caps by (metis Merge_def)
next
  case (merge_to w P t ord i w' P')
  then show ?case using merge_to_caps[of True t ord w P i w' P'] built_step_caps by (metis Merge_to_def)
next
  case (dispatch w P n d tr leaf r w' P')
  then show ?case using DispatchFrom_caps built_step_caps by blast
next
  case (fork w P sz tr leaf r w' P')
  then show ?case using ForkFrom_caps built_step_caps by blast
next
  case (concat w P ls tr i w' P')
  then show ?case using ConcatFrom_caps built_step_caps by blast
qed

section \<open>Binding the abort channel\<close>

text \<open>No code of a running coroutine changes its abort port.\<close>

lemma abort_port_simps [simp]:
  "abort_port (work_failed e p) = abort_port p" "abort_port (work_end_ok now p) = abort_port p"
  "abort_port (after_work now p) = abort_port p" "abort_port (await_pop r k p) = abort_port p"
  "abort_port (await_push v r cs p) = abort_port p"
  by (auto simp: work_failed_def work_end_ok_def after_work_defs await_pop_def await_push_def
      split: node_class.splits)

lemma abort_port_exec_simple [simp]: "abort_port (exec_simple now cs p) = abort_port p"
  by (auto simp: exec_simple_def GetChannel_frame(3) split: list.splits cmd.splits sum.splits)

lemma abort_port_exec_body [simp]: "abort_port (exec_body now b p) = abort_port p"
  by (auto simp: exec_body_def split: prod.splits sum.splits)

lemma abort_port_exec [simp]:
  "abort_port (exec_cmds now cs p) = abort_port p" "abort_port (pop_return now r v p) = abort_port p"
  "abort_port (pop_checked now r k v sr p) = abort_port p"
  by (auto simp: exec_cmds_def pop_return_def pop_checked_def split: list.splits cmd.splits)

lemma abort_port_exec_hosted [simp]: "abort_port (exec_hosted hs e p) = abort_port p"
  by (induction hs e p rule: exec_hosted.induct) (auto simp: GetChannel_frame(3) split: sum.splits)

lemma dec_count_abort_port: "dec_count k p = (k', p') \<Longrightarrow> abort_port p' = abort_port p"
  by (cases k) auto

lemma abort_port_close_input_got [simp]: "abort_port (close_input_got r k hs e v p) = abort_port p"
  by (auto simp: close_input_got_def dec_count_abort_port split: prod.splits)

lemma abort_port_pop_got [simp]: "abort_port (pop_got now r k v p) = abort_port p"
  by (auto simp: pop_got_def Let_def check_abort_def split: prod.splits dest!: dec_count_abort_port)

lemma abort_port_resume: "abort_port (resume now ans p) = abort_port p"
  by (cases "pc p"; cases ans)
    (auto simp: start_work_def push_done_def check_abort_def enter_hosted_def Let_def
      split: option.splits sum.splits)

definition all_bound :: "(('v, 's) processor, 'v) net \<Rightarrow> bool" where
  "all_bound s \<longleftrightarrow> (\<forall>i p. procs s i = Some p \<longrightarrow> chan_bool (abort_port p))"

lemma reach_bound:
  assumes "net_reach pending resume s0 s" "all_bound s0"
  shows "all_bound s"
  using assms
proof (induction rule: net_reach.induct)
  case (step s i s')
  from step(2) step.IH[OF step.prems] show ?case
    by cases (auto simp: all_bound_def abort_port_resume simp del: resume.simps)
qed (auto simp: all_bound_def)

lemma bound_not_lost: "all_bound s \<Longrightarrow> \<not> co.some_lost s"
  by (auto simp: all_bound_def co.some_lost_def bad_def)

section \<open>The network that Run starts\<close>

lemma Run_Returned:
  assumes "Run ex garbage w P = Returned s"
  obtains c where "leaves P = {}" "procs s = Run_bind c P" "queues s = queue_at (wheap w)" "chan_bool c"
  using assms
  by (auto simp: Run_def Run_abort_channel_def Channel_sized_def make_queue_def Let_def chan_bool_def
      split: if_splits)

lemma Run_net_ok:
  assumes inv: "pipe_inv w P" and run: "Run ex garbage w P = Returned s"
  shows "co.net_ok (dom (nodes P)) (node_set reads_q P) (node_set writes_q P)
    (\<lambda>q. bq_capacity (queue_at (wheap w) q)) s"
proof -
  from run obtain c where s: "leaves P = {}" "procs s = Run_bind c P" "queues s = queue_at (wheap w)"
    by (rule Run_Returned)
  have procs: "procs s i = Some p \<Longrightarrow> \<exists>p0. nodes P i = Some p0 \<and>
      p = (if bind_abort_channel P then BindAbortChannel c p0 else p0)" for i p
    by (auto simp: s Run_bind_def)
  have p0: "nodes P i = Some p0 \<Longrightarrow> pc p0 = Created \<and> shape p0 \<and> ins_open p0 \<and> outs_open p0" for i p0
    using inv s(1) by (auto simp: pipe_inv_def node_ok_def role_ok_def)
  have owed: "co.reads_of s q i = node_sum working_reads P q i" "co.writes_of s q i = node_sum working_writes P q i" for q i
    using p0 by (auto simp: co.reads_of_def co.writes_of_def node_sum_def s Run_bind_def to_read_def to_write_def
        split: option.splits)
  have sets: "0 < node_sum working_reads P q i \<Longrightarrow> q \<in> node_set reads_q P i"
    "0 < node_sum working_writes P q i \<Longrightarrow> q \<in> node_set writes_q P i" for q i
    using p0[of i] working_reads_0 working_writes_0
    by (fastforce simp: node_sum_def node_set_def split: option.splits)+
  have bal: "co.balanced (dom (nodes P)) s"
    unfolding co.balanced_def owed s(3) using inv by (simp add: pipe_inv_def)
  have "proc_inv p" if "procs s i = Some p" for i p
    using procs[OF that] p0 by (auto simp: proc_inv_def)
  moreover have "dom (procs s) = dom (nodes P)" by (auto simp: s Run_bind_def dom_def)
  moreover have "queue_inv (queues s q)" for q using inv by (simp add: s pipe_inv_def queue_inv_def)
  ultimately show ?thesis
    unfolding co.net_ok_def using bal sets owed s(3) by simp
qed

lemma Run_tail_ok:
  assumes "pipe_inv w P" "Run ex garbage w P = Returned s"
  shows "co.tail_ok s"
proof -
  from assms(2) have "queues s = queue_at (wheap w)" by (rule Run_Returned)
  then show ?thesis using assms(1) by (simp add: co.tail_ok_def pipe_inv_def)
qed

lemma Run_bound:
  assumes "Run ex garbage w P = Returned s" "bind_abort_channel P"
  shows "all_bound s"
proof -
  from assms(1) obtain c where "procs s = Run_bind c P" "chan_bool c" by (rule Run_Returned)
  then show ?thesis using assms(2) by (auto simp: all_bound_def Run_bind_def)
qed

text \<open>Every reachable state is in order as long as no node was lost, in a bound pipeline always.\<close>

lemma surviving_ok:
  assumes "pipe_inv w P" "Run ex garbage w P = Returned s0" "net_reach pending resume s0 s" "\<not> co.some_lost s"
  shows "co.net_ok (dom (nodes P)) (node_set reads_q P) (node_set writes_q P)
      (\<lambda>q. bq_capacity (queue_at (wheap w) q)) s" "co.tail_ok s"
proof -
  have fin: "finite (dom (nodes P))" using assms(1) by (simp add: pipe_inv_def)
  show "co.net_ok (dom (nodes P)) (node_set reads_q P) (node_set writes_q P)
      (\<lambda>q. bq_capacity (queue_at (wheap w) q)) s"
    using co.net_reach_ok[OF assms(3) Run_net_ok[OF assms(1,2)] fin] assms(4) by blast
  show "co.tail_ok s"
    using co.net_reach_tail[OF assms(3) Run_net_ok[OF assms(1,2)] fin Run_tail_ok[OF assms(1,2)]] assms(4) by blast
qed

lemma running_not_lost:
  assumes "Run ex garbage w P = Returned s0" "bind_abort_channel P" "net_reach pending resume s0 s"
  shows "\<not> co.some_lost s"
  using bound_not_lost reach_bound[OF assms(3) Run_bound[OF assms(1,2)]] by blast

lemma running_ok:
  assumes "pipe_inv w P" "Run ex garbage w P = Returned s0" "bind_abort_channel P"
    "net_reach pending resume s0 s"
  shows "co.net_ok (dom (nodes P)) (node_set reads_q P) (node_set writes_q P)
      (\<lambda>q. bq_capacity (queue_at (wheap w) q)) s" "co.tail_ok s"
  using surviving_ok[OF assms(1,2,4)] running_not_lost[OF assms(2-4)] by blast+

section \<open>Untangled pipelines\<close>

text \<open>
  A pipeline is untangled when no node reads several queues (there is no \<^verbatim>\<open>Concat\<close> of several inputs) or no
  node writes several queues (there is no \<^verbatim>\<open>Fork\<close> or \<^verbatim>\<open>Dispatch\<close> with several outputs).
\<close>

definition no_concat :: "('v, 's) pipeline \<Rightarrow> bool" where
  "no_concat P \<longleftrightarrow> (\<forall>i p n. nodes P i = Some p \<longrightarrow> pkind p = KMulti n \<longrightarrow> n \<le> 1)"

lemma no_concat_single:
  assumes "no_concat P" "q \<in> node_set reads_q P i" "q' \<in> node_set reads_q P i"
  shows "q = q'"
proof -
  obtain p where p: "nodes P i = Some p" using assms(2) by (auto simp: node_set_def split: option.splits)
  have "n \<le> 1" if "pkind p = KMulti n" for n using assms(1) p that by (auto simp: no_concat_def)
  then have "r = r'" if "r \<in> set (in_refs (pkind p))" "r' \<in> set (in_refs (pkind p))" for r r'
    using that by (cases "pkind p") auto
  then show ?thesis using assms(2,3) p by (auto simp: reads_q_def) (metis option.inject)
qed

definition no_split :: "('v, 's) pipeline \<Rightarrow> bool" where
  "no_split P \<longleftrightarrow> (\<forall>i p n. nodes P i = Some p \<longrightarrow> pkind p = KOneI n \<longrightarrow> n \<le> 1)"

lemma no_split_single:
  assumes "no_split P" "q \<in> node_set writes_q P i" "q' \<in> node_set writes_q P i"
  shows "q = q'"
proof -
  obtain p where p: "nodes P i = Some p" using assms(2) by (auto simp: node_set_def split: option.splits)
  have "n \<le> 1" if "pkind p = KOneI n" for n using assms(1) p that by (auto simp: no_split_def)
  then have "r = r'" if "r \<in> set (out_refs (pkind p))" "r' \<in> set (out_refs (pkind p))" for r r'
    using that by (cases "pkind p") auto
  then show ?thesis using assms(2,3) p by (auto simp: writes_q_def) (metis option.inject)
qed

definition untangled :: "('v, 's) pipeline \<Rightarrow> bool" where
  "untangled P \<longleftrightarrow> no_concat P \<or> no_split P"

lemma untangledI: "no_concat P \<Longrightarrow> untangled P" "no_split P \<Longrightarrow> untangled P"
  by (simp_all add: untangled_def)

lemma caps_positive:
  assumes "pipe_inv w P" "caps (channel_size P) (wheap w)" "0 < channel_size P" "q \<in> node_set writes_q P i"
  shows "0 < bq_capacity (queue_at (wheap w) q)"
proof -
  obtain p where p: "nodes P i = Some p" "q \<in> writes_q p"
    using assms(4) by (auto simp: node_set_def split: option.splits)
  then have "q < next_queue (wheap w)" using assms(1) by (auto simp: pipe_inv_def node_ok_def)
  then show ?thesis using assms(2,3) by (simp add: caps_def)
qed

text \<open>The progress argument of a pipeline in order whose queues can hold an element.\<close>

lemma surviving_progress:
  assumes inv: "pipe_inv w P" and "untangled P" "\<not> co.some_lost s" "Run ex garbage w P = Returned s0"
    "net_reach pending resume s0 s" "\<not> all_ended pending s"
    "\<And>i q. q \<in> node_set writes_q P i \<Longrightarrow> 0 < bq_capacity (queue_at (wheap w) q)"
  shows "\<exists>i s'. proc_step pending resume i s s'"
proof -
  have "acyclic (feeds (dom (nodes P)) (node_set reads_q P) (node_set writes_q P))"
    using pipe_inv_acyclic[OF inv] inv by (simp add: pipe_inv_def)
  note facts = surviving_ok(1)[OF inv assms(4,5,3)] pipe_inv_finite[OF inv] this
  from assms(2) consider "no_concat P" | "no_split P" unfolding untangled_def by blast
  then show ?thesis
  proof cases
    case 1
    show ?thesis by (rule co.no_deadlock[OF facts]) (use no_concat_single[OF 1] assms(6,7) in blast)+
  next
    case 2
    show ?thesis by (rule co.no_deadlock_out[OF facts]) (use no_split_single[OF 2] assms(6,7) in blast)+
  qed
qed

lemma in_order_progress:
  assumes "pipe_inv w P" "untangled P" "bind_abort_channel P" "Run ex garbage w P = Returned s0"
    "net_reach pending resume s0 s" "\<not> all_ended pending s"
    "\<And>i q. q \<in> node_set writes_q P i \<Longrightarrow> 0 < bq_capacity (queue_at (wheap w) q)"
  shows "\<exists>i s'. proc_step pending resume i s s'"
  by (rule surviving_progress[OF assms(1,2) running_not_lost[OF assms(4,3,5)] assms(4-7)])

section \<open>A small pipeline\<close>

text \<open>A source of two numbers and a sink that drops them, used to instantiate the theorems.\<close>

definition demo_traits :: "nat traits" where
  "demo_traits = \<lparr>tunnel_get_bytes = None, GetBytes = None\<rparr>"

definition demo_source :: "(nat, nat) processor" where
  "demo_source = Processor demo_traits
     (SourceC (\<lambda>n. (Inr (if n < 2 then Some n else None), Suc n)) 0) ''source'' 1"

definition demo_sink :: "(nat, nat) processor" where
  "demo_sink = Processor demo_traits DumpSinkC ''dump_sink'' 2"

definition demo_world0 :: "nat world" where
  "demo_world0 = \<lparr>next_id = 3, wheap = empty_qheap, aheap = empty_qheap\<rparr>"

definition demo_pipeline1 :: "(nat, nat) pipeline" where
  "demo_pipeline1 = snd (AddSource demo_source (Pipeline True 1 ''demo''))"

definition demo_world :: "nat world" where
  "demo_world = fst (snd (SetSink demo_sink [1] demo_world0 demo_pipeline1))"

definition demo_pipeline :: "(nat, nat) pipeline" where
  "demo_pipeline = snd (snd (SetSink demo_sink [1] demo_world0 demo_pipeline1))"

lemma demo_pipeline1_simp:
  "AddSource demo_source (Pipeline True 1 ''demo'') = (Returned 1, demo_pipeline1)"
  "demo_pipeline1 = (Pipeline True 1 ''demo'')\<lparr>nodes := [1 \<mapsto> demo_source], leaves := {1}, sources := [1]\<rparr>"
  by (simp_all add: demo_pipeline1_def AddSource_def demo_source_def new_node_check_def Pipeline_def
      map_insert_def GetId_def)

lemma demo_pipeline_simp:
  "SetSink demo_sink [1] demo_world0 demo_pipeline1 = (Returned 2, demo_world, demo_pipeline)"
  "demo_world = demo_world0\<lparr>wheap := snd (make_queue 1 empty_qheap)\<rparr>"
  "demo_pipeline = demo_pipeline1\<lparr>nodes := [1 \<mapsto> give_out 0 demo_source, 2 \<mapsto> feed 0 1 demo_sink],
     leaves := {}, dags := [1 \<mapsto> {2}], sinks := [2]\<rparr>"
  by (simp_all add: demo_pipeline_def demo_world_def SetSink_def merge_def register_sink_def
      demo_pipeline1_simp(2) demo_world0_def link_def connect_queue_def new_node_check_def Pipeline_def make_queue_def
      map_insert_def GetId_def demo_sink_def demo_source_def add_edge_def feed_def SetInputPort_def
      empty_qheap_def Let_def Processor_def fun_eq_iff)

lemma demo_fresh: "fresh demo_world0 KSource demo_source" "fresh demo_world0 KSink demo_sink"
  by (force simp: fresh_def demo_source_def demo_sink_def demo_world0_def)+

lemma demo_start: "built demo_world0 (Pipeline True 1 ''demo'' :: (nat, nat) pipeline)"
proof -
  let ?w1 = "\<lparr>next_id = 1, wheap = empty_qheap, aheap = empty_qheap\<rparr> :: nat world"
  have "built (?w1\<lparr>next_id := 2\<rparr>) (Pipeline True 1 ''demo'' :: (nat, nat) pipeline)"
    by (rule built.construct[OF built.new, of ?w1 1 demo_traits DumpSinkC "[]"])
      (simp_all add: make_node_def GenerateId_def idle_def caps_def empty_qheap_def BoundedQueue_def)
  from built.construct[OF this, of demo_traits DumpSinkC "[]"] show ?thesis
    by (simp add: make_node_def GenerateId_def demo_world0_def)
qed

lemma demo_built: "built demo_world demo_pipeline"
proof -
  have "built demo_world0 demo_pipeline1"
    by (rule built.add_source[OF demo_start demo_fresh(1) demo_pipeline1_simp(1)])
  then show ?thesis
    by (rule built.set_sink[OF _ demo_fresh(2) _ _ demo_pipeline_simp(1)])
      (simp_all add: demo_pipeline1_simp(2))
qed

definition demo_net :: "((nat, nat) processor, nat) net" where
  "demo_net = (case Run (Some 0) 0 demo_world demo_pipeline of Returned s \<Rightarrow> s)"

lemma demo_run: "Run (Some 0) 0 demo_world demo_pipeline = Returned demo_net"
  by (simp add: demo_net_def Run_def demo_pipeline_simp Let_def split: prod.splits)

lemma demo_net_simp:
  "demo_net =
     \<lparr>procs = [1 \<mapsto> BindAbortChannel (Channel_shared 0) (give_out 0 demo_source),
               2 \<mapsto> BindAbortChannel (Channel_shared 0) (feed 0 1 demo_sink)],
      queues = (\<lambda>q. BoundedQueue (if q = 0 then 1 else 0)),
      aborts = (\<lambda>q. BoundedQueue (if q = 0 then 10 else 0))\<rparr>"
  by (auto simp: demo_net_def Run_def demo_pipeline_simp demo_pipeline1_simp(2) Pipeline_def demo_world0_def
      Run_abort_channel_def Run_bind_def Channel_sized_def make_queue_def empty_qheap_def chan_bool_def
      Channel_shared_def fun_eq_iff)

definition demo_schedule :: "nat list" where
  "demo_schedule = [1, 2, 1, 1, 2, 2, 1, 1, 2, 2, 1, 1, 2]"

lemma demo_ends:
  "map_option (\<lambda>s. (map_option pc (procs s 1), map_option pc (procs s 2)))
     (sched pending resume demo_schedule demo_net) = Some (Some (Finished None), Some (Finished None))"
  unfolding demo_net_simp by code_simp

lemma demo_facts:
  "untangled demo_pipeline" "0 < channel_size demo_pipeline" "bind_abort_channel demo_pipeline"
  "dom (nodes demo_pipeline) = {1, 2}"
  by (auto simp: untangled_def no_concat_def demo_pipeline_simp demo_pipeline1_simp(2) Pipeline_def demo_source_def demo_sink_def
      split: if_splits)


section \<open>Properties of running pipelines\<close>

text \<open>
  C1: a completed pipeline built through the interface that is untangled (no \<^verbatim>\<open>Concat\<close> of several inputs, or
  no \<^verbatim>\<open>Fork\<close> or \<^verbatim>\<open>Dispatch\<close> with several outputs), with queues that can hold an element and with the abort channel bound, never gets stuck: in
  every state reachable under any interleaving, any behaviour of the user's code and any activity on the
  abort channel, either all nodes have ended or some node can take its next step.
\<close>

theorem pipeline_progress:
  assumes "built w P" "untangled P" "0 < channel_size P" "bind_abort_channel P"
    "Run ex garbage w P = Returned s0" "net_reach pending resume s0 s"
  shows "all_ended pending s \<or> (\<exists>i s'. proc_step pending resume i s s')"
proof (cases "all_ended pending s")
  case False
  have inv: "pipe_inv w P" using assms(1) by (rule built_pipe_inv)
  show ?thesis
    using in_order_progress[OF inv assms(2,4,5,6) False] caps_positive[OF inv built_caps[OF assms(1)] assms(3)] by blast
qed simp

theorem pipeline_progress_witness:
  "all_ended pending demo_net \<or> (\<exists>i s'. proc_step pending resume i demo_net s')"
  by (rule pipeline_progress[OF demo_built demo_facts(1-3) demo_run net_reach.init])

text \<open>
  C4: EOF conservation. In every reachable state of a pipeline built through the interface with the abort channel bound, for every queue, the EOFs in
  the queue plus those its writers still owe equal those its readers still expect, whatever
  exceptions were thrown on the way.
\<close>

theorem pipeline_eof_conservation:
  assumes "built w P" "bind_abort_channel P" "Run ex garbage w P = Returned s0"
    "net_reach pending resume s0 s"
  shows "count_eof (bq_queue (queues s q)) +
      (\<Sum>i\<in>dom (nodes P). case procs s i of None \<Rightarrow> 0 | Some p \<Rightarrow> to_write p q) =
    (\<Sum>i\<in>dom (nodes P). case procs s i of None \<Rightarrow> 0 | Some p \<Rightarrow> to_read p q)"
  using running_ok(1)[OF built_pipe_inv[OF assms(1)] assms(3,2,4)]
  by (simp add: co.net_ok_def co.balanced_def co.reads_of_def co.writes_of_def)

theorem pipeline_eof_conservation_witness:
  "count_eof (bq_queue (queues demo_net 0)) +
      (\<Sum>i\<in>{1, 2}. case procs demo_net i of None \<Rightarrow> 0 | Some p \<Rightarrow> to_write p 0) =
    (\<Sum>i\<in>{1, 2}. case procs demo_net i of None \<Rightarrow> 0 | Some p \<Rightarrow> to_read p 0)"
  using pipeline_eof_conservation[OF demo_built demo_facts(3) demo_run net_reach.init, of 0]
  unfolding demo_facts(4) .

text \<open>
  C5: nothing is left behind. When all nodes of a pipeline built through the interface with the abort channel bound have ended, normally or in
  hosted mode, every queue is empty.
\<close>

theorem pipeline_drained:
  assumes "built w P" "bind_abort_channel P" "Run ex garbage w P = Returned s0"
    "net_reach pending resume s0 s" "all_ended pending s"
  shows "bq_queue (queues s q) = []"
  using co.ended_drained[OF running_ok[OF built_pipe_inv[OF assms(1)] assms(3,2,4)] assms(5)] .

theorem pipeline_drained_witness:
  "\<exists>s. sched pending resume demo_schedule demo_net = Some s \<and> all_ended pending s \<and> bq_queue (queues s 0) = []"
proof -
  obtain s where s: "sched pending resume demo_schedule demo_net = Some s"
    "map_option pc (procs s 1) = Some (Finished None)" "map_option pc (procs s 2) = Some (Finished None)"
    using demo_ends by auto
  have D: "dom (procs s) = {1, 2}"
    using sched_dom[OF s(1)] by (auto simp: demo_net_simp)
  have "pending p = ReqNone" if p: "procs s i = Some p" for i p
  proof -
    have "i \<in> {1, 2}" using p unfolding D[symmetric] by auto
    then show ?thesis using p s(2,3) by (auto simp: pending.simps)
  qed
  then have "all_ended pending s" by (simp add: all_ended_def)
  moreover from this have "bq_queue (queues s 0) = []"
    by (rule pipeline_drained[OF demo_built demo_facts(3) demo_run sched_reach[OF s(1) net_reach.init]])
  ultimately show ?thesis using s(1) by blast
qed

text \<open>
  C7: a pipeline built through the interface (so with no empty set of leaves for a sink or a merge) with the abort channel bound never dereferences a null queue, never fails the assertion on the EOF
  counter and never calls \<^verbatim>\<open>std::abort\<close>: no node is ever \<open>Crashed\<close> or \<open>Aborted\<close>.
\<close>

theorem pipeline_never_crashes:
  assumes "built w P" "bind_abort_channel P" "Run ex garbage w P = Returned s0"
    "net_reach pending resume s0 s" "procs s i = Some p"
  shows "pc p \<noteq> Crashed \<and> pc p \<noteq> Aborted"
proof -
  have "proc_inv p" using running_ok(1)[OF built_pipe_inv[OF assms(1)] assms(3,2,4)] assms(5)
    unfolding co.net_ok_def by blast
  then show ?thesis by (auto simp: proc_inv_def)
qed

theorem pipeline_never_crashes_witness:
  "\<exists>p. procs demo_net 1 = Some p \<and> pc p \<noteq> Crashed \<and> pc p \<noteq> Aborted"
proof -
  have "procs demo_net 1 \<noteq> None"
    using running_ok(1)[OF built_pipe_inv[OF demo_built] demo_run demo_facts(3) net_reach.init] demo_facts(4)
    by (auto simp: co.net_ok_def)
  then obtain p where p: "procs demo_net 1 = Some p" by auto
  with pipeline_never_crashes[OF demo_built demo_facts(3) demo_run net_reach.init p] show ?thesis by blast
qed

text \<open>
  C12: the graph a pipeline records is the graph it runs. For every pipeline built through the interface,
  the edges in \<^verbatim>\<open>dags_\<close> are exactly the pairs of nodes that share a queue, writer first, and
  they form no cycle.
\<close>

theorem dag_is_dataflow:
  assumes "built w P"
  shows "edges P = feeds (dom (nodes P)) (node_set reads_q P) (node_set writes_q P) \<and> acyclic (edges P)"
  using pipe_inv_acyclic[OF built_pipe_inv[OF assms]] built_pipe_inv[OF assms] unfolding pipe_inv_def by blast

theorem dag_is_dataflow_witness: "edges demo_pipeline = {(1, 2)} \<and> acyclic (edges demo_pipeline)"
proof -
  have "edges demo_pipeline = {(1, 2)}" by (auto simp: edges_def demo_pipeline_simp split: if_splits)
  then show ?thesis using dag_is_dataflow[OF demo_built] by blast
qed

end
