(* ===== verification/Merge_Run.thy ===== *)
theory Merge_Run
  imports Pipeline_Run
begin

text \<open>
  What the builder and \<^verbatim>\<open>MergePipeline\<close> promise of the pipelines they return: the lists of sources
  and sinks are exact, merging succeeds on completed pipelines with as many sinks as sources, and
  the merged pipeline runs without getting stuck.
\<close>

section \<open>Merging and running\<close>

lemma writes_joined:
  assumes "pipe_inv w L" "pipe_inv w R" "joinable L R" "leaves L = {}" "leaves R = {}"
    "length (sinks L) = length (sources R)" "joins tr w L R M" "q \<in> node_set writes_q M i"
  shows "\<exists>j. q \<in> node_set writes_q L j \<or> q \<in> node_set writes_q R j"
proof -
  note J = joins_nodes[OF assms(1-7)] and Q = joins_queues[OF assms(1-7)]
  have "i \<in> dom (nodes M)" using assms(8) by (auto simp: node_set_def split: option.splits)
  then consider "nodes M i = nodes L i" | "nodes M i = nodes R i" | "i \<in> {next_id w..<next_id w + length (sinks L)}"
    unfolding J(1) using J(2)[of i] J(3)[of i] by blast
  then show ?thesis
  proof cases
    case 3
    then show ?thesis using Q(1)[OF 3, of 0] assms(8) by blast
  qed (use assms(8) in \<open>auto simp: node_set_def\<close>)
qed

text \<open>Every node of a merged pipeline is of a kind that occurs in one of the two, or a transform.\<close>

lemma joined_kinds:
  assumes "pipe_inv w L" "pipe_inv w R" "joinable L R" "leaves L = {}" "leaves R = {}"
    "length (sinks L) = length (sources R)" "joins tr w L R M"
    "\<forall>i p. nodes L i = Some p \<longrightarrow> K (pkind p)" "\<forall>i p. nodes R i = Some p \<longrightarrow> K (pkind p)" "K KTransform"
  shows "\<forall>i p. nodes M i = Some p \<longrightarrow> K (pkind p)"
proof (intro allI impI)
  note J = joins_nodes[OF assms(1-7)]
  fix i p assume p: "nodes M i = Some p"
  then have "i \<in> dom (nodes M)" by auto
  then consider "nodes M i = nodes L i" | "nodes M i = nodes R i" | "i \<in> {next_id w..<next_id w + length (sinks L)}"
    unfolding J(1) using J(2)[of i] J(3)[of i] by blast
  then show "K (pkind p)"
  proof cases
    case 3
    then show ?thesis using J(4)[OF 3] p assms(10) by (auto simp: joined_def)
  qed (use p assms(8,9) in metis)+
qed

lemma no_concat_joined:
  assumes "pipe_inv w L" "pipe_inv w R" "joinable L R" "leaves L = {}" "leaves R = {}"
    "length (sinks L) = length (sources R)" "joins tr w L R M" "no_concat L" "no_concat R"
  shows "no_concat M"
  using joined_kinds[OF assms(1-7), of "\<lambda>k. \<forall>n. k = KMulti n \<longrightarrow> n \<le> 1"] assms(8,9) unfolding no_concat_def by blast

lemma no_split_joined:
  assumes "pipe_inv w L" "pipe_inv w R" "joinable L R" "leaves L = {}" "leaves R = {}"
    "length (sinks L) = length (sources R)" "joins tr w L R M" "no_split L" "no_split R"
  shows "no_split M"
  using joined_kinds[OF assms(1-7), of "\<lambda>k. \<forall>n. k = KOneI n \<longrightarrow> n \<le> 1"] assms(8,9) unfolding no_split_def by blast

section \<open>Two small pipelines\<close>

text \<open>A second pipeline, built in the world where the first one was.\<close>

definition demo2_world0 :: "nat world" where
  "demo2_world0 = demo_world\<lparr>next_id := 5\<rparr>"

definition demo2_source :: "(nat, nat) processor" where
  "demo2_source = Processor demo_traits
     (SourceC (\<lambda>n. (Inr (if n < 1 then Some n else None), Suc n)) 0) ''source'' 3"

definition demo2_sink :: "(nat, nat) processor" where
  "demo2_sink = Processor demo_traits DumpSinkC ''dump_sink'' 4"

definition demo2_pipeline1 :: "(nat, nat) pipeline" where
  "demo2_pipeline1 = snd (AddSource demo2_source (Pipeline True 1 ''demo2''))"

definition demo2_world :: "nat world" where
  "demo2_world = fst (snd (SetSink demo2_sink [3] demo2_world0 demo2_pipeline1))"

definition demo2_pipeline :: "(nat, nat) pipeline" where
  "demo2_pipeline = snd (snd (SetSink demo2_sink [3] demo2_world0 demo2_pipeline1))"

lemma demo2_pipeline1_simp:
  "AddSource demo2_source (Pipeline True 1 ''demo2'') = (Returned 3, demo2_pipeline1)"
  "demo2_pipeline1 = (Pipeline True 1 ''demo2'')\<lparr>nodes := [3 \<mapsto> demo2_source], leaves := {3}, sources := [3]\<rparr>"
  by (simp_all add: demo2_pipeline1_def AddSource_def demo2_source_def new_node_check_def Pipeline_def
      map_insert_def GetId_def)

lemma demo_heap: "next_queue (wheap demo_world) = 1" "queue_at (wheap demo_world) q = BoundedQueue (if q = 0 then 1 else 0)"
  by (simp_all add: demo_pipeline_simp demo_world0_def make_queue_def empty_qheap_def)

lemma demo2_pipeline_simp:
  "SetSink demo2_sink [3] demo2_world0 demo2_pipeline1 = (Returned 4, demo2_world, demo2_pipeline)"
  "demo2_world = demo2_world0\<lparr>wheap := snd (make_queue 1 (wheap demo_world))\<rparr>"
  "demo2_pipeline = demo2_pipeline1\<lparr>nodes := [3 \<mapsto> give_out 1 demo2_source, 4 \<mapsto> feed 1 1 demo2_sink],
     leaves := {}, dags := [3 \<mapsto> {4}], sinks := [4]\<rparr>"
  by (simp_all add: demo2_pipeline_def demo2_world_def SetSink_def merge_def register_sink_def
      demo2_pipeline1_simp(2) demo2_world0_def link_def connect_queue_def new_node_check_def Pipeline_def make_queue_def
      map_insert_def GetId_def demo2_sink_def demo2_source_def add_edge_def feed_def SetInputPort_def
      demo_heap Let_def Processor_def fun_eq_iff)

lemma demo2_heap: "next_queue (wheap demo2_world) = 2" "next_id demo2_world = 5"
  "queue_at (wheap demo2_world) q = BoundedQueue (if q \<le> 1 then 1 else 0)"
  by (auto simp: demo2_pipeline_simp demo2_world0_def make_queue_def demo_heap)

lemma demo2_built: "built demo2_world demo2_pipeline"
proof -
  have "built demo2_world0 (Pipeline True 1 ''demo2'' :: (nat, nat) pipeline)"
    by (rule built.new) (auto simp: demo2_world0_def idle_def caps_def demo_heap BoundedQueue_def)
  moreover have "fresh demo2_world0 KSource demo2_source" "fresh demo2_world0 KSink demo2_sink"
    by (force simp: fresh_def demo2_source_def demo2_sink_def demo2_world0_def)+
  ultimately have "built demo2_world0 demo2_pipeline1" "fresh demo2_world0 KSink demo2_sink"
    using built.add_source[OF _ _ demo2_pipeline1_simp(1)] by blast+
  then show ?thesis
    by (rule built.set_sink[OF _ _ _ _ demo2_pipeline_simp(1)]) (simp_all add: demo2_pipeline1_simp(2))
qed

lemma demo_built2: "built demo2_world demo_pipeline"
  by (rule built.others[OF demo_built])
    (auto simp: demo2_heap demo_heap demo_pipeline_simp(2) demo_world0_def idle_def caps_def BoundedQueue_def
      empty_qheap_def)

lemma demo_reads: "reads_q (give_out q demo_source) = {}" "writes_q (give_out q demo_source) = {q}"
  "reads_q (feed q 1 demo_sink) = {q}" "writes_q (feed q 1 demo_sink) = {}"
  "reads_q (give_out q demo2_source) = {}" "writes_q (give_out q demo2_source) = {q}"
  "reads_q (feed q 1 demo2_sink) = {q}" "writes_q (feed q 1 demo2_sink) = {}"
  by (auto simp: reads_q_def writes_q_def demo_source_def demo_sink_def demo2_source_def demo2_sink_def)

lemma demo_sets:
  "node_set reads_q demo_pipeline i \<union> node_set writes_q demo_pipeline i \<subseteq> {0}"
  "node_set reads_q demo2_pipeline i \<union> node_set writes_q demo2_pipeline i \<subseteq> {1}"
  by (simp_all add: node_set_def demo_pipeline_simp demo2_pipeline_simp demo_reads del: One_nat_def)

lemma demos_apart: "apart demo_pipeline demo2_pipeline"
proof -
  have "dom (nodes demo_pipeline) \<inter> dom (nodes demo2_pipeline) = {}"
    by (simp add: demo_pipeline_simp demo2_pipeline_simp)
  then show ?thesis unfolding apart_def using demo_sets by fastforce
qed

lemma demo2_facts: "no_concat demo2_pipeline" "0 < channel_size demo2_pipeline" "bind_abort_channel demo2_pipeline"
  by (auto simp: no_concat_def demo2_pipeline_simp demo2_pipeline1_simp(2) Pipeline_def demo2_source_def demo2_sink_def
      split: if_splits)

lemma demos_concat: "no_concat demo_pipeline \<and> no_concat demo2_pipeline \<or> no_split demo_pipeline \<and> no_split demo2_pipeline"
  using demo2_facts(1) by (auto simp: no_concat_def demo_pipeline_simp demo_pipeline1_simp(2) demo_source_def demo_sink_def
      split: if_splits)

lemma demos_ends: "IsCompleted demo_pipeline" "IsCompleted demo2_pipeline" "nodes demo_pipeline \<noteq> Map.empty"
  "nodes demo2_pipeline \<noteq> Map.empty" "sinks demo_pipeline = [2]" "sources demo2_pipeline = [3]"
  "sources demo_pipeline = [1]" "sinks demo2_pipeline = [4]"
  by (simp_all add: demo2_pipeline_simp demo2_pipeline1_simp(2) demo_pipeline_simp demo_pipeline1_simp(2)
      IsCompleted_def Pipeline_def fun_upd_same)

lemma demos_edges: "edges demo_pipeline = {(1, 2)}" "edges demo2_pipeline = {(3, 4)}"
  by (auto simp: edges_def demo_pipeline_simp demo2_pipeline_simp split: if_splits)

section \<open>Properties of built and merged pipelines\<close>

text \<open>
  C19: \<^verbatim>\<open>GetSources\<close> and \<^verbatim>\<open>GetSinks\<close> are exact: for every pipeline built through the interface
  without \<^verbatim>\<open>ChannelSource\<close> and \<^verbatim>\<open>ChannelSink\<close>, merged ones included, \<^verbatim>\<open>sources_\<close> lists every node that is a source and no other, once each, and
  \<^verbatim>\<open>sinks_\<close> likewise the sinks.
\<close>

theorem sources_and_sinks_exact:
  assumes "built w P"
  shows "distinct (sources P) \<and> set (sources P) = {i. \<exists>p. nodes P i = Some p \<and> pkind p = KSource} \<and>
    distinct (sinks P) \<and> set (sinks P) = {i. \<exists>p. nodes P i = Some p \<and> pkind p = KSink}"
  using built_roles[OF assms] by (auto simp: roles_ok_def kind_at_def)

theorem sources_and_sinks_exact_witness:
  "{i. \<exists>p. nodes demo_pipeline i = Some p \<and> pkind p = KSource} = {1}"
  using sources_and_sinks_exact[OF demo_built] by (simp add: demos_ends)

text \<open>
  C13: merging succeeds and keeps the data flow. Two completed pipelines that are not empty and
  share no node and no queue, the first with as many sinks as the second has sources, merge, if the ids do not wrap, into a completed
  pipeline in order (it counts as built through the interface): its sources are those of the first, its
  sinks those of the second, and its edges are the edges of both, every sink of the first and the source it is joined
  with renamed to the no-op that replaces the two.
\<close>

theorem merge_pipeline_joins:
  assumes "built w L" "built w R" "apart L R" "IsCompleted L" "IsCompleted R"
    "nodes L \<noteq> Map.empty" "nodes R \<noteq> Map.empty" "length (sinks L) = length (sources R)"
    "next_id w + length (sinks L) < 2 ^ 64"
  shows "\<exists>M w'. MergePipeline tr L R w = (Returned M, w') \<and> built w' M \<and> IsCompleted M \<and>
    sources M = sources L \<and> sinks M = sinks R \<and>
    edges M =
      (\<lambda>(a, b). (a, renamed (sinks L) [next_id w..<next_id w + length (sinks L)] b)) ` edges L \<union>
      (\<lambda>(a, b). (renamed (sources R) [next_id w..<next_id w + length (sinks L)] a, b)) ` edges R"
proof -
  obtain M where M: "MergePipeline tr L R w = (Returned M, w\<lparr>next_id := next_id w + length (sinks L)\<rparr>)"
    "IsCompleted M" "sources M = sources L" "sinks M = sinks R" "joins tr w L R M"
    using MergePipeline_inv[OF built_pipe_inv[OF assms(1)] built_pipe_inv[OF assms(2)] built_roles[OF assms(1)]
        built_roles[OF assms(2)] assms(3-9), of tr] by metis
  have "built (w\<lparr>next_id := next_id w + length (sinks L)\<rparr>) M"
    by (rule built.merge_pipeline[OF assms(1-3,9) M(1)])
  then show ?thesis using M by (auto simp: joins_def)
qed

theorem merge_pipeline_joins_witness:
  "\<exists>M w'. MergePipeline demo_traits demo_pipeline demo2_pipeline demo2_world = (Returned M, w') \<and> built w' M \<and>
     edges M = {(1, 5), (5, 4)}"
proof -
  have "length (sinks demo_pipeline) = length (sources demo2_pipeline)"
    "next_id demo2_world + length (sinks demo_pipeline) < 2 ^ 64" by (simp_all add: demos_ends demo2_heap)
  from merge_pipeline_joins[OF demo_built2 demo2_built demos_apart demos_ends(1-4) this, of demo_traits]
  obtain M w' where "MergePipeline demo_traits demo_pipeline demo2_pipeline demo2_world = (Returned M, w')" "built w' M"
    "edges M = (\<lambda>(a, b). (a, renamed [2] [5..<5 + 1] b)) ` {(1, 2)} \<union> (\<lambda>(a, b). (renamed [3] [5..<5 + 1] a, b)) ` {(3, 4)}"
    unfolding demos_ends demos_edges demo2_heap by auto
  then show ?thesis by (auto simp: renamed_def upt_conv_Cons)
qed

text \<open>
  C14: a merged pipeline does not get stuck. If the two are not empty and share no node and no queue, the ids do not wrap, neither of the two has a \<^verbatim>\<open>Concat\<close> of several inputs,
  or neither has a \<^verbatim>\<open>Fork\<close> or \<^verbatim>\<open>Dispatch\<close> with several outputs, both have queues that can hold an element and bind the abort channel, then every reachable state of
  the merged pipeline has ended or can take a step, although its own \<^verbatim>\<open>channel_size\<close> is 0.
\<close>

theorem merged_pipeline_progress:
  assumes "built w L" "built w R" "apart L R" "no_concat L \<and> no_concat R \<or> no_split L \<and> no_split R"
    "0 < channel_size L" "0 < channel_size R" "bind_abort_channel L" "bind_abort_channel R"
    "nodes L \<noteq> Map.empty" "nodes R \<noteq> Map.empty"
    "next_id w + length (sinks L) < 2 ^ 64" "MergePipeline tr L R w = (Returned M, w')"
    "Run ex garbage w' M = Returned s0" "net_reach pending resume s0 s"
  shows "channel_size M = 0 \<and> (all_ended pending s \<or> (\<exists>i s'. proc_step pending resume i s s'))"
proof -
  note invL = built_pipe_inv[OF assms(1)] and invR = built_pipe_inv[OF assms(2)]
  have c: "IsCompleted L" "IsCompleted R" "length (sinks L) = length (sources R)" "channel_size M = 0"
    using MergePipeline_Returned[OF assms(12) pipe_inv_finite[OF invL] pipe_inv_finite[OF invR]] assms(9,10) by blast+
  have e: "leaves L = {}" "leaves R = {}" using c by (simp_all add: IsCompleted_def)
  have join: "joinable L R" using joinableI[OF invL invR built_roles[OF assms(1)] built_roles[OF assms(2)] assms(3)] .
  have M: "w' = w\<lparr>next_id := next_id w + length (sinks L)\<rparr>" "pipe_inv w' M" "joins tr w L R M" "bind_abort_channel M"
    using MergePipeline_inv[OF invL invR built_roles[OF assms(1)] built_roles[OF assms(2)] assms(3) c(1,2) assms(9,10)
        c(3) assms(11), of tr] assms(7,8,12) by auto
  have cap: "0 < bq_capacity (queue_at (wheap w') q)" if "q \<in> node_set writes_q M i" for i q
    using writes_joined[OF invL invR join e c(3) M(3) that]
      caps_positive[OF invL built_caps[OF assms(1)] assms(5)] caps_positive[OF invR built_caps[OF assms(2)] assms(6)]
    by (auto simp: M(1))
  have "untangled M"
    using assms(4) no_concat_joined[OF invL invR join e c(3) M(3)] no_split_joined[OF invL invR join e c(3) M(3)]
    by (auto simp: untangled_def)
  from in_order_progress[OF M(2) this M(4) assms(13,14)] cap show ?thesis using c(4) by blast
qed

theorem merged_pipeline_progress_witness:
  "\<exists>M w' s. MergePipeline demo_traits demo_pipeline demo2_pipeline demo2_world = (Returned M, w') \<and>
     Run (Some 0) 0 w' M = Returned s \<and> channel_size M = 0 \<and>
     (all_ended pending s \<or> (\<exists>i s'. proc_step pending resume i s s'))"
proof -
  note inv = built_pipe_inv[OF demo_built2] built_pipe_inv[OF demo2_built] built_roles[OF demo_built2] built_roles[OF demo2_built]
  have len: "length (sinks demo_pipeline) = length (sources demo2_pipeline)"
    "next_id demo2_world + length (sinks demo_pipeline) < 2 ^ 64" by (simp_all add: demos_ends demo2_heap)
  obtain M w' where M: "MergePipeline demo_traits demo_pipeline demo2_pipeline demo2_world = (Returned M, w')"
    "roles_ok M" "IsCompleted M" "sources M = [1]"
    using MergePipeline_inv[OF inv demos_apart demos_ends(1-4) len, of demo_traits] by (metis demos_ends(7))
  have "kind_at M 1 = Some KSource" using M(2,4) by (auto simp: roles_ok_def)
  then have "dom (nodes M) \<noteq> {}" by (auto simp: kind_at_def)
  then obtain s where s: "Run (Some 0) 0 w' M = Returned s"
    using M(3) by (cases "Run_abort_channel 0 w' M") (auto simp: Run_def IsCompleted_def)
  from merged_pipeline_progress[OF demo_built2 demo2_built demos_apart demos_concat demo_facts(2)
      demo2_facts(2) demo_facts(3) demo2_facts(3) demos_ends(3,4) len(2) M(1) s net_reach.init]
  show ?thesis using M(1) s by blast
qed

end
