(* ===== verification/Net_Measure.thy ===== *)
theory Net_Measure
  imports Network
begin

text \<open>
  Counting the steps of a network of coroutines. If every coroutine has a potential and every
  element of a queue a weight such that each queue operation uses up more than it creates,
  then the number of steps of every run is bounded by the energy of the initial state.
\<close>

section \<open>Runs with the number of their steps\<close>

text \<open>The other users of the abort channel may act any number of times in between.\<close>

inductive net_steps :: "('p \<Rightarrow> 'v request) \<Rightarrow> (nat \<Rightarrow> 'v answer \<Rightarrow> 'p \<Rightarrow> 'p) \<Rightarrow>
    ('p, 'v) net \<Rightarrow> nat \<Rightarrow> ('p, 'v) net \<Rightarrow> bool"
  for pend res s0 where
  init: "net_steps pend res s0 0 s0"
| step: "net_steps pend res s0 n s \<Longrightarrow> proc_step pend res i s s' \<Longrightarrow> net_steps pend res s0 (Suc n) s'"
| env: "net_steps pend res s0 n s \<Longrightarrow> net_steps pend res s0 n (s\<lparr>aborts := h\<rparr>)"

lemma net_steps_reach: "net_steps pend res s0 n s \<Longrightarrow> net_reach pend res s0 s"
  by (induction rule: net_steps.induct) (auto intro: net_reach.intros)

section \<open>Energy\<close>

definition energy :: "('p \<Rightarrow> nat) \<Rightarrow> (nat \<Rightarrow> nat) \<Rightarrow> nat set \<Rightarrow> nat set \<Rightarrow> ('p, 'v) net \<Rightarrow> nat" where
  "energy pot wq D Q s =
     (\<Sum>i\<in>D. case procs s i of None \<Rightarrow> 0 | Some p \<Rightarrow> pot p) +
     (\<Sum>q\<in>Q. wq q * length (bq_queue (queues s q)))"

lemma energy_aborts [simp]: "energy pot wq D Q (s\<lparr>aborts := h\<rparr>) = energy pot wq D Q s"
  by (simp add: energy_def)

lemma energy_procs:
  assumes "finite D" "i \<in> D" "procs s i = Some p"
  shows "energy pot wq D Q (s\<lparr>procs := (procs s)(i \<mapsto> p')\<rparr>) + pot p = energy pot wq D Q s + pot p'"
proof -
  let ?f = "\<lambda>ps j. case ps j of None \<Rightarrow> 0 | Some p \<Rightarrow> pot p"
  have "(\<Sum>j\<in>D. ?f ((procs s)(i \<mapsto> p')) j) + ?f (procs s) i = (\<Sum>j\<in>D. ?f (procs s) j) + ?f ((procs s)(i \<mapsto> p')) i"
    using sum_change_one[OF assms(1,2), of "?f ((procs s)(i \<mapsto> p'))" "?f (procs s)"] by auto
  then show ?thesis using assms(3) by (simp add: energy_def)
qed

lemma energy_queues:
  assumes "finite Q" "q \<in> Q"
  shows "energy pot wq D Q (s\<lparr>queues := (queues s)(q := bq)\<rparr>) + wq q * length (bq_queue (queues s q)) =
    energy pot wq D Q s + wq q * length (bq_queue bq)"
proof -
  let ?f = "\<lambda>qs j. wq j * length (bq_queue (qs j))"
  have "(\<Sum>j\<in>Q. ?f ((queues s)(q := bq)) j) + ?f (queues s) q =
      (\<Sum>j\<in>Q. ?f (queues s) j) + ?f ((queues s)(q := bq)) q"
    using sum_change_one[OF assms, of "?f ((queues s)(q := bq))" "?f (queues s)"] by auto
  then show ?thesis by (simp add: energy_def)
qed

locale using_energy =
  fixes pend :: "'p \<Rightarrow> 'v request"
    and res :: "nat \<Rightarrow> 'v answer \<Rightarrow> 'p \<Rightarrow> 'p"
    and inv :: "'p \<Rightarrow> bool"
    and pot :: "'p \<Rightarrow> nat"
    and wq :: "nat \<Rightarrow> nat"
  assumes start_uses: "inv p \<Longrightarrow> pend p = ReqStart \<Longrightarrow> pot (res now AnsGo p) < pot p"
    and pop_uses: "inv p \<Longrightarrow> pend p = ReqPop q \<Longrightarrow> pot (res now (AnsPop v) p) < pot p + wq q"
    and push_uses: "inv p \<Longrightarrow> pend p = ReqPush q v \<Longrightarrow> pot (res now AnsGo p) + wq q < pot p"
    and abort_pop_uses: "inv p \<Longrightarrow> pend p = ReqAbortPop a \<Longrightarrow> pot (res now (AnsTry b) p) < pot p"
    and abort_push_uses: "inv p \<Longrightarrow> pend p = ReqAbortPush a \<Longrightarrow> pot (res now (AnsTry b) p) < pot p"
begin

definition in_order :: "nat set \<Rightarrow> nat set \<Rightarrow> ('p, 'v) net \<Rightarrow> bool" where
  "in_order D Q s \<longleftrightarrow>
     dom (procs s) = D \<and> (\<forall>i p. procs s i = Some p \<longrightarrow> inv p \<or> pend p = ReqNone) \<and>
     (\<forall>i p q v. procs s i = Some p \<longrightarrow> pend p = ReqPop q \<or> pend p = ReqPush q v \<longrightarrow> q \<in> Q)"

lemma step_uses:
  assumes "proc_step pend res i s s'" "in_order D Q s" "finite D" "finite Q"
  shows "energy pot wq D Q s' < energy pot wq D Q s"
  using assms(1)
proof cases
  case (start p now)
  have "i \<in> D" "inv p" using start assms(2) by (fastforce simp: in_order_def)+
  then show ?thesis
    using energy_procs[OF assms(3) _ start(2), of pot wq Q "res now AnsGo p"] start_uses[of p now] start(1,3) by simp
next
  case (pop p q v bq now)
  let ?s1 = "s\<lparr>procs := (procs s)(i \<mapsto> res now (AnsPop v) p)\<rparr>"
  have p: "i \<in> D" "inv p" "q \<in> Q" using pop assms(2) unfolding in_order_def by fastforce+
  have "bq_queue (queues s q) = v # bq_queue bq" using bq.pop_takes[OF pop(4)] by simp
  then have "energy pot wq D Q s' + wq q = energy pot wq D Q ?s1"
    using energy_queues[OF assms(4) p(3), of pot wq D ?s1 bq] pop(1) by simp
  then show ?thesis
    using energy_procs[OF assms(3) p(1) pop(2), of pot wq Q "res now (AnsPop v) p"] pop_uses[OF p(2) pop(3), of now v]
    by simp
next
  case (push p q v bq now)
  let ?s1 = "s\<lparr>procs := (procs s)(i \<mapsto> res now AnsGo p)\<rparr>"
  have p: "i \<in> D" "inv p" "q \<in> Q" using push assms(2) unfolding in_order_def by fastforce+
  have "bq_queue bq = bq_queue (queues s q) @ [v]" using bq.push_appends[OF push(4)] by simp
  then have "energy pot wq D Q s' = energy pot wq D Q ?s1 + wq q"
    using energy_queues[OF assms(4) p(3), of pot wq D ?s1 bq] push(1) by simp
  then show ?thesis
    using energy_procs[OF assms(3) p(1) push(2), of pot wq Q "res now AnsGo p"] push_uses[OF p(2) push(3), of now]
    by simp
next
  case (abort_pop p a r bq now)
  let ?p = "res now (AnsTry (r \<noteq> None)) p"
  have p: "i \<in> D" "inv p" using abort_pop assms(2) by (fastforce simp: in_order_def)+
  have "energy pot wq D Q s' = energy pot wq D Q (s\<lparr>procs := (procs s)(i \<mapsto> ?p)\<rparr>)"
    unfolding abort_pop(1) by (rule energy_aborts)
  then show ?thesis
    using energy_procs[OF assms(3) p(1) abort_pop(2), of pot wq Q ?p] abort_pop_uses[OF p(2) abort_pop(3)]
    by (metis add_less_cancel_left add_less_cancel_right)
next
  case (abort_push p a b bq now)
  let ?p = "res now (AnsTry b) p"
  have p: "i \<in> D" "inv p" using abort_push assms(2) by (fastforce simp: in_order_def)+
  have "energy pot wq D Q s' = energy pot wq D Q (s\<lparr>procs := (procs s)(i \<mapsto> ?p)\<rparr>)"
    unfolding abort_push(1) by (rule energy_aborts)
  then show ?thesis
    using energy_procs[OF assms(3) p(1) abort_push(2), of pot wq Q ?p] abort_push_uses[OF p(2) abort_push(3)]
    by (metis add_less_cancel_left add_less_cancel_right)
qed

text \<open>Every step of a run that stays in order costs at least one unit.\<close>

lemma steps_bounded:
  assumes "net_steps pend res s0 n s" "finite D" "finite Q"
    "\<And>s. net_reach pend res s0 s \<Longrightarrow> in_order D Q s"
  shows "n + energy pot wq D Q s \<le> energy pot wq D Q s0"
  using assms(1)
proof (induction rule: net_steps.induct)
  case (step n s i s')
  have "energy pot wq D Q s' < energy pot wq D Q s"
    using step_uses[OF step(2) assms(4)[OF net_steps_reach[OF step(1)]] assms(2,3)] .
  then show ?case using step.IH by simp
qed simp_all

end

end
