(* ===== verification/Termination.thy ===== *)
theory Termination
  imports Coroutine_Inv Net_Measure
begin

text \<open>
  The potential of a processor: how many queue operations it can still make happen. A source
  that ends has a finite number of calls of \<^verbatim>\<open>generate\<close> left; every other node pays for what it
  does with an element out of the weight of that element, and keeps a reserve for
  hosted mode.
\<close>

declare pending.simps [simp del]

section \<open>Sources that end\<close>

text \<open>At most \<open>n\<close> calls of \<^verbatim>\<open>generate\<close>, the last of which returns no value or throws.\<close>

fun ends_within :: "nat \<Rightarrow> ('s \<Rightarrow> 'v option result \<times> 's) \<Rightarrow> 's \<Rightarrow> bool" where
  "ends_within 0 generate s = False"
| "ends_within (Suc n) generate s =
     (case generate s of (Inr (Some v), s') \<Rightarrow> ends_within n generate s' | _ \<Rightarrow> True)"

definition source_ends :: "('v, 's) node_class \<Rightarrow> bool" where
  "source_ends c \<longleftrightarrow> (case c of SourceC generate s \<Rightarrow> \<exists>n. ends_within n generate s | _ \<Rightarrow> True)"

definition calls_left :: "('v, 's) node_class \<Rightarrow> nat" where
  "calls_left c =
     (case c of
        SourceC generate s \<Rightarrow> (LEAST n. ends_within n generate s)
      | EmptySourceC \<Rightarrow> 1
      | _ \<Rightarrow> 0)"

lemma calls_left_pos:
  assumes "source_ends (SourceC generate s)"
  shows "0 < calls_left (SourceC generate s)"
proof -
  have "ends_within (calls_left (SourceC generate s)) generate s"
    using assms unfolding calls_left_def source_ends_def by (auto intro: LeastI_ex)
  then show ?thesis by (cases "calls_left (SourceC generate s)") auto
qed

lemma calls_left_next:
  assumes "source_ends (SourceC generate s)" "generate s = (Inr (Some v), s')"
  shows "source_ends (SourceC generate s')"
    "calls_left (SourceC generate s') < calls_left (SourceC generate s)"
proof -
  have "ends_within (calls_left (SourceC generate s)) generate s"
    using assms(1) unfolding calls_left_def source_ends_def by (auto intro: LeastI_ex)
  then obtain m where m: "calls_left (SourceC generate s) = Suc m" "ends_within m generate s'"
    using assms(2) by (cases "calls_left (SourceC generate s)") auto
  then show "source_ends (SourceC generate s')" by (auto simp: source_ends_def)
  have "calls_left (SourceC generate s') \<le> m"
    using m(2) by (auto simp: calls_left_def intro: Least_le)
  then show "calls_left (SourceC generate s') < calls_left (SourceC generate s)" using m(1) by simp
qed

section \<open>Costs\<close>

definition ref_cost :: "nat \<Rightarrow> (nat \<Rightarrow> nat) \<Rightarrow> ('v, 's) processor \<Rightarrow> chan_ref \<Rightarrow> nat" where
  "ref_cost k wq p r = (case chan_queue p r of None \<Rightarrow> 0 | Some q \<Rightarrow> k + wq q)"

definition out_cost :: "(nat \<Rightarrow> nat) \<Rightarrow> ('v, 's) processor \<Rightarrow> nat" where
  "out_cost wq p = (\<Sum>r\<leftarrow>out_refs (pkind p). ref_cost 2 wq p r)"

definition source_cost :: "(nat \<Rightarrow> nat) \<Rightarrow> ('v, 's) processor \<Rightarrow> nat" where
  "source_cost wq p = calls_left (node_class p) * out_cost wq p"

fun cmd_cost :: "(nat \<Rightarrow> nat) \<Rightarrow> ('v, 's) processor \<Rightarrow> 'v cmd \<Rightarrow> nat" where
  "cmd_cost wq p (CPush v r) = ref_cost 2 wq p r"
| "cmd_cost wq p CGenerate = source_cost wq p"
| "cmd_cost wq p _ = 0"

abbreviation cmds_cost :: "(nat \<Rightarrow> nat) \<Rightarrow> ('v, 's) processor \<Rightarrow> 'v cmd list \<Rightarrow> nat" where
  "cmds_cost wq p cs \<equiv> sum_list (map (cmd_cost wq p) cs)"

fun hosted_cost :: "(nat \<Rightarrow> nat) \<Rightarrow> ('v, 's) processor \<Rightarrow> hosted_cmd \<Rightarrow> nat" where
  "hosted_cost wq p (CloseOutput r) = ref_cost 1 wq p r"
| "hosted_cost wq p (CloseInput r k) = 0"

abbreviation closing_cost :: "(nat \<Rightarrow> nat) \<Rightarrow> ('v, 's) processor \<Rightarrow> hosted_cmd list \<Rightarrow> nat" where
  "closing_cost wq p hs \<equiv> sum_list (map (hosted_cost wq p) hs)"

definition potential :: "(nat \<Rightarrow> nat) \<Rightarrow> ('v, 's) processor \<Rightarrow> nat" where
  "potential wq p =
     (case pc p of
        Created \<Rightarrow> 3 + 2 * out_cost wq p + source_cost wq p
      | PopWait r k \<Rightarrow> 2 + out_cost wq p
      | PopAbortWait r k v sr \<Rightarrow> 3 + out_cost wq p + (if sr then 2 * out_cost wq p else 0)
      | PushWait v r cs \<Rightarrow> 2 + out_cost wq p + cmds_cost wq p (CPush v r # cs)
      | PushAbortWait cs \<Rightarrow> 3 + out_cost wq p + cmds_cost wq p cs
      | NotifyWait e \<Rightarrow> 1 + out_cost wq p
      | CloseInputWait r k hs e \<Rightarrow> closing_cost wq p hs
      | CloseOutputWait r hs e \<Rightarrow> closing_cost wq p (CloseOutput r # hs)
      | AfterWorkWait \<Rightarrow> ref_cost 2 wq p OutPort
      | _ \<Rightarrow> 0)"

text \<open>The code that is left may call \<^verbatim>\<open>generate\<close> again.\<close>

definition generating :: "('v, 's) processor \<Rightarrow> bool" where
  "generating p \<longleftrightarrow>
     (case pc p of
        Created \<Rightarrow> True
      | PushWait v r cs \<Rightarrow> CGenerate \<in> set cs
      | PushAbortWait cs \<Rightarrow> CGenerate \<in> set cs
      | _ \<Rightarrow> False)"

text \<open>
  The weights are sufficient for a node when an element of an input queue pays for what the
  node does with it: at most two rounds of pushes to its outputs.
\<close>

definition affordable :: "(nat \<Rightarrow> nat) \<Rightarrow> ('v, 's) processor \<Rightarrow> bool" where
  "affordable wq p \<longleftrightarrow>
     (\<forall>r \<in> set (in_refs (pkind p)). \<forall>q. chan_queue p r = Some q \<longrightarrow> 2 * out_cost wq p + 2 < wq q) \<and>
     (generating p \<longrightarrow> source_ends (node_class p))"

section \<open>Frames\<close>

text \<open>A processor whose ports are those of another one or have been closed.\<close>

definition fewer_ports :: "('v, 's) processor \<Rightarrow> ('v, 's) processor \<Rightarrow> bool" where
  "fewer_ports p p' \<longleftrightarrow>
     pkind p' = pkind p \<and> (\<forall>r. chan_queue p' r = chan_queue p r \<or> chan_queue p' r = None)"

lemma fewer_ports_refl [simp]: "fewer_ports p p"
  by (simp add: fewer_ports_def)

lemma fewer_ports_trans: "fewer_ports p p' \<Longrightarrow> fewer_ports p' p'' \<Longrightarrow> fewer_ports p p''"
  unfolding fewer_ports_def by metis

lemma fewer_ports_frame [simp]:
  "fewer_ports p (p'\<lparr>pc := x\<rparr>) = fewer_ports p p'"
  "fewer_ports p (p'\<lparr>event_collector := ec\<rparr>) = fewer_ports p p'"
  "fewer_ports p (p'\<lparr>input_count := n\<rparr>) = fewer_ports p p'"
  "kind_of c = pkind p' \<Longrightarrow> fewer_ports p (p'\<lparr>node_class := c\<rparr>) = fewer_ports p p'"
  by (simp_all add: fewer_ports_def)

lemma fewer_ports_reset: "fewer_ports p p' \<Longrightarrow> fewer_ports p (upd_chan chan_reset r p')"
  by (simp add: fewer_ports_def)

lemma same_fewer: "same_ports p p' \<Longrightarrow> fewer_ports p p'"
  by (simp add: same_ports_def fewer_ports_def)

lemma ref_cost_mono:
  assumes "fewer_ports p p'"
  shows "ref_cost k wq p' r \<le> ref_cost k wq p r"
proof -
  have "chan_queue p' r = chan_queue p r \<or> chan_queue p' r = None" using assms by (simp add: fewer_ports_def)
  then show ?thesis by (auto simp: ref_cost_def)
qed

lemma out_cost_mono: "fewer_ports p p' \<Longrightarrow> out_cost wq p' \<le> out_cost wq p"
  unfolding out_cost_def
  by (simp add: fewer_ports_def) (intro sum_list_mono ref_cost_mono, simp add: fewer_ports_def)

lemma source_cost_mono:
  "fewer_ports p p' \<Longrightarrow> node_class p' = node_class p \<Longrightarrow> source_cost wq p' \<le> source_cost wq p"
  by (simp add: source_cost_def out_cost_mono)

lemma cmds_cost_mono:
  assumes "fewer_ports p p'" "node_class p' = node_class p"
  shows "cmds_cost wq p' cs \<le> cmds_cost wq p cs"
proof (rule sum_list_mono)
  show "cmd_cost wq p' c \<le> cmd_cost wq p c" for c
    using assms by (cases c) (auto simp: ref_cost_mono source_cost_mono)
qed

lemma closing_cost_mono:
  assumes "fewer_ports p p'"
  shows "closing_cost wq p' hs \<le> closing_cost wq p hs"
proof (rule sum_list_mono)
  show "hosted_cost wq p' h \<le> hosted_cost wq p h" for h
    using assms by (cases h) (auto simp: ref_cost_mono)
qed

lemma cost_frame [simp]:
  "ref_cost k wq (p\<lparr>pc := x\<rparr>) r = ref_cost k wq p r"
  "ref_cost k wq (p\<lparr>event_collector := ec\<rparr>) r = ref_cost k wq p r"
  "ref_cost k wq (p\<lparr>input_count := n\<rparr>) r = ref_cost k wq p r"
  "ref_cost k wq (p\<lparr>node_class := c\<rparr>) r = ref_cost k wq p r"
  "out_cost wq (p\<lparr>pc := x\<rparr>) = out_cost wq p"
  "out_cost wq (p\<lparr>event_collector := ec\<rparr>) = out_cost wq p"
  "out_cost wq (p\<lparr>input_count := n\<rparr>) = out_cost wq p"
  "kind_of c = pkind p \<Longrightarrow> out_cost wq (p\<lparr>node_class := c\<rparr>) = out_cost wq p"
  "source_cost wq (p\<lparr>pc := x\<rparr>) = source_cost wq p"
  "source_cost wq (p\<lparr>event_collector := ec\<rparr>) = source_cost wq p"
  "source_cost wq (p\<lparr>input_count := n\<rparr>) = source_cost wq p"
  by (simp_all add: ref_cost_def out_cost_def source_cost_def)

lemma cmd_cost_frame [simp]:
  "cmd_cost wq (p\<lparr>pc := x\<rparr>) = cmd_cost wq p"
  "cmd_cost wq (p\<lparr>event_collector := ec\<rparr>) = cmd_cost wq p"
  "hosted_cost wq (p\<lparr>pc := x\<rparr>) = hosted_cost wq p"
  "hosted_cost wq (p\<lparr>event_collector := ec\<rparr>) = hosted_cost wq p"
  by (intro ext; rename_tac c; case_tac c; simp)+

lemma affordable_fewer:
  assumes "affordable wq p" "fewer_ports p p'" "generating p' \<Longrightarrow> source_ends (node_class p')"
  shows "affordable wq p'"
proof -
  have "2 * out_cost wq p' + 2 < wq q" if "r \<in> set (in_refs (pkind p'))" "chan_queue p' r = Some q" for r q
  proof -
    have "chan_queue p r = Some q" "r \<in> set (in_refs (pkind p))"
      using assms(2) that unfolding fewer_ports_def by (metis option.distinct(1))+
    then have "2 * out_cost wq p + 2 < wq q" using assms(1) unfolding affordable_def by blast
    then show ?thesis using out_cost_mono[OF assms(2), of wq] by linarith
  qed
  then show ?thesis using assms(3) by (simp add: affordable_def)
qed

section \<open>Running to the next suspension\<close>

text \<open>A processor got from another one by running code, with what it may still cost.\<close>

definition within :: "(nat \<Rightarrow> nat) \<Rightarrow> ('v, 's) processor \<Rightarrow> ('v, 's) processor \<Rightarrow> nat \<Rightarrow> bool" where
  "within wq p p' B \<longleftrightarrow>
     potential wq p' \<le> B \<and> fewer_ports p p' \<and> (generating p' \<longrightarrow> source_ends (node_class p'))"

lemma within_mono:
  "within wq p1 p' B \<Longrightarrow> fewer_ports p p1 \<Longrightarrow> B \<le> B' \<Longrightarrow> within wq p p' B'"
  by (auto simp: within_def intro: fewer_ports_trans)

lemma ref_le_out: "r \<in> set (out_refs (pkind p)) \<Longrightarrow> ref_cost 2 wq p r \<le> out_cost wq p"
  unfolding out_cost_def by (intro member_le_sum_list) simp_all

lemma work_failed_within: "within wq p (work_failed e p) (1 + out_cost wq p)"
  by (auto simp: work_failed_def within_def potential_def generating_def)

lemma after_work_within: "within wq p (after_work now p) (2 + out_cost wq p)"
proof (cases "node_class p")
  case ChannelSinkC
  then have "ref_cost 2 wq p OutPort \<le> out_cost wq p" by (intro ref_le_out) simp
  then show ?thesis
    using ChannelSinkC by (auto simp: after_work_defs within_def potential_def generating_def)
qed (auto simp: after_work_defs work_end_ok_def within_def potential_def generating_def)

lemma await_within:
  "within wq p (await_pop r k p) (2 + out_cost wq p)"
  "(CGenerate \<in> set cs \<Longrightarrow> source_ends (node_class p)) \<Longrightarrow>
     within wq p (await_push v r cs p) (2 + out_cost wq p + cmds_cost wq p (CPush v r # cs))"
  by (auto simp: await_pop_def await_push_def within_def potential_def generating_def)

lemma cost_same_ports:
  assumes "same_ports p p'"
  shows "out_cost wq p' = out_cost wq p"
    "node_class p' = node_class p \<Longrightarrow> cmds_cost wq p' cs = cmds_cost wq p cs"
proof -
  have "same_ports p' p" using assms by (simp add: same_ports_def)
  then show "out_cost wq p' = out_cost wq p" "node_class p' = node_class p \<Longrightarrow> cmds_cost wq p' cs = cmds_cost wq p cs"
    using assms by (metis antisym out_cost_mono cmds_cost_mono same_fewer)+
qed

lemma exec_simple_within:
  assumes "CGenerate \<in> set cs \<Longrightarrow> source_ends (node_class p)"
  shows "within wq p (exec_simple now cs p) (2 + out_cost wq p + cmds_cost wq p cs)"
proof -
  have failed: "within wq p (work_failed e p) (2 + out_cost wq p + cmds_cost wq p cs)" for e
    by (rule within_mono[OF work_failed_within]) simp_all
  have ret: "within wq p (after_work now p) (2 + out_cost wq p + cmds_cost wq p cs)"
    by (rule within_mono[OF after_work_within]) simp_all
  show ?thesis
  proof (cases cs)
    case (Cons c cs')
    show ?thesis
    proof (cases c)
      case (CPop r)
      show ?thesis
      proof (cases "GetChannel r p")
        case (Inr p')
        then have sp: "same_ports p p'" by (rule same_ports_GetChannel)
        have "within wq p (await_pop r (pop_count (node_class p)) p') (2 + out_cost wq p + cmds_cost wq p cs)"
          by (rule within_mono[OF await_within(1)]) (simp_all add: same_fewer[OF sp] cost_same_ports[OF sp])
        then show ?thesis using Cons CPop Inr by (simp add: exec_simple_def)
      qed (use Cons CPop failed in \<open>simp add: exec_simple_def\<close>)
    next
      case (CPush v r)
      show ?thesis
      proof (cases "GetChannel r p")
        case (Inr p')
        then have sp: "same_ports p p'" and c: "node_class p' = node_class p"
          by (rule same_ports_GetChannel, rule GetChannel_frame(4))
        have "within wq p (await_push v r cs' p') (2 + out_cost wq p + cmds_cost wq p cs)"
          using assms Cons CPush c cost_same_ports(1)[OF sp] cost_same_ports(2)[OF sp c, of wq cs] same_fewer[OF sp]
          by (intro within_mono[OF await_within(2)]) simp_all
        then show ?thesis using Cons CPush Inr by (simp add: exec_simple_def)
      qed (use Cons CPush failed in \<open>simp add: exec_simple_def\<close>)
    qed (use Cons ret in \<open>simp_all add: exec_simple_def\<close>)
  qed (use ret in \<open>simp add: exec_simple_def\<close>)
qed

lemma exec_body_within:
  assumes "kind_of (snd b) = pkind p"
    "\<And>cs. fst b = Inr cs \<Longrightarrow> cmds_cost wq (p\<lparr>node_class := snd b\<rparr>) cs \<le> C \<and>
       (CGenerate \<in> set cs \<longrightarrow> source_ends (snd b))"
  shows "within wq p (exec_body now b p) (2 + out_cost wq p + C)"
proof (cases "fst b")
  case (Inl e)
  then have "exec_body now b p = work_failed e (p\<lparr>node_class := snd b\<rparr>)" by (cases b) (simp add: exec_body_def)
  then show ?thesis
    using within_mono[OF work_failed_within[of wq "p\<lparr>node_class := snd b\<rparr>" e]] assms(1) by simp
next
  case (Inr cs)
  then have "exec_body now b p = exec_simple now cs (p\<lparr>node_class := snd b\<rparr>)" by (cases b) (simp add: exec_body_def)
  then show ?thesis
    using within_mono[OF exec_simple_within[of cs "p\<lparr>node_class := snd b\<rparr>" wq now]] assms(1) assms(2)[OF Inr] by simp
qed

lemma out_ref_costs:
  "out_refs (pkind p) = [OutPort] \<Longrightarrow> out_cost wq p = ref_cost 2 wq p OutPort"
  "pkind p = KOneI n \<Longrightarrow> out_cost wq p = (\<Sum>i\<leftarrow>[0..<n]. ref_cost 2 wq p (Outputs i))"
  by (simp_all add: out_cost_def comp_def)

lemma fan_out_costs:
  "cmds_cost wq p (push_eof_all n) = (\<Sum>i\<leftarrow>[0..<n]. ref_cost 2 wq p (Outputs i))"
  "cmds_cost wq p (map (\<lambda>i. CPush (Some x) (Outputs i)) [0..<n] @ [CPop InPort]) =
     (\<Sum>i\<leftarrow>[0..<n]. ref_cost 2 wq p (Outputs i))"
  by (simp_all add: push_eof_all_def comp_def)

text \<open>What a work body does with one element: at most two rounds of pushes.\<close>

lemma popped_cost:
  assumes "shape p" "fst (work_popped (node_class p) r v) = Inr cs"
  shows "cmds_cost wq (p\<lparr>node_class := snd (work_popped (node_class p) r v)\<rparr>) cs \<le> 2 * out_cost wq p"
proof (cases "node_class p")
  case (ForkC n)
  then have "out_cost wq p = (\<Sum>i\<leftarrow>[0..<n]. ref_cost 2 wq p (Outputs i))" by (intro out_ref_costs) simp
  then show ?thesis
    using assms ForkC by (auto simp: Fork_body_def fan_out_costs comp_def split: option.splits)
next
  case (DispatchC n d s)
  then have n: "0 < n" "pkind p = KOneI n" using assms(1) by (auto simp: shape_def)
  then have "ref_cost 2 wq p (Outputs (k mod n)) \<le> 2 * out_cost wq p" for k
    using ref_le_out[of "Outputs (k mod n)" p wq] by simp
  moreover have "out_cost wq p = (\<Sum>i\<leftarrow>[0..<n]. ref_cost 2 wq p (Outputs i))"
    using n(2) by (rule out_ref_costs)
  ultimately show ?thesis
    using assms DispatchC
    by (auto simp: Dispatch_body_def fan_out_costs trans_le_add1 split: option.splits prod.splits sum.splits)
qed (use assms out_ref_costs(1)[of p wq] in
    \<open>auto simp: ChannelSource_body_def Source_push_def source_cost_def calls_left_def Sink_body_def DumpSink_body_def
      ChannelSink_body_def SimpleTransform_body_def NoOpTransform_body_def Filter_body_def Accumulate_body_def
      Concat_body_def Concat_from_def
      split: option.splits prod.splits sum.splits if_splits chan_ref.splits\<close>)

lemma popped_generates:
  "fst (work_popped c r v) = Inr cs \<Longrightarrow> CGenerate \<in> set cs \<Longrightarrow> source_ends (snd (work_popped c r v))"
  by (cases c)
    (auto simp: ChannelSource_body_def Source_push_def source_ends_def Sink_body_def DumpSink_body_def
      ChannelSink_body_def SimpleTransform_body_def NoOpTransform_body_def Filter_body_def Accumulate_body_def
      Concat_body_def Concat_from_def Fork_body_def Dispatch_body_def push_eof_all_def
      split: option.splits prod.splits sum.splits if_splits chan_ref.splits)

lemma pop_return_within:
  assumes "shape p"
  shows "within wq p (pop_return now r v p) (2 + 3 * out_cost wq p)"
proof -
  have "within wq p (pop_return now r v p) (2 + out_cost wq p + 2 * out_cost wq p)"
    unfolding pop_return_def
    using popped_cost[OF assms, of r v _ wq] popped_generates[of "node_class p" r v]
    by (intro exec_body_within) (auto simp: kind_work_popped)
  then show ?thesis by (rule within_mono) simp_all
qed

lemma generate_cost:
  assumes "fst (Source_generate (node_class p)) = Inr cs" "source_ends (node_class p)"
  shows "cmds_cost wq (p\<lparr>node_class := snd (Source_generate (node_class p))\<rparr>) cs \<le> source_cost wq p \<and>
    (CGenerate \<in> set cs \<longrightarrow> source_ends (snd (Source_generate (node_class p))))"
proof (cases "node_class p")
  case (SourceC generate s)
  then obtain v s' where g: "generate s = (Inr v, s')" "cs = Source_push v"
    "snd (Source_generate (node_class p)) = SourceC generate s'"
    using assms(1) by (auto split: prod.splits sum.splits)
  have oc: "out_cost wq p = ref_cost 2 wq p OutPort" using SourceC by (intro out_ref_costs) simp
  have oc': "out_cost wq (p\<lparr>node_class := SourceC generate s'\<rparr>) = out_cost wq p" using SourceC by simp
  note pos = calls_left_pos[OF assms(2)[unfolded SourceC]]
  show ?thesis
  proof (cases v)
    case None
    then show ?thesis using g oc pos SourceC by (simp add: Source_push_def source_cost_def)
  next
    case (Some x)
    note nxt = calls_left_next[OF assms(2)[unfolded SourceC], of x s']
    have "Suc (calls_left (SourceC generate s')) * out_cost wq p \<le> calls_left (SourceC generate s) * out_cost wq p"
      using nxt(2) g(1) Some by (intro mult_le_mono1) simp
    then show ?thesis using g oc oc' nxt(1) SourceC Some by (simp add: Source_push_def source_cost_def)
  qed
next
  case EmptySourceC
  then have "out_cost wq p = ref_cost 2 wq p OutPort" by (intro out_ref_costs) simp
  then show ?thesis using EmptySourceC assms by (auto simp: Source_push_def source_cost_def calls_left_def)
qed (use assms in \<open>auto simp: source_cost_def calls_left_def\<close>)

lemma exec_cmds_within:
  assumes "CGenerate \<in> set cs \<Longrightarrow> source_ends (node_class p)"
  shows "within wq p (exec_cmds now cs p) (2 + out_cost wq p + cmds_cost wq p cs)"
proof (cases "\<exists>cs'. cs = CGenerate # cs'")
  case True
  then obtain cs' where cs: "cs = CGenerate # cs'" by auto
  have "within wq p (exec_body now (Source_generate (node_class p)) p) (2 + out_cost wq p + source_cost wq p)"
    using generate_cost[of p _ wq] assms cs by (intro exec_body_within) (auto simp: kind_Source_generate)
  then have "within wq p (exec_body now (Source_generate (node_class p)) p) (2 + out_cost wq p + cmds_cost wq p cs)"
    by (rule within_mono) (simp_all add: cs)
  then show ?thesis using cs by (simp add: exec_cmds_def)
next
  case False
  then have "exec_cmds now cs p = exec_simple now cs p"
    by (auto simp: exec_cmds_def split: list.splits cmd.splits)
  then show ?thesis using exec_simple_within[OF assms] by simp
qed

lemma exec_hosted_within: "within wq p (exec_hosted hs e p) (closing_cost wq p hs)"
proof (induction hs arbitrary: p)
  case Nil
  then show ?case by (simp add: within_def potential_def generating_def)
next
  case (Cons h hs)
  have step: "within wq p (exec_hosted hs e p') (closing_cost wq p (h # hs))" if "same_ports p p'" for p'
  proof (rule within_mono[OF Cons.IH same_fewer[OF that]])
    show "closing_cost wq p' hs \<le> closing_cost wq p (h # hs)"
      using closing_cost_mono[OF same_fewer[OF that], of wq hs] by simp
  qed
  show ?case
  proof (cases h)
    case (CloseInput r k)
    then show ?thesis
      using step closing_cost_mono[OF same_fewer[OF same_ports_GetChannel], of r p _ wq hs]
      by (auto simp: within_def potential_def generating_def same_ports_GetChannel same_fewer split: sum.splits)
  next
    case (CloseOutput r)
    then show ?thesis
      using step closing_cost_mono[OF same_fewer[OF same_ports_GetChannel], of r p _ wq "h # hs"]
      by (auto simp: within_def potential_def generating_def same_ports_GetChannel same_fewer split: sum.splits)
  qed
qed

lemma ref_cost_1: "ref_cost 1 wq p r \<le> ref_cost 2 wq p r"
  by (simp add: ref_cost_def split: option.splits)

lemma closing_all_cost: "closing_cost wq p (hosted_of (pkind p)) \<le> out_cost wq p"
proof -
  have "closing_cost wq p (hosted_of k) = (\<Sum>r\<leftarrow>out_refs k. ref_cost 1 wq p r)" for k
    by (simp add: hosted_of_def comp_def)
  then show ?thesis by (simp only: out_cost_def) (intro sum_list_mono ref_cost_1)
qed

lemma enter_hosted_within: "within wq p (enter_hosted now e p) (out_cost wq p)"
proof -
  let ?p = "p\<lparr>event_collector := EnterHostedMode now (event_collector p)\<rparr>"
  have "within wq ?p (exec_hosted (hosted_of (pkind ?p)) e ?p) (closing_cost wq ?p (hosted_of (pkind ?p)))"
    by (rule exec_hosted_within)
  then have "within wq p (exec_hosted (hosted_of (pkind ?p)) e ?p) (out_cost wq p)"
    by (rule within_mono) (use closing_all_cost[of wq p] in simp_all)
  then show ?thesis by (simp add: enter_hosted_def hosted_mode_kind)
qed

section \<open>Every answer uses up potential\<close>

lemma start_within:
  assumes "proc_inv p" "affordable wq p" "pc p = Created"
  shows "within wq p (resume now AnsGo p) (potential wq p - 1) \<and> 0 < potential wq p"
proof -
  have p: "shape p" "ins_open p" "outs_open p" using assms(1,3) by (auto simp: proc_inv_def)
  obtain cs where cs: "work (node_class p) = Inr cs" using work_not_base[OF p(1)] by auto
  let ?p = "p\<lparr>event_collector := WorkStart now (event_collector p)\<rparr>"
  have ends: "source_ends (node_class p)" using assms(2,3) by (simp add: affordable_def generating_def)
  have "cmds_cost wq p cs \<le> out_cost wq p + source_cost wq p"
    using cs out_ref_costs(1)[of p wq] by (cases "node_class p") (auto simp: Concat_from_def split: if_splits)
  moreover have "within wq ?p (exec_cmds now cs ?p) (2 + out_cost wq ?p + cmds_cost wq ?p cs)"
    using ends by (intro exec_cmds_within) simp
  ultimately have "within wq p (exec_cmds now cs ?p) (2 + 2 * out_cost wq p + source_cost wq p)"
    by (elim within_mono) simp_all
  then show ?thesis using assms(3) cs before_work_ok[OF p] by (simp add: start_work_def Let_def potential_def)
qed

lemma check_abort_within:
  assumes "within wq p (k p) B" "potential wq (p\<lparr>pc := w\<rparr>) \<le> B"
    "generating (p\<lparr>pc := w\<rparr>) \<Longrightarrow> source_ends (node_class p)"
  shows "within wq p (check_abort w k p) B"
  using assms by (auto simp: check_abort_def within_def)

lemma pop_checked_within:
  assumes "shape p"
  shows "within wq p (pop_checked now r k v sr p) (2 + out_cost wq p + (if sr then 2 * out_cost wq p else 0))"
proof (cases sr)
  case True
  then show ?thesis using within_mono[OF pop_return_within[OF assms, of wq now r v]] by (simp add: pop_checked_def)
next
  case False
  then show ?thesis using await_within(1)[of wq p r k] by (simp add: pop_checked_def)
qed

lemma pop_loop_within:
  assumes "shape p"
  shows "within wq p (check_abort (PopAbortWait r k v sr) (pop_checked now r k v sr) p) (3 + 3 * out_cost wq p)"
proof (rule check_abort_within)
  show "within wq p (pop_checked now r k v sr p) (3 + 3 * out_cost wq p)"
    by (rule within_mono[OF pop_checked_within[OF assms]]) simp_all
qed (simp_all add: potential_def generating_def)

lemma dec_count_shape:
  assumes "shape p" "pop_ready p r" "k = pop_count (node_class p)" "dec_count k p = (k', p2)"
  shows "shape (upd_chan chan_reset r p2)" "read_count p2 k' \<noteq> 0 \<Longrightarrow> shape p2"
    "fewer_ports p p2" "out_cost wq p2 = out_cost wq p"
proof -
  from assms(1,2) have "(shape (upd_chan chan_reset r p2) \<and> (read_count p2 k' \<noteq> 0 \<longrightarrow> shape p2)) \<and>
      fewer_ports p p2 \<and> out_cost wq p2 = out_cost wq p"
  proof (cases rule: pop_ready_refs)
    case (1 i)
    then have "p2 = p" using assms(3,4) by simp
    then show ?thesis using assms(1) by (simp add: shape_reset)
  next
    case 2
    then have "p2 = p\<lparr>input_count := input_count p - 1\<rparr>" "k' = InputCount" using assms(3,4) by simp_all
    then show ?thesis using assms(1) 2 by (simp add: shape_def)
  qed
  then show "shape (upd_chan chan_reset r p2)" "read_count p2 k' \<noteq> 0 \<Longrightarrow> shape p2"
    "fewer_ports p p2" "out_cost wq p2 = out_cost wq p" by simp_all
qed

lemma pop_got_within:
  assumes "shape p" "pop_ready p r" "k = pop_count (node_class p)"
  shows "within wq p (pop_got now r k v p) (3 + 3 * out_cost wq p)"
proof -
  let ?p = "read_event now r v p"
  have sp: "same_ports p ?p" by simp
  obtain k' p2 where d: "dec_count k ?p = (k', p2)" by force
  have rdy: "shape ?p" "pop_ready ?p r" "k = pop_count (node_class ?p)"
    using assms same_ports_checks[OF sp] by simp_all
  note D = dec_count_shape[OF rdy d]
  have p2: "fewer_ports p p2" "out_cost wq p2 = out_cost wq p"
    using fewer_ports_trans[OF same_fewer[OF sp] D(3)] D(4)[of wq] by simp_all
  have "within wq p (?p\<lparr>pc := Aborted\<rparr>) (3 + 3 * out_cost wq p)"
    by (simp add: within_def potential_def generating_def)
  moreover have "within wq p (check_abort (PopAbortWait r k v True) (pop_checked now r k v True) ?p) (3 + 3 * out_cost wq p)"
    using assms(1) by (intro within_mono[OF pop_loop_within]) simp_all
  moreover have "within wq p (pop_return now r None (upd_chan chan_reset r p2)) (3 + 3 * out_cost wq p)"
    using out_cost_mono[OF fewer_ports_reset[OF fewer_ports_refl], of wq r p2] p2
    by (intro within_mono[OF pop_return_within[OF D(1)]]) (simp_all add: fewer_ports_reset)
  moreover have "within wq p (check_abort (PopAbortWait r k' None False) (pop_checked now r k' None False) p2) (3 + 3 * out_cost wq p)"
    if "read_count p2 k' \<noteq> 0"
    using p2 by (intro within_mono[OF pop_loop_within[OF D(2)[OF that]]]) simp_all
  ultimately show ?thesis using d by (cases v) (simp_all add: pop_got_def Let_def)
qed

lemma close_input_got_within:
  assumes "pc p = CloseInputWait r k hs e"
  shows "within wq p (close_input_got r k hs e v p) (closing_cost wq p hs)"
proof -
  obtain k' p1 where d: "dec_count k p = (k', p1)" by force
  have p1: "fewer_ports p p1" using d by (cases k) auto
  have "within wq p (exec_hosted hs e p1) (closing_cost wq p hs)"
    by (rule within_mono[OF exec_hosted_within p1 closing_cost_mono[OF p1]])
  moreover have "within wq p (p1\<lparr>pc := CloseInputWait r k' hs e\<rparr>) (closing_cost wq p hs)"
    "within wq p (p\<lparr>pc := Aborted\<rparr>) (closing_cost wq p hs)" "within wq p p (closing_cost wq p hs)"
    using p1 closing_cost_mono[OF p1, of wq hs] assms by (simp_all add: within_def potential_def generating_def)
  ultimately show ?thesis using d by (simp add: close_input_got_def)
qed

lemma popping_within:
  assumes "proc_inv p" "affordable wq p" "pending p = ReqPop q"
  shows "within wq p (resume now (AnsPop v) p) (potential wq p + wq q - 1) \<and> 0 < wq q"
  using assms(3) unfolding pending_Pop
proof (elim disjE exE conjE)
  fix r k assume pc: "pc p = PopWait r k" "chan_queue p r = Some q"
  then have p: "shape p" "pop_ready p r" "k = pop_count (node_class p)" using assms(1) by (auto simp: proc_inv_def)
  then have "2 * out_cost wq p + 2 < wq q" using assms(2) pc(2) by (auto simp: affordable_def pop_ready_def)
  then show ?thesis
    using within_mono[OF pop_got_within[OF p, of wq now v], of p] pc by (simp add: potential_def)
next
  fix r k hs e assume pc: "pc p = CloseInputWait r k hs e" "chan_queue p r = Some q"
  then have "r \<in> set (in_refs (pkind p))" using assms(1) by (auto simp: proc_inv_def)
  then have "2 * out_cost wq p + 2 < wq q" using assms(2) pc(2) by (auto simp: affordable_def)
  then show ?thesis
    using within_mono[OF close_input_got_within[OF pc(1), of wq v], of p "closing_cost wq p hs + wq q - 1"] pc
    by (simp add: potential_def)
qed

lemma push_done_within:
  assumes "CGenerate \<in> set cs \<Longrightarrow> source_ends (node_class p)"
  shows "within wq p (push_done now v r cs p) (3 + out_cost wq p + cmds_cost wq p cs)"
proof -
  let ?p1 = "p\<lparr>event_collector := OutputPortWrite now (GetIndex (get_chan p r))
      (transferred_bytes (traits p) v) (v = None) (event_collector p)\<rparr>"
  let ?p2 = "if v = None then upd_chan chan_reset r ?p1 else ?p1"
  have f: "fewer_ports p ?p2" by (simp add: fewer_ports_reset)
  have c: "node_class ?p2 = node_class p" by simp
  have le: "out_cost wq ?p2 \<le> out_cost wq p" "cmds_cost wq ?p2 cs \<le> cmds_cost wq p cs"
    by (rule out_cost_mono[OF f], rule cmds_cost_mono[OF f c])
  have "within wq ?p2 (exec_cmds now cs ?p2) (3 + out_cost wq p + cmds_cost wq p cs)"
    using assms c le by (intro within_mono[OF exec_cmds_within]) simp_all
  then have "within wq ?p2 (check_abort (PushAbortWait cs) (exec_cmds now cs) ?p2) (3 + out_cost wq p + cmds_cost wq p cs)"
    by (rule check_abort_within) (use le assms c in \<open>simp_all add: potential_def generating_def\<close>)
  then have "within wq p (check_abort (PushAbortWait cs) (exec_cmds now cs) ?p2) (3 + out_cost wq p + cmds_cost wq p cs)"
    by (rule within_mono[OF _ f order.refl])
  then show ?thesis by (simp only: push_done_def Let_def)
qed

lemma pushing_within:
  assumes "affordable wq p" "pending p = ReqPush q v"
  shows "within wq p (resume now AnsGo p) (potential wq p - wq q - 1) \<and> wq q < potential wq p"
  using assms(2) unfolding pending_Push
proof (elim disjE exE conjE)
  fix r cs assume pc: "pc p = PushWait v r cs" "chan_queue p r = Some q"
  then have "CGenerate \<in> set cs \<Longrightarrow> source_ends (node_class p)" using assms(1) by (simp add: affordable_def generating_def)
  then show ?thesis
    using push_done_within[of cs p wq now v r] pc by (simp add: potential_def ref_cost_def ac_simps)
next
  fix r hs e assume pc: "pc p = CloseOutputWait r hs e" "chan_queue p r = Some q"
  then show ?thesis using exec_hosted_within[of wq p hs e] by (simp add: potential_def ref_cost_def)
next
  assume pc: "pc p = AfterWorkWait" "chan_queue p OutPort = Some q"
  then show ?thesis by (simp add: within_def potential_def ref_cost_def work_end_ok_def generating_def)
qed

lemma abort_within:
  assumes "proc_inv p" "affordable wq p"
  shows "pending p = ReqAbortPop a \<Longrightarrow> within wq p (resume now (AnsTry b) p) (potential wq p - 1) \<and> 0 < potential wq p"
    "pending p = ReqAbortPush a \<Longrightarrow> within wq p (resume now (AnsTry b) p) (potential wq p - 1) \<and> 0 < potential wq p"
proof -
  show "within wq p (resume now (AnsTry b) p) (potential wq p - 1) \<and> 0 < potential wq p" if "pending p = ReqAbortPop a"
    using that
  proof (cases rule: pending_AbortPop)
    case (1 r k v sr)
    have "shape p" using assms(1) 1 by (simp add: proc_inv_def)
    then show ?thesis
      using 1 within_mono[OF work_failed_within[of wq p abort_exn], of p] pop_checked_within[of p wq now r k v sr]
      by (simp add: potential_def)
  next
    case (2 cs)
    then have "CGenerate \<in> set cs \<Longrightarrow> source_ends (node_class p)" using assms(2) by (simp add: affordable_def generating_def)
    then show ?thesis
      using 2 within_mono[OF work_failed_within[of wq p abort_exn], of p] exec_cmds_within[of cs p wq now]
      by (simp add: potential_def ac_simps)
  qed
  show "within wq p (resume now (AnsTry b) p) (potential wq p - 1) \<and> 0 < potential wq p" if "pending p = ReqAbortPush a"
    using that
  proof (cases rule: pending_AbortPush)
    case (1 e)
    then show ?thesis using enter_hosted_within[of wq p now e] by (simp add: potential_def)
  qed
qed

interpretation pw: using_energy pending resume "\<lambda>p. proc_inv p \<and> affordable wq p" "potential wq" wq
  for wq :: "nat \<Rightarrow> nat"
proof
  fix p :: "('v, 's) processor" and now q v b a
  assume inv: "proc_inv p \<and> affordable wq p"
  show "pending p = ReqStart \<Longrightarrow> potential wq (resume now AnsGo p) < potential wq p"
    using start_within[of p wq now] inv by (auto simp: pending_Start within_def simp del: resume.simps)
  show "pending p = ReqPop q \<Longrightarrow> potential wq (resume now (AnsPop v) p) < potential wq p + wq q"
    using popping_within[of p wq q now v] inv by (auto simp: within_def simp del: resume.simps)
  show "pending p = ReqPush q v \<Longrightarrow> potential wq (resume now AnsGo p) + wq q < potential wq p"
    using pushing_within[of wq p q v now] inv by (auto simp: within_def simp del: resume.simps)
  show "pending p = ReqAbortPop a \<Longrightarrow> potential wq (resume now (AnsTry b) p) < potential wq p"
    using abort_within(1)[of p wq a now b] inv by (auto simp: within_def simp del: resume.simps)
  show "pending p = ReqAbortPush a \<Longrightarrow> potential wq (resume now (AnsTry b) p) < potential wq p"
    using abort_within(2)[of p wq a now b] inv by (auto simp: within_def simp del: resume.simps)
qed

end
