(* ===== verification/Pipeline_Ends.thy ===== *)
theory Pipeline_Ends
  imports Merge_Run Termination
begin

text \<open>
  Every run of a pipeline whose sources end is finite. The weights of the queues are chosen along the
  graph of the pipeline, from the sinks to the sources, such that every node can pay for what it
  sends out of what it receives.
\<close>

declare pending.simps [simp del] resume.simps [simp del]

section \<open>Weights\<close>

fun weight_at :: "nat \<Rightarrow> nat \<Rightarrow> nat" where
  "weight_at m 0 = 4 * m + 3"
| "weight_at m (Suc h) = 2 * m * (2 + weight_at m h) + 3"

lemma weight_at_Suc: "weight_at m h \<le> weight_at m (Suc h)"
proof (induction h)
  case (Suc h)
  then have "2 * m * (2 + weight_at m h) \<le> 2 * m * (2 + weight_at m (Suc h))"
    by (intro mult_le_mono2) linarith
  then show ?case by (simp only: weight_at.simps(2)[of m h] weight_at.simps(2)[of m "Suc h"])
qed simp

lemma weight_at_mono: "h \<le> h' \<Longrightarrow> weight_at m h \<le> weight_at m h'"
  using weight_at_Suc by (rule lift_Suc_mono_le[of "weight_at m"])

lemma out_cost_le:
  assumes "\<And>r q. r \<in> set (out_refs (pkind p)) \<Longrightarrow> chan_queue p r = Some q \<Longrightarrow> wq q \<le> X"
  shows "out_cost wq p \<le> length (out_refs (pkind p)) * (2 + X)"
proof -
  have "out_cost wq p \<le> (\<Sum>r\<leftarrow>out_refs (pkind p). 2 + X)"
    unfolding out_cost_def using assms by (intro sum_list_mono) (auto simp: ref_cost_def split: option.splits)
  then show ?thesis by (simp add: sum_list_triv)
qed

lemma weights_exist:
  assumes "pipe_inv w P"
  shows "\<exists>wq. \<forall>i p r q. nodes P i = Some p \<longrightarrow> r \<in> set (in_refs (pkind p)) \<longrightarrow> chan_queue p r = Some q \<longrightarrow>
    2 * out_cost wq p + 2 < wq q"
proof -
  let ?D = "dom (nodes P)"
  obtain rk :: "nat \<Rightarrow> nat" where rk: "\<forall>(i, j) \<in> edges P. rk i < rk j" using assms by (auto simp: pipe_inv_def)
  have fin: "finite ?D" and flow: "edges P = feeds ?D (node_set reads_q P) (node_set writes_q P)"
    using assms by (auto simp: pipe_inv_def)
  define R where "R = Max (rk ` ?D)"
  define m where "m = Max ((\<lambda>i. case nodes P i of None \<Rightarrow> 0 | Some p \<Rightarrow> length (out_refs (pkind p))) ` ?D)"
  define readers where "readers q = {j \<in> ?D. q \<in> node_set reads_q P j}" for q
  define height where "height q = Max ((\<lambda>j. R - rk j) ` readers q)" for q
  define wq where "wq q = (if readers q = {} then 0 else weight_at m (height q))" for q
  have R: "rk i \<le> R" if "i \<in> ?D" for i using that fin by (simp add: R_def)
  have m: "length (out_refs (pkind p)) \<le> m" if "nodes P i = Some p" for i p
  proof -
    have "i \<in> ?D" using that by auto
    then have "(case nodes P i of None \<Rightarrow> 0 | Some p \<Rightarrow> length (out_refs (pkind p))) \<le> m"
      unfolding m_def using fin by (intro Max_ge) auto
    then show ?thesis using that by simp
  qed
  have fr: "finite (readers q)" for q using fin by (simp add: readers_def)
  have "2 * out_cost wq p + 2 < wq q"
    if p: "nodes P i = Some p" "r \<in> set (in_refs (pkind p))" "chan_queue p r = Some q" for i p r q
  proof -
    let ?h = "R - rk i" and ?X = "if R - rk i = 0 then 0 else weight_at m (R - rk i - 1)"
    have i: "i \<in> readers q" using p by (auto simp: readers_def node_set_def reads_q_def)
    then have "?h \<le> height q" unfolding height_def using fr by (intro Max_ge) auto
    then have big: "weight_at m ?h \<le> wq q" using i weight_at_mono by (auto simp: wq_def)
    have "wq q' \<le> ?X" if q': "r' \<in> set (out_refs (pkind p))" "chan_queue p r' = Some q'" for r' q'
    proof (cases "readers q' = {}")
      case False
      have "R - rk j < ?h" if "j \<in> readers q'" for j
      proof -
        have "(i, j) \<in> edges P"
          using that q' p(1) unfolding flow by (auto simp: feeds_def readers_def node_set_def writes_q_def)
        then have "rk i < rk j" using rk by auto
        then show ?thesis using R[of j] that by (auto simp: readers_def)
      qed
      then have "height q' < ?h" using False fr by (simp add: height_def)
      then show ?thesis using False weight_at_mono[of "height q'" "?h - 1" m] by (auto simp: wq_def)
    qed (simp add: wq_def)
    then have "out_cost wq p \<le> length (out_refs (pkind p)) * (2 + ?X)" by (rule out_cost_le)
    also have "\<dots> \<le> m * (2 + ?X)" using m[OF p(1)] by (intro mult_le_mono1)
    finally have "2 * out_cost wq p + 2 \<le> 2 * (m * (2 + ?X)) + 2" by simp
    also have "\<dots> < weight_at m ?h" by (cases ?h) simp_all
    finally show ?thesis using big by simp
  qed
  then show ?thesis by blast
qed

section \<open>Running pipelines\<close>

text \<open>
  A node that has come from \<open>p0\<close> and either is in order or was lost. It reads and writes queues of
  \<open>p0\<close> only.
\<close>

definition on_course :: "(nat \<Rightarrow> nat) \<Rightarrow> ('v, 's) processor \<Rightarrow> ('v, 's) processor \<Rightarrow> bool" where
  "on_course wq p0 p \<longleftrightarrow> (bad p \<or> proc_inv p) \<and> affordable wq p \<and> fewer_ports p0 p"

lemma bad_stuck: "bad p \<Longrightarrow> pending p = ReqNone"
  by (rule co.lost_stuck)

lemma on_course_within:
  assumes "on_course wq p0 p" "within wq p p' B" "bad p' \<or> proc_inv p'"
  shows "on_course wq p0 p'"
  using assms affordable_fewer[of wq p p'] fewer_ports_trans[of p0 p p'] by (auto simp: on_course_def within_def)

lemma on_course_resume:
  assumes "on_course wq p0 p"
  shows "pending p = ReqStart \<Longrightarrow> on_course wq p0 (resume now AnsGo p)"
    "pending p = ReqPop q \<Longrightarrow> on_course wq p0 (resume now (AnsPop v) p)"
    "pending p = ReqPush q v \<Longrightarrow> on_course wq p0 (resume now AnsGo p)"
    "pending p = ReqAbortPop a \<Longrightarrow> on_course wq p0 (resume now (AnsTry b) p)"
    "pending p = ReqAbortPush a \<Longrightarrow> on_course wq p0 (resume now (AnsTry b) p)"
proof -
  have p: "proc_inv p" "affordable wq p" if "pending p \<noteq> ReqNone"
    using that assms bad_stuck[of p] by (auto simp: on_course_def)
  note here = on_course_within[OF assms conjunct1]
  show "on_course wq p0 (resume now AnsGo p)" if st: "pending p = ReqStart"
    using here[OF start_within[OF p]] co.start_law[OF p(1) st] st by (auto simp: pending_Start)
  show "on_course wq p0 (resume now (AnsPop v) p)" if "pending p = ReqPop q"
    using here[OF popping_within[OF p that]] co.pop_law[OF p(1) that] that by auto
  show "on_course wq p0 (resume now AnsGo p)" if "pending p = ReqPush q v"
    using here[OF pushing_within[OF p(2) that]] co.push_law[OF p(1) that] that by auto
  show "on_course wq p0 (resume now (AnsTry b) p)" if "pending p = ReqAbortPop a"
    using here[OF abort_within(1)[OF p that]] co.abort_pop_law[OF p(1) that] that by auto
  show "on_course wq p0 (resume now (AnsTry b) p)" if "pending p = ReqAbortPush a"
    using here[OF abort_within(2)[OF p that]] co.abort_push_law[OF p(1) that] that by auto
qed

definition all_on_course :: "(nat \<Rightarrow> nat) \<Rightarrow> (nat \<rightharpoonup> ('v, 's) processor) \<Rightarrow> (('v, 's) processor, 'v) net \<Rightarrow> bool" where
  "all_on_course wq N s \<longleftrightarrow>
     dom (procs s) = dom N \<and> (\<forall>i p. procs s i = Some p \<longrightarrow> on_course wq (the (N i)) p)"

lemma on_course_reach:
  assumes "net_reach pending resume s0 s" "all_on_course wq N s0"
  shows "all_on_course wq N s"
  using assms
proof (induction rule: net_reach.induct)
  case (step s i s')
  have put: "all_on_course wq N (s\<lparr>procs := (procs s)(i \<mapsto> p')\<rparr>)"
    if "procs s i = Some p" "on_course wq (the (N i)) p'" for p p'
    using that step.IH[OF step.prems] by (auto simp: all_on_course_def)
  have frame: "all_on_course wq N (t\<lparr>queues := x\<rparr>) = all_on_course wq N t"
    "all_on_course wq N (t\<lparr>aborts := y\<rparr>) = all_on_course wq N t" for t x y by (simp_all add: all_on_course_def)
  have here: "on_course wq (the (N i)) p" if "procs s i = Some p" for p
    using that step.IH[OF step.prems] by (auto simp: all_on_course_def)
  from step(2) show ?case
    by cases (use put frame here on_course_resume in \<open>metis net.update_convs\<close>)+
next
  case (env s h)
  then show ?case by (simp add: all_on_course_def)
qed simp

lemma on_course_queues:
  assumes "on_course wq p0 p"
  shows "pending p = ReqPop q \<Longrightarrow> q \<in> reads_q p0" "pending p = ReqPush q v \<Longrightarrow> q \<in> writes_q p0"
proof -
  have p: "proc_inv p" if "pending p \<noteq> ReqNone" using that assms bad_stuck[of p] by (auto simp: on_course_def)
  have ports: "chan_queue p0 r = Some q" "pkind p0 = pkind p" if "chan_queue p r = Some q" for r
    using that assms unfolding on_course_def fewer_ports_def by (metis option.distinct(1))+
  show "q \<in> reads_q p0" if req: "pending p = ReqPop q"
  proof -
    have "proc_inv p" using req p by simp
    then obtain r where "r \<in> set (in_refs (pkind p))" "chan_queue p r = Some q"
      using req unfolding pending_Pop by (auto simp: proc_inv_def pop_ready_def)
    then show ?thesis using ports[of r] by (auto simp: reads_q_def)
  qed
  show "q \<in> writes_q p0" if req: "pending p = ReqPush q v"
  proof -
    have "proc_inv p" using req p by simp
    then obtain r where "r \<in> set (out_refs (pkind p))" "chan_queue p r = Some q"
      using req unfolding pending_Push by (auto simp: proc_inv_def)
    then show ?thesis using ports[of r] by (auto simp: writes_q_def)
  qed
qed

text \<open>A network on course takes a bounded number of steps.\<close>

lemma course_in_order:
  assumes "all_on_course wq N s" "\<And>i p. N i = Some p \<Longrightarrow> reads_q p \<union> writes_q p \<subseteq> Q"
  shows "pw.in_order wq (dom N) Q s"
proof -
  have "q \<in> Q" if p: "procs s i = Some p" "pending p = ReqPop q \<or> pending p = ReqPush q v" for i p q v
  proof -
    have "i \<in> dom N" "on_course wq (the (N i)) p" using p(1) assms(1) by (auto simp: all_on_course_def)
    then show ?thesis using on_course_queues[of wq "the (N i)" p] p(2) assms(2)[of i] by auto
  qed
  then show ?thesis
    using assms(1) bad_stuck unfolding pw.in_order_def all_on_course_def on_course_def by blast
qed

lemma course_bounded:
  assumes "all_on_course wq N s0" "\<And>i p. N i = Some p \<Longrightarrow> reads_q p \<union> writes_q p \<subseteq> Q" "finite (dom N)" "finite Q"
  shows "\<exists>B. \<forall>n s. net_steps pending resume s0 n s \<longrightarrow> n \<le> B"
proof -
  have "pw.in_order wq (dom N) Q s" if "net_reach pending resume s0 s" for s
    using course_in_order[OF on_course_reach[OF that assms(1)]] assms(2) by blast
  then have "n \<le> energy (potential wq) wq (dom N) Q s0" if "net_steps pending resume s0 n s" for n s
    using pw.steps_bounded[OF that assms(3,4), of wq] by simp
  then show ?thesis by blast
qed

lemma affordable_bind [simp]: "affordable wq (BindAbortChannel c p) = affordable wq p"
  by (simp add: affordable_def out_cost_def ref_cost_def generating_def)

lemma steps_bound_exists:
  assumes inv: "pipe_inv w P" and run: "Run ex garbage w P = Returned s0"
    and ends: "\<And>i p. nodes P i = Some p \<Longrightarrow> source_ends (node_class p)"
  shows "\<exists>N. \<forall>n s. net_steps pending resume s0 n s \<longrightarrow> n \<le> N"
proof -
  obtain wq where wq: "\<forall>i p r q. nodes P i = Some p \<longrightarrow> r \<in> set (in_refs (pkind p)) \<longrightarrow> chan_queue p r = Some q \<longrightarrow>
      2 * out_cost wq p + 2 < wq q" using weights_exist[OF inv] by blast
  note ok = Run_net_ok[OF inv run, unfolded co.net_ok_def]
  have aff: "affordable wq p" if "nodes P i = Some p" for i p
    using that wq ends unfolding affordable_def by blast
  obtain c where "procs s0 = Run_bind c P" using Run_Returned[OF run] by metis
  then have "affordable wq p \<and> fewer_ports (the (nodes P i)) p" if "procs s0 i = Some p" for i p
    using that aff by (auto simp: Run_bind_def fewer_ports_def split: if_splits)
  then have course: "all_on_course wq (nodes P) s0" using ok by (auto simp: all_on_course_def on_course_def)
  show ?thesis
    by (rule course_bounded[OF course, of "{..<next_queue (wheap w)}"])
      (use inv pipe_inv_finite[OF inv] in \<open>auto simp: pipe_inv_def node_ok_def\<close>)
qed

section \<open>Properties\<close>

text \<open>
  C6: termination. If every source of a pipeline built through the interface ends (some call of
  \<^verbatim>\<open>generate\<close> returns no value or throws), then there is a bound on the number of steps of all runs,
  whether the abort channel is bound or not: under no interleaving, no behaviour of the user's code
  and no activity on the abort channel do the nodes run for ever.
\<close>

theorem pipeline_terminates:
  assumes "built w P" "Run ex garbage w P = Returned s0"
    "\<forall>i p. nodes P i = Some p \<longrightarrow> source_ends (node_class p)"
  shows "\<exists>N. \<forall>n s. net_steps pending resume s0 n s \<longrightarrow> n \<le> N"
  using steps_bound_exists[OF built_pipe_inv[OF assms(1)] assms(2)] assms(3) by blast

lemma demo_sources_end: "\<forall>i p. nodes demo_pipeline i = Some p \<longrightarrow> source_ends (node_class p)"
proof -
  have "ends_within 3 (\<lambda>n. (Inr (if n < 2 then Some n else None), Suc n)) (0::nat)"
    by (simp add: eval_nat_numeral)
  then show ?thesis
    by (auto simp: demo_pipeline_simp demo_source_def demo_sink_def source_ends_def)
qed

theorem pipeline_terminates_witness: "\<exists>N. \<forall>n s. net_steps pending resume demo_net n s \<longrightarrow> n \<le> N"
  by (rule pipeline_terminates[OF demo_built demo_run demo_sources_end])

text \<open>
  C2: an untangled pipeline with queues that can hold an element, a bound
  abort channel and sources that end always runs to its end: the number of steps is bounded, and
  a state without a next step is one where every node has ended and every queue is empty.
\<close>

theorem pipeline_completes:
  assumes "built w P" "untangled P" "0 < channel_size P" "bind_abort_channel P"
    "Run ex garbage w P = Returned s0" "\<forall>i p. nodes P i = Some p \<longrightarrow> source_ends (node_class p)"
  shows "\<exists>N. \<forall>n s. net_steps pending resume s0 n s \<longrightarrow>
    n \<le> N \<and> ((\<nexists>i s'. proc_step pending resume i s s') \<longrightarrow>
      all_ended pending s \<and> (\<forall>q. bq_queue (queues s q) = []))"
proof -
  have inv: "pipe_inv w P" using assms(1) by (rule built_pipe_inv)
  obtain N where N: "\<forall>n s. net_steps pending resume s0 n s \<longrightarrow> n \<le> N"
    using steps_bound_exists[OF inv assms(5)] assms(6) by blast
  have "all_ended pending s \<and> (\<forall>q. bq_queue (queues s q) = [])"
    if run: "net_steps pending resume s0 n s" and stuck: "\<nexists>i s'. proc_step pending resume i s s'" for n s
  proof -
    note reach = net_steps_reach[OF run]
    have "all_ended pending s"
      using in_order_progress[OF inv assms(2,4,5) reach] caps_positive[OF inv built_caps[OF assms(1)] assms(3)] stuck
      by blast
    then show ?thesis using co.ended_drained[OF running_ok[OF inv assms(5,4) reach]] by blast
  qed
  then show ?thesis using N by blast
qed

theorem pipeline_completes_witness:
  "\<exists>N. \<forall>n s. net_steps pending resume demo_net n s \<longrightarrow>
    n \<le> N \<and> ((\<nexists>i s'. proc_step pending resume i s s') \<longrightarrow>
      all_ended pending s \<and> (\<forall>q. bq_queue (queues s q) = []))"
  by (rule pipeline_completes[OF demo_built demo_facts(1-3) demo_run demo_sources_end])

end
