(* ===== verification/Net_Flow.thy ===== *)
theory Net_Flow
  imports Network
begin

text \<open>
  Conservation of data. If every coroutine passes on the weight of the elements it takes, stored
  in its state or as the weight of the elements it sends, then the total weight of a network never
  changes as long as nothing comes in through the abort channel. Weights are taken from any
  commutative monoid: numbers count or add up elements, multisets collect them. An element
  without a weight may not occur in a queue.
\<close>

section \<open>Runs that nobody else interferes with\<close>

inductive net_alone :: "('p \<Rightarrow> 'v request) \<Rightarrow> (nat \<Rightarrow> 'v answer \<Rightarrow> 'p \<Rightarrow> 'p) \<Rightarrow>
    ('p, 'v) net \<Rightarrow> ('p, 'v) net \<Rightarrow> bool"
  for pend res s0 where
  init: "net_alone pend res s0 s0"
| step: "net_alone pend res s0 s \<Longrightarrow> proc_step pend res i s s' \<Longrightarrow> net_alone pend res s0 s'"

lemma net_alone_reach: "net_alone pend res s0 s \<Longrightarrow> net_reach pend res s0 s"
  by (induction rule: net_alone.induct) (auto intro: net_reach.intros)

section \<open>Total weight\<close>

definition weigh :: "(nat \<Rightarrow> 'v \<Rightarrow> 'a :: comm_monoid_add option) \<Rightarrow> nat \<Rightarrow> 'v option \<Rightarrow> 'a" where
  "weigh wt q v = (case v of None \<Rightarrow> 0 | Some x \<Rightarrow> (case wt q x of None \<Rightarrow> 0 | Some a \<Rightarrow> a))"

definition fits :: "(nat \<Rightarrow> 'v \<Rightarrow> 'a option) \<Rightarrow> nat \<Rightarrow> 'v option \<Rightarrow> bool" where
  "fits wt q v = (case v of None \<Rightarrow> True | Some x \<Rightarrow> wt q x \<noteq> None)"

lemma eof_weighs [simp]: "weigh wt q None = 0" "fits wt q None"
  by (simp_all add: weigh_def fits_def)

definition procs_total :: "(nat \<Rightarrow> 'p \<Rightarrow> 'a :: comm_monoid_add) \<Rightarrow> nat set \<Rightarrow> (nat \<rightharpoonup> 'p) \<Rightarrow> 'a" where
  "procs_total val D ps = (\<Sum>i\<in>D. case ps i of None \<Rightarrow> 0 | Some p \<Rightarrow> val i p)"

definition queue_weight :: "(nat \<Rightarrow> 'v \<Rightarrow> 'a :: comm_monoid_add option) \<Rightarrow> nat \<Rightarrow> 'v option bounded_queue \<Rightarrow> 'a" where
  "queue_weight wt q bq = (\<Sum>v\<leftarrow>bq_queue bq. weigh wt q v)"

definition queues_total :: "(nat \<Rightarrow> 'v \<Rightarrow> 'a :: comm_monoid_add option) \<Rightarrow> nat set \<Rightarrow>
    (nat \<Rightarrow> 'v option bounded_queue) \<Rightarrow> 'a" where
  "queues_total wt Q qs = (\<Sum>q\<in>Q. queue_weight wt q (qs q))"

definition total :: "(nat \<Rightarrow> 'p \<Rightarrow> 'a) \<Rightarrow> (nat \<Rightarrow> 'v \<Rightarrow> 'a :: comm_monoid_add option) \<Rightarrow> nat set \<Rightarrow> nat set \<Rightarrow>
    ('p, 'v) net \<Rightarrow> 'a" where
  "total val wt D Q s = procs_total val D (procs s) + queues_total wt Q (queues s)"

lemma procs_total_split:
  "finite D \<Longrightarrow> i \<in> D \<Longrightarrow> ps i = Some p \<Longrightarrow> procs_total val D ps = val i p + procs_total val (D - {i}) ps"
  unfolding procs_total_def by (simp add: sum.remove)

lemma procs_total_other [simp]: "procs_total val (D - {i}) (ps(i := x)) = procs_total val (D - {i}) ps"
  unfolding procs_total_def by (rule sum.cong) auto

lemma queues_total_split:
  "finite Q \<Longrightarrow> q \<in> Q \<Longrightarrow> queues_total wt Q qs = queue_weight wt q (qs q) + queues_total wt (Q - {q}) qs"
  unfolding queues_total_def by (simp add: sum.remove)

lemma queues_total_other [simp]: "queues_total wt (Q - {q}) (qs(q := bq)) = queues_total wt (Q - {q}) qs"
  unfolding queues_total_def by (rule sum.cong) auto

section \<open>The contract\<close>

locale passing_on =
  fixes pend :: "'p \<Rightarrow> 'v request"
    and res :: "nat \<Rightarrow> 'v answer \<Rightarrow> 'p \<Rightarrow> 'p"
    and good :: "nat \<Rightarrow> 'p \<Rightarrow> bool"
    and val :: "nat \<Rightarrow> 'p \<Rightarrow> 'a :: comm_monoid_add"
    and wt :: "nat \<Rightarrow> 'v \<Rightarrow> 'a option"
    and abq :: nat
  assumes start_passes: "good i p \<Longrightarrow> pend p = ReqStart \<Longrightarrow>
      good i (res now AnsGo p) \<and> val i (res now AnsGo p) = val i p"
    and pop_passes: "good i p \<Longrightarrow> pend p = ReqPop q \<Longrightarrow> fits wt q v \<Longrightarrow>
      good i (res now (AnsPop v) p) \<and> val i (res now (AnsPop v) p) = val i p + weigh wt q v"
    and push_passes: "good i p \<Longrightarrow> pend p = ReqPush q v \<Longrightarrow>
      fits wt q v \<and> good i (res now AnsGo p) \<and> val i p = val i (res now AnsGo p) + weigh wt q v"
    and abort_passes: "good i p \<Longrightarrow> pend p = ReqAbortPop a \<Longrightarrow>
      a = abq \<and> good i (res now (AnsTry False) p) \<and> val i (res now (AnsTry False) p) = val i p"
    and no_notify: "good i p \<Longrightarrow> pend p \<noteq> ReqAbortPush a"
begin

definition undisturbed :: "nat set \<Rightarrow> nat set \<Rightarrow> 'a \<Rightarrow> ('p, 'v) net \<Rightarrow> bool" where
  "undisturbed D Q T s \<longleftrightarrow>
     dom (procs s) = D \<and> (\<forall>i p. procs s i = Some p \<longrightarrow> good i p) \<and>
     (\<forall>q\<in>Q. \<forall>v\<in>set (bq_queue (queues s q)). fits wt q v) \<and>
     bq_queue (aborts s abq) = [] \<and> total val wt D Q s = T"

lemma step_passes:
  assumes "proc_step pend res i s s'" "undisturbed D Q T s" "finite D" "finite Q"
    "\<And>p q v. procs s i = Some p \<Longrightarrow> pend p = ReqPop q \<or> pend p = ReqPush q v \<Longrightarrow> q \<in> Q"
  shows "undisturbed D Q T s'"
proof -
  have s: "dom (procs s) = D" "\<And>j p. procs s j = Some p \<Longrightarrow> good j p" "bq_queue (aborts s abq) = []"
    "total val wt D Q s = T" "\<forall>q\<in>Q. \<forall>v\<in>set (bq_queue (queues s q)). fits wt q v"
    using assms(2) by (auto simp: undisturbed_def)
  have keep: "undisturbed D Q T s1"
    if "procs s1 = (procs s)(i \<mapsto> p')" "good i p'" "i \<in> D" "bq_queue (aborts s1 abq) = []" "total val wt D Q s1 = T"
      "\<forall>q\<in>Q. \<forall>v\<in>set (bq_queue (queues s1 q)). fits wt q v" for s1 p'
    using that s(1,2) by (auto simp: undisturbed_def)
  have P: "procs_total val D ((procs s)(i \<mapsto> p')) = val i p' + procs_total val (D - {i}) (procs s)" if "i \<in> D" for p'
    using procs_total_split[OF assms(3) that, of "(procs s)(i \<mapsto> p')" p' val] by simp
  have P0: "procs_total val D (procs s) = val i p + procs_total val (D - {i}) (procs s)" if "procs s i = Some p" "i \<in> D" for p
    using procs_total_split[OF assms(3) that(2), of "procs s" p val] that(1) by simp
  have Q: "queues_total wt Q ((queues s)(q := bq)) = queue_weight wt q bq + queues_total wt (Q - {q}) (queues s)" if "q \<in> Q" for q bq
    using queues_total_split[OF assms(4) that, of wt "(queues s)(q := bq)"] by simp
  have Q0: "queues_total wt Q (queues s) = queue_weight wt q (queues s q) + queues_total wt (Q - {q}) (queues s)" if "q \<in> Q" for q
    using queues_total_split[OF assms(4) that] .
  have unmoved: "undisturbed D Q T s1"
    if "procs s i = Some p" "procs s1 = (procs s)(i \<mapsto> p')" "queues s1 = queues s" "good i p'" "val i p' = val i p"
      "bq_queue (aborts s1 abq) = []" for s1 p p'
  proof -
    have i: "i \<in> D" using that(1) s(1) by auto
    have "total val wt D Q s1 = total val wt D Q s" unfolding total_def that(2,3) P[OF i] P0[OF that(1) i] that(5) ..
    then show ?thesis using keep[OF that(2,4) i that(6)] s(4,5) that(3) by simp
  qed
  have moved: "undisturbed D Q T s1"
    if "procs s i = Some p" "procs s1 = (procs s)(i \<mapsto> p')" "queues s1 = (queues s)(q := bq)" "good i p'" "aborts s1 = aborts s"
      "q \<in> Q" "\<forall>v\<in>set (bq_queue bq). fits wt q v" "val i p' + queue_weight wt q bq = val i p + queue_weight wt q (queues s q)" for s1 p p' q bq
  proof -
    have i: "i \<in> D" using that(1) s(1) by auto
    have regroup: "x + a + (y + b) = x + y + (a + b)" for x y a b :: 'a by (simp add: ac_simps)
    have "total val wt D Q s1 = total val wt D Q s"
      unfolding total_def that(2,3) P[OF i] P0[OF that(1) i] Q[OF that(6)] Q0[OF that(6)] regroup that(8) ..
    then show ?thesis using keep[OF that(2,4) i] that(3,5,7) s(3-5) by simp
  qed
  from assms(1) show ?thesis
  proof cases
    case (start p now)
    have "good i p" using start(2) s(2) by blast
    from start_passes[OF this start(3), of now] show ?thesis
      unfolding start(1) using s(3) by (intro unmoved[OF start(2), where p' = "res now AnsGo p"]) auto
  next
    case (pop p q v bq now)
    have i: "good i p" "q \<in> Q" using pop(2,3) s(2) assms(5) by blast+
    have "bq_queue (queues s q) = v # bq_queue bq" using bq.pop_takes[OF pop(4)] by simp
    moreover from this have "fits wt q v" "\<forall>v\<in>set (bq_queue bq). fits wt q v" using s(5) i(2) by auto
    ultimately show ?thesis
      unfolding pop(1) using pop_passes[OF i(1) pop(3), of v now] i(2) by (intro moved[OF pop(2), where p' = "res now (AnsPop v) p" and q = q and bq = bq])
        (auto simp: queue_weight_def ac_simps)
  next
    case (push p q v bq now)
    have i: "good i p" "q \<in> Q" using push(2,3) s(2) assms(5) by blast+
    have "bq_queue bq = bq_queue (queues s q) @ [v]" using bq.push_appends[OF push(4)] by simp
    then show ?thesis
      unfolding push(1) using push_passes[OF i(1) push(3), of now] i(2) s(5) by (intro moved[OF push(2), where p' = "res now AnsGo p" and q = q and bq = bq])
        (auto simp: queue_weight_def ac_simps)
  next
    case (abort_pop p a r bq now)
    have "good i p" using abort_pop(2) s(2) by blast
    note p' = abort_passes[OF this abort_pop(3), of now]
    then have "r = None" "bq_queue bq = []"
      using abort_pop(4) s(3) by (auto simp: BoundedQueue_TryPop_def)
    then show ?thesis unfolding abort_pop(1) using p' by (intro unmoved[OF abort_pop(2), where p' = "res now (AnsTry False) p"]) auto
  next
    case (abort_push p a b bq now)
    then show ?thesis using no_notify s(2) by blast
  qed
qed

lemma run_passes:
  assumes "net_alone pend res s0 s" "undisturbed D Q T s0" "finite D" "finite Q"
    "\<And>s i p q v. net_alone pend res s0 s \<Longrightarrow> undisturbed D Q T s \<Longrightarrow> procs s i = Some p \<Longrightarrow>
      pend p = ReqPop q \<or> pend p = ReqPush q v \<Longrightarrow> q \<in> Q"
  shows "undisturbed D Q T s"
  using assms(1)
proof (induction rule: net_alone.induct)
  case (step s i s')
  then show ?case using step_passes[OF step(2,3) assms(3,4)] assms(5)[OF step(1,3)] by blast
qed (rule assms(2))

end

end
