(* ===== verification/Flow.thy ===== *)
theory Flow
  imports Pipeline_Ends Net_Flow
begin

text \<open>
  Conservation of data by the processors. A ledger assigns to the state of a node what it is worth, while the
  node works and after it has ended. If the code of the user never throws and
  every body of \<^verbatim>\<open>work()\<close> keeps or sends exactly what it was worth together with what it popped,
  then a pipeline whose abort channel nobody else uses runs without a failure, and what its nodes
  are worth at the end is what they were worth at the start.
\<close>

declare pending.simps [simp del] resume.simps [simp del] get_chan.simps [simp del] upd_chan.simps [simp del]

section \<open>Ledgers\<close>

record ('v, 's, 'a) ledger =
  working_worth :: "('v, 's) node_class \<Rightarrow> 'a"
  ended_worth :: "('v, 's) node_class \<Rightarrow> 'a"
  port_of :: "chan_ref \<Rightarrow> nat option"
  classes :: "('v, 's) node_class set"

definition port_weight :: "(nat \<Rightarrow> 'v \<Rightarrow> 'a :: comm_monoid_add option) \<Rightarrow> ('v, 's, 'a) ledger \<Rightarrow> 'v option \<Rightarrow> chan_ref \<Rightarrow> 'a" where
  "port_weight wt L v r = (case port_of L r of None \<Rightarrow> 0 | Some q \<Rightarrow> weigh wt q v)"

definition port_fits :: "(nat \<Rightarrow> 'v \<Rightarrow> 'a option) \<Rightarrow> ('v, 's, 'a) ledger \<Rightarrow> 'v option \<Rightarrow> chan_ref \<Rightarrow> bool" where
  "port_fits wt L v r = (case port_of L r of None \<Rightarrow> True | Some q \<Rightarrow> fits wt q v)"

definition cmds_fit :: "(nat \<Rightarrow> 'v \<Rightarrow> 'a option) \<Rightarrow> ('v, 's, 'a) ledger \<Rightarrow> 'v cmd list \<Rightarrow> bool" where
  "cmds_fit wt L cs \<longleftrightarrow> (\<forall>v r. CPush v r \<in> set cs \<longrightarrow> port_fits wt L v r)"

fun cmds_weight :: "(nat \<Rightarrow> 'v \<Rightarrow> 'a :: comm_monoid_add option) \<Rightarrow> ('v, 's, 'a) ledger \<Rightarrow> 'v cmd list \<Rightarrow> 'a" where
  "cmds_weight wt L [] = 0"
| "cmds_weight wt L (CPush v r # cs) = port_weight wt L v r + cmds_weight wt L cs"
| "cmds_weight wt L (_ # cs) = cmds_weight wt L cs"

text \<open>A node that is about to return has only what it keeps after its end, and what it still sends.\<close>

definition body_worth :: "(nat \<Rightarrow> 'v \<Rightarrow> 'a :: comm_monoid_add option) \<Rightarrow> ('v, 's, 'a) ledger \<Rightarrow>
    'v cmd list \<Rightarrow> ('v, 's) node_class \<Rightarrow> 'a" where
  "body_worth wt L cs c = (if CReturn \<in> set cs then ended_worth L c else working_worth L c) + cmds_weight wt L cs"

definition worth :: "(nat \<Rightarrow> 'v \<Rightarrow> 'a :: comm_monoid_add option) \<Rightarrow> ('v, 's, 'a) ledger \<Rightarrow> ('v, 's) processor \<Rightarrow> 'a" where
  "worth wt L p =
     (case pc p of
        PopAbortWait r k v sr \<Rightarrow> working_worth L (node_class p) + port_weight wt L v r
      | PushWait v r cs \<Rightarrow> body_worth wt L (CPush v r # cs) (node_class p)
      | PushAbortWait cs \<Rightarrow> body_worth wt L cs (node_class p)
      | AfterWorkWait \<Rightarrow> ended_worth L (node_class p)
      | Finished e \<Rightarrow> ended_worth L (node_class p)
      | _ \<Rightarrow> working_worth L (node_class p))"

fun settles :: "(nat \<Rightarrow> 'v \<Rightarrow> 'a :: comm_monoid_add option) \<Rightarrow> ('v, 's, 'a) ledger \<Rightarrow> ('v, 's) body \<Rightarrow> 'a \<Rightarrow> bool" where
  "settles wt L (Inl e, c) T = False"
| "settles wt L (Inr cs, c) T = (c \<in> classes L \<and> cmds_fit wt L cs \<and> body_worth wt L cs c = T)"

text \<open>The user code of the classes never throws, and the bodies of \<^verbatim>\<open>work()\<close> conserve.\<close>

definition conserving :: "(nat \<Rightarrow> 'v \<Rightarrow> 'a :: comm_monoid_add option) \<Rightarrow> ('v, 's, 'a) ledger \<Rightarrow> bool" where
  "conserving wt L \<longleftrightarrow> (\<forall>c \<in> classes L.
     (kind_of c = KMulti 0 \<longrightarrow> ended_worth L c = working_worth L c) \<and>
     (kind_of c = KSource \<longrightarrow> settles wt L (Source_generate c) (working_worth L c)) \<and>
     (\<forall>r \<in> set (in_refs (kind_of c)). \<forall>v.
        port_fits wt L v r \<longrightarrow> settles wt L (work_popped c r v) (working_worth L c + port_weight wt L v r)))"

section \<open>Undisturbed nodes\<close>

fun quiet :: "(nat \<Rightarrow> 'v \<Rightarrow> 'a option) \<Rightarrow> ('v, 's, 'a) ledger \<Rightarrow> 'v pc \<Rightarrow> bool" where
  "quiet wt L Created = True"
| "quiet wt L (PopWait r k) = True"
| "quiet wt L (PopAbortWait r k v sr) = port_fits wt L v r"
| "quiet wt L (PushWait v r cs) = cmds_fit wt L (CPush v r # cs)"
| "quiet wt L (PushAbortWait cs) = cmds_fit wt L cs"
| "quiet wt L AfterWorkWait = True"
| "quiet wt L (Finished e) = (e = None)"
| "quiet wt L _ = False"

definition listed :: "('v, 's, 'a) ledger \<Rightarrow> nat \<Rightarrow> ('v, 's) processor \<Rightarrow> bool" where
  "listed L a p \<longleftrightarrow> ch_queue (abort_port p) \<in> {None, Some a} \<and> node_class p \<in> classes L \<and>
     (\<forall>r q. chan_queue p r = Some q \<longrightarrow> port_of L r = Some q)"

definition steady :: "(nat \<Rightarrow> 'v \<Rightarrow> 'a option) \<Rightarrow> ('v, 's, 'a) ledger \<Rightarrow> nat \<Rightarrow> ('v, 's) processor \<Rightarrow> bool" where
  "steady wt L a p \<longleftrightarrow> proc_inv p \<and> listed L a p \<and> quiet wt L (pc p)"

definition comes_to :: "(nat \<Rightarrow> 'v \<Rightarrow> 'a :: comm_monoid_add option) \<Rightarrow> ('v, 's, 'a) ledger \<Rightarrow> nat \<Rightarrow>
    ('v, 's) processor \<Rightarrow> 'a \<Rightarrow> bool" where
  "comes_to wt L a p T \<longleftrightarrow> steady wt L a p \<and> worth wt L p = T"

lemma listed_frame [simp]:
  "listed L a (p\<lparr>pc := x\<rparr>) = listed L a p"
  "listed L a (p\<lparr>event_collector := ec\<rparr>) = listed L a p"
  "listed L a (p\<lparr>input_count := n\<rparr>) = listed L a p"
  by (simp_all add: listed_def)

lemma listed_reset: "listed L a p \<Longrightarrow> listed L a (upd_chan chan_reset r p)"
  by (auto simp: listed_def split: if_splits)

lemma listed_GetChannel: "GetChannel r p = Inr p' \<Longrightarrow> listed L a p \<Longrightarrow> listed L a p'"
  using GetChannel_frame[of r p p'] by (simp add: listed_def)

lemma steadyI:
  assumes "owes p R W" "listed L a p" "quiet wt L (pc p)"
  shows "steady wt L a p"
  using assms by (auto simp: steady_def owes_def bad_def)

section \<open>The coroutine\<close>

lemma after_work_cases:
  assumes "pkind p = KChannelSink \<Longrightarrow> outs_open p"
  shows "after_work now p = work_end_ok now p \<or> after_work now p = p\<lparr>pc := AfterWorkWait\<rparr>"
proof (cases "node_class p")
  case ChannelSinkC
  then have "chan_bool (output_port p)" using assms by (auto simp: outs_open_def chan_bool_def get_chan.simps)
  then show ?thesis using ChannelSinkC by (simp add: after_work_defs)
qed (auto simp: after_work_def)

lemma generate_settles:
  assumes "conserving wt L" "c \<in> classes L" "kind_of c = KSource \<or> kind_of c = KChannelSource"
  shows "settles wt L (Source_generate c) (working_worth L c)"
proof (cases "kind_of c = KSource")
  case False
  then have "c = ChannelSourceC" using assms(3) by (cases c) simp_all
  then show ?thesis using assms(2) by (simp add: cmds_fit_def body_worth_def)
qed (use assms in \<open>auto simp: conserving_def\<close>)

lemma exec_simple_comes:
  assumes "shape p" "cmds_ok p cs" "cs \<noteq> [CGenerate]" "listed L a p" "conserving wt L" "cmds_fit wt L cs"
  shows "comes_to wt L a (exec_simple now cs p) (body_worth wt L cs (node_class p))"
proof -
  let ?p = "exec_simple now cs p"
  note owed = exec_simple_owes[OF assms(1-3), of now]
  have "listed L a ?p \<and> quiet wt L (pc ?p) \<and> worth wt L ?p = body_worth wt L cs (node_class p)"
  proof (cases "(p, cs)" rule: cmds_ok.cases)
    case (1 p' r)
    then have r: "pop_ready p r" "cs = [CPop r]" using assms(2) by auto
    then obtain p'' where p'': "GetChannel r p = Inr p''"
      using GetChannel_in_range[OF assms(1), of r] by (auto simp: pop_ready_def)
    have "?p = p''\<lparr>pc := PopWait r (pop_count (node_class p))\<rparr>"
      using r p'' pop_ready_open[OF assms(1) r(1)] GetChannel_frame(1)[OF p'', of r]
      by (auto simp: exec_simple_def await_pop_def chan_bool_def)
    then show ?thesis
      using listed_GetChannel[OF p'' assms(4)] GetChannel_frame(4)[OF p''] r(2) by (simp add: worth_def body_worth_def)
  next
    case (4 p' v r cs')
    then have r: "is_open p r" "r \<in> set (out_refs (pkind p))" "cs = CPush v r # cs'" using assms(2) by auto
    then obtain p'' where p'': "GetChannel r p = Inr p''"
      using GetChannel_in_range[OF assms(1), of r] by auto
    have "?p = p''\<lparr>pc := PushWait v r cs'\<rparr>"
      using r p'' GetChannel_frame(1)[OF p'', of r]
      by (auto simp: exec_simple_def await_push_def chan_bool_def)
    then show ?thesis
      using listed_GetChannel[OF p'' assms(4)] GetChannel_frame(4)[OF p''] r(3) assms(6) by (simp add: worth_def)
  next
    case (3 p')
    then have "?p = work_end_ok now p \<or> ?p = p\<lparr>pc := AfterWorkWait\<rparr>"
      using assms(2) after_work_cases[of p now] by (auto simp: exec_simple_def split: if_splits)
    then show ?thesis using assms(4) 3 by (auto simp: work_end_ok_def worth_def body_worth_def)
  qed (use assms in auto)
  then show ?thesis using steadyI[OF owed, of L a wt] by (simp add: comes_to_def)
qed

lemma exec_body_comes:
  assumes "shape p" "kind_of (snd b) = pkind p" "\<And>cs. fst b = Inr cs \<Longrightarrow> cmds_ok p cs \<and> cs \<noteq> [CGenerate]"
    "listed L a p" "conserving wt L" "settles wt L b T"
  shows "comes_to wt L a (exec_body now b p) T"
proof -
  obtain cs c where b: "b = (Inr cs, c)" "c \<in> classes L" "T = body_worth wt L cs c" "cmds_fit wt L cs"
    using assms(6) by (cases b; cases "fst b") auto
  let ?p = "p\<lparr>node_class := c\<rparr>"
  have sp: "same_ports p ?p" using assms(2) b(1) by simp
  have "listed L a ?p" using assms(4) b(2) by (simp add: listed_def)
  then show ?thesis
    using exec_simple_comes[of ?p cs L a wt now] assms(1,5) assms(3)[of cs] b
    by (simp add: exec_body_def same_ports_checks[OF sp] same_ports_cmds_ok[OF sp])
qed

lemma exec_cmds_comes:
  assumes "shape p" "cmds_ok p cs" "listed L a p" "conserving wt L" "cmds_fit wt L cs"
  shows "comes_to wt L a (exec_cmds now cs p) (body_worth wt L cs (node_class p))"
proof (cases "\<exists>cs'. cs = CGenerate # cs'")
  case True
  then have cs: "cs = [CGenerate]" using assms(2) by (cases "(p, cs)" rule: cmds_ok.cases) auto
  then have "settles wt L (Source_generate (node_class p)) (working_worth L (node_class p))"
    using assms(2-4) by (intro generate_settles) (auto simp: listed_def)
  then have "comes_to wt L a (exec_body now (Source_generate (node_class p)) p) (working_worth L (node_class p))"
    using assms cs Source_generate_ok[of p] by (intro exec_body_comes) (auto simp: kind_Source_generate)
  then show ?thesis using cs by (simp add: exec_cmds_def body_worth_def)
next
  case False
  then have "exec_cmds now cs p = exec_simple now cs p"
    by (auto simp: exec_cmds_def split: list.splits cmd.splits)
  with False assms show ?thesis by (auto intro: exec_simple_comes)
qed

lemma settles_popped:
  assumes "listed L a p" "conserving wt L" "r \<in> set (in_refs (pkind p))" "port_fits wt L v r"
  shows "settles wt L (work_popped (node_class p) r v) (working_worth L (node_class p) + port_weight wt L v r)"
  using assms by (auto simp: conserving_def listed_def)

lemma pop_return_Some_comes:
  assumes "shape p" "pop_ready p r" "listed L a p" "conserving wt L" "port_fits wt L (Some x) r"
  shows "comes_to wt L a (pop_return now r (Some x) p) (working_worth L (node_class p) + port_weight wt L (Some x) r)"
  unfolding pop_return_def
  using assms settles_popped[OF assms(3,4), of r "Some x"]
  by (intro exec_body_comes)
    (auto simp: kind_work_popped pop_ready_def dest: work_popped_no_generate work_popped_Some_ok[OF assms(2,1)])

lemma port_None [simp]: "port_weight wt L None r = 0" "port_fits wt L None r"
  by (simp_all add: port_weight_def port_fits_def weigh_def fits_def split: option.splits)

lemma pop_return_None_comes:
  assumes "shape (upd_chan chan_reset r p)" "pop_ready p r" "listed L a p" "conserving wt L"
  shows "comes_to wt L a (pop_return now r None (upd_chan chan_reset r p)) (working_worth L (node_class p))"
  unfolding pop_return_def
  using assms settles_popped[OF assms(3,4), of r None] listed_reset[OF assms(3), of r]
  by (intro exec_body_comes)
    (auto simp: kind_work_popped pop_ready_def dest: work_popped_no_generate work_popped_None_ok[OF assms(2,1)])

lemma pop_checked_comes:
  assumes "shape p" "pop_ready p r" "k = pop_count (node_class p)" "sr = (v \<noteq> None)" "listed L a p" "conserving wt L"
    "port_fits wt L v r"
  shows "comes_to wt L a (pop_checked now r k v sr p) (working_worth L (node_class p) + port_weight wt L v r)"
proof (cases v)
  case None
  have "await_pop r k p = p\<lparr>pc := PopWait r k\<rparr>"
    using pop_ready_open[OF assms(1,2)] by (auto simp: await_pop_def chan_bool_def)
  moreover have "steady wt L a (await_pop r k p)"
    using calculation assms(5) by (intro steadyI[OF await_pop_owes[OF assms(1-3)]]) simp_all
  ultimately show ?thesis using None assms(4) by (simp add: pop_checked_def comes_to_def worth_def)
qed (use assms pop_return_Some_comes in \<open>auto simp: pop_checked_def\<close>)

lemma dec_count_frame:
  assumes "dec_count k p = (k', p2)"
  shows "listed L a p2 = listed L a p" "node_class p2 = node_class p" "pop_ready p2 r = pop_ready p r"
  using assms by (cases k; auto simp: pop_ready_def outs_open_def split: chan_ref.splits)+

lemma dec_count_stays:
  assumes "dec_count k p = (k', p2)" "k = pop_count (node_class p)" "read_count p2 k' \<noteq> 0"
  shows "k' = pop_count (node_class p2)"
  using assms by (cases k) (auto simp: pop_count_kind split: kind.splits)

text \<open>With and without an abort channel: the check for an abort finds nothing.\<close>

lemma check_abort_comes:
  assumes "comes_to wt L a (f p) T" "listed L a p" "quiet wt L x"
    "chan_bool (abort_port p) \<Longrightarrow> proc_inv (p\<lparr>pc := x\<rparr>)" "worth wt L (p\<lparr>pc := x\<rparr>) = T"
  shows "comes_to wt L a (check_abort x f p) T"
  using assms by (simp add: check_abort_def comes_to_def steady_def)

lemma pop_loop_comes:
  assumes "shape p" "pop_ready p r" "k = pop_count (node_class p)" "sr = (v \<noteq> None)" "listed L a p" "conserving wt L"
    "port_fits wt L v r"
  shows "comes_to wt L a (check_abort (PopAbortWait r k v sr) (pop_checked now r k v sr) p)
    (working_worth L (node_class p) + port_weight wt L v r)"
  using assms by (intro check_abort_comes pop_checked_comes) (simp_all add: proc_inv_def worth_def)

lemma pop_got_comes:
  assumes "shape p" "pop_ready p r" "k = pop_count (node_class p)" "listed L a p" "conserving wt L"
    "port_fits wt L v r"
  shows "comes_to wt L a (pop_got now r k v p) (working_worth L (node_class p) + port_weight wt L v r)"
proof -
  let ?p = "read_event now r v p"
  have sp: "same_ports p ?p" by simp
  obtain q where q: "chan_queue p r = Some q" using pop_ready_open[OF assms(1,2)] by auto
  obtain k' p2 where d: "dec_count k ?p = (k', p2)" by force
  have rdy: "shape ?p" "pop_ready ?p r" "k = pop_count (node_class ?p)" "listed L a ?p"
    using assms same_ports_checks[OF sp] by simp_all
  note D = dec_count_shape[OF rdy(1-3) d] and F = dec_count_frame[OF d]
  have pos: "read_count ?p k \<noteq> 0"
    by (rule pop_ready_refs[OF assms(1,2)]) (use assms(1,3) q in \<open>auto simp: shape_def\<close>)
  show ?thesis
  proof (cases v)
    case (Some x)
    then show ?thesis
      using pop_loop_comes[OF rdy(1-3) _ rdy(4) assms(5,6), of True now] by (simp add: pop_got_def)
  next
    case None
    show ?thesis
    proof (cases "read_count p2 k' = 0")
      case True
      then have "pop_got now r k v p = pop_return now r None (upd_chan chan_reset r p2)"
        using None pos d by (simp add: pop_got_def Let_def)
      then show ?thesis
        using pop_return_None_comes[OF D(1), of L a wt now] F(1)[of L a] F(2,3) assms(4,5) rdy(2) None by simp
    next
      case False
      then have "pop_got now r k v p = check_abort (PopAbortWait r k' None False) (pop_checked now r k' None False) p2"
        using None pos d by (simp add: pop_got_def Let_def)
      then show ?thesis
        using pop_loop_comes[OF D(2)[OF False], of r k' False None L a wt now] F(1)[of L a] F(2,3) dec_count_stays[OF d rdy(3) False]
          assms(4,5) rdy(2) None by simp
    qed
  qed
qed

lemma push_done_comes:
  assumes "shape p" "cmds_ok p (CPush v r # cs)" "listed L a p" "conserving wt L" "cmds_fit wt L cs"
  shows "comes_to wt L a (push_done now v r cs p) (body_worth wt L cs (node_class p))"
proof -
  let ?p1 = "p\<lparr>event_collector := OutputPortWrite now (GetIndex (get_chan p r))
      (transferred_bytes (traits p) v) (v = None) (event_collector p)\<rparr>"
  let ?p2 = "if v = None then upd_chan chan_reset r ?p1 else ?p1"
  have sp: "same_ports (if v = None then upd_chan chan_reset r p else p) ?p2" by (simp add: same_ports_reset)
  have p2: "shape ?p2" "cmds_ok ?p2 cs" "listed L a ?p2" "node_class ?p2 = node_class p"
    using assms(1-3) same_ports_cmds_ok[OF sp, of cs] by (simp_all add: shape_reset listed_reset)
  have "comes_to wt L a (check_abort (PushAbortWait cs) (exec_cmds now cs) ?p2) (body_worth wt L cs (node_class ?p2))"
    using exec_cmds_comes[OF p2(1-3) assms(4,5), of now] p2(1-3) assms(5)
    by (intro check_abort_comes) (simp_all add: proc_inv_def worth_def)
  then show ?thesis by (simp only: push_done_def Let_def p2(4))
qed

section \<open>The contract of the network\<close>

lemma start_comes:
  assumes "steady wt L a p" "pc p = Created" "conserving wt L"
  shows "comes_to wt L a (resume now AnsGo p) (worth wt L p)"
proof -
  have p: "shape p" "ins_open p" "outs_open p" using assms by (auto simp: proc_inv_def steady_def)
  have l: "listed L a p" using assms(1) by (simp add: steady_def)
  obtain cs where cs: "work (node_class p) = Inr cs" using work_not_base[OF p(1)] by auto
  let ?p = "p\<lparr>event_collector := WorkStart now (event_collector p)\<rparr>"
  have fit: "cmds_fit wt L cs" using cs by (cases "node_class p") (auto simp: cmds_fit_def Concat_from_def split: if_splits)
  have "comes_to wt L a (exec_cmds now cs ?p) (body_worth wt L cs (node_class ?p))"
    using p work_ok[OF p cs] assms(3) l fit by (intro exec_cmds_comes) simp_all
  moreover have "body_worth wt L cs (node_class p) = working_worth L (node_class p)"
    using cs l assms(3) by (cases "node_class p")
      (auto simp: body_worth_def Concat_from_def listed_def conserving_def split: if_splits)
  ultimately show ?thesis
    using assms(2) cs before_work_ok[OF p] by (simp add: resume.simps start_work_def Let_def worth_def)
qed

lemma pop_comes:
  assumes "steady wt L a p" "pending p = ReqPop q" "conserving wt L" "fits wt q v"
  shows "comes_to wt L a (resume now (AnsPop v) p) (worth wt L p + weigh wt q v)"
proof -
  obtain r k where r: "pc p = PopWait r k" "chan_queue p r = Some q"
    using assms(1,2) unfolding pending_Pop by (auto simp: steady_def)
  have l: "listed L a p" "proc_inv p" using assms(1) by (simp_all add: steady_def)
  have "port_weight wt L v r = weigh wt q v" "port_fits wt L v r"
    using l r assms(4) by (simp_all add: port_weight_def port_fits_def listed_def)
  then show ?thesis
    using pop_got_comes[of p r k L a wt v now] l r(1) assms(3) by (simp add: resume.simps proc_inv_def worth_def)
qed

lemma push_comes:
  assumes "steady wt L a p" "pending p = ReqPush q v" "conserving wt L"
  shows "fits wt q v \<and> steady wt L a (resume now AnsGo p) \<and> worth wt L p = worth wt L (resume now AnsGo p) + weigh wt q v"
proof -
  have l: "listed L a p" "proc_inv p" using assms(1) by (simp_all add: steady_def)
  consider (work) r cs where "pc p = PushWait v r cs" "chan_queue p r = Some q" | (after) "pc p = AfterWorkWait" "v = None"
    using assms(1,2) unfolding pending_Push by (auto simp: steady_def)
  then show ?thesis
  proof cases
    case (work r cs)
    have "cmds_fit wt L (CPush v r # cs)" using assms(1) work(1) by (simp add: steady_def)
    then have "port_weight wt L v r = weigh wt q v" "fits wt q v" "cmds_fit wt L cs"
      using l work by (auto simp: port_weight_def port_fits_def listed_def cmds_fit_def)
    moreover from this have "worth wt L p = body_worth wt L cs (node_class p) + weigh wt q v"
      using work(1) by (simp add: worth_def body_worth_def ac_simps)
    ultimately show ?thesis
      using push_done_comes[of p v r cs L a wt now] l work(1) assms(3) by (simp add: resume.simps proc_inv_def comes_to_def)
  next
    case after
    then show ?thesis using l by (simp add: resume.simps work_end_ok_def steady_def worth_def proc_inv_def)
  qed
qed

lemma abort_pop_comes:
  assumes "steady wt L a p" "pending p = ReqAbortPop b" "conserving wt L"
  shows "b = a \<and> comes_to wt L a (resume now (AnsTry False) p) (worth wt L p)"
proof -
  have l: "listed L a p" "proc_inv p" using assms(1) by (simp_all add: steady_def)
  from assms(2) show ?thesis
  proof (cases rule: pending_AbortPop)
    case (1 r k v sr)
    moreover from this have "port_fits wt L v r" using assms(1) by (simp add: steady_def)
    ultimately show ?thesis using assms(2,3) l pop_checked_comes[of p r k sr v L a wt now]
      by (auto simp: resume.simps proc_inv_def worth_def pending.simps on_queue_def listed_def)
  next
    case (2 cs)
    moreover from this have "cmds_fit wt L cs" using assms(1) by (simp add: steady_def)
    ultimately show ?thesis using assms(2,3) l exec_cmds_comes[of p cs L a wt now]
      by (auto simp: resume.simps proc_inv_def worth_def pending.simps on_queue_def listed_def)
  qed
qed

interpretation fl: passing_on pending resume "\<lambda>i p. conserving wt (L i) \<and> steady wt (L i) a p" "\<lambda>i. worth wt (L i)" wt a
  for wt L a
proof
  fix i p now q v b
  assume g: "conserving wt (L i) \<and> steady wt (L i) a p"
  show "(conserving wt (L i) \<and> steady wt (L i) a (resume now AnsGo p)) \<and> worth wt (L i) (resume now AnsGo p) = worth wt (L i) p"
    if "pending p = ReqStart"
    using start_comes[of wt "L i" a p now] g that by (simp add: pending_Start comes_to_def)
  show "(conserving wt (L i) \<and> steady wt (L i) a (resume now (AnsPop v) p)) \<and>
      worth wt (L i) (resume now (AnsPop v) p) = worth wt (L i) p + weigh wt q v" if "pending p = ReqPop q" "fits wt q v"
    using pop_comes[of wt "L i" a p q v now] g that by (simp add: comes_to_def)
  show "fits wt q v \<and> (conserving wt (L i) \<and> steady wt (L i) a (resume now AnsGo p)) \<and>
      worth wt (L i) p = worth wt (L i) (resume now AnsGo p) + weigh wt q v" if "pending p = ReqPush q v"
    using push_comes[of wt "L i" a p q v now] g that by simp
  show "b = a \<and> (conserving wt (L i) \<and> steady wt (L i) a (resume now (AnsTry False) p)) \<and>
      worth wt (L i) (resume now (AnsTry False) p) = worth wt (L i) p" if "pending p = ReqAbortPop b"
    using abort_pop_comes[of wt "L i" a p b now] g that by (simp add: comes_to_def)
  show "pending p \<noteq> ReqAbortPush b"
    using g by (auto elim!: pending_AbortPush simp: steady_def)
qed

section \<open>Undisturbed networks of processors\<close>

lemma undisturbed_node:
  "fl.undisturbed wt L a D Q T s \<Longrightarrow> procs s i = Some p \<Longrightarrow> steady wt (L i) a p"
  by (auto simp: fl.undisturbed_def)

lemma undisturbed_not_lost:
  assumes "fl.undisturbed wt L a D Q T s"
  shows "\<not> co.some_lost s"
proof -
  have "\<not> bad p" if "procs s i = Some p" for i p
    using undisturbed_node[OF assms that] by (auto simp: steady_def bad_def)
  then show ?thesis by (auto simp: co.some_lost_def)
qed

text \<open>As nothing is lost, the books of the EOFs stay in order as well.\<close>

lemma net_undisturbed:
  assumes alone: "net_alone pending resume s0 s" and start: "fl.undisturbed wt L a D Q T s0" "co.net_ok D rd wr cap s0"
    and fin: "finite D" "finite Q" and used: "\<And>i. rd i \<union> wr i \<subseteq> Q"
  shows "fl.undisturbed wt L a D Q T s" "co.net_ok D rd wr cap s" "co.tail_ok s0 \<Longrightarrow> co.tail_ok s"
proof -
  have ok: "co.net_ok D rd wr cap s" if "net_alone pending resume s0 s" "fl.undisturbed wt L a D Q T s" for s
    using co.net_reach_ok[OF net_alone_reach[OF that(1)] start(2) fin(1)] undisturbed_not_lost[OF that(2)] by blast
  have "q \<in> Q"
    if run: "net_alone pending resume s0 s" "fl.undisturbed wt L a D Q T s"
      and p: "procs s i = Some p" "pending p = ReqPop q \<or> pending p = ReqPush q v" for s i p q v
  proof -
    note s = ok[OF run, unfolded co.net_ok_def]
    have "0 < to_read p q \<or> 0 < to_write p q"
      using s p pop_is_owed[of p q] push_is_owed[of p q v] by auto
    then have "0 < co.reads_of s q i \<or> 0 < co.writes_of s q i"
      using p(1) by (simp add: co.reads_of_def co.writes_of_def)
    then have "q \<in> rd i \<union> wr i" using s by blast
    then show ?thesis using used by blast
  qed
  then show und: "fl.undisturbed wt L a D Q T s"
    using fl.run_passes[OF alone start(1) fin] by blast
  show "co.net_ok D rd wr cap s" by (rule ok[OF alone und])
  show "co.tail_ok s" if "co.tail_ok s0"
    using co.net_reach_tail[OF net_alone_reach[OF alone] start(2) fin(1) that] undisturbed_not_lost[OF und] by blast
qed

text \<open>A network that has ended undisturbed has ended well, and its queues are empty.\<close>

lemma undisturbed_ended:
  assumes "fl.undisturbed wt L a D Q T s" "co.net_ok D rd wr cap s" "co.tail_ok s" "all_ended pending s"
  shows "procs s i = Some p \<Longrightarrow> pc p = Finished None" "bq_queue (queues s q) = []"
    "(\<Sum>i\<in>D. ended_worth (L i) (node_class (the (procs s i)))) = T"
proof -
  have ended: "pc p = Finished None" if "procs s i = Some p" for i p
  proof -
    have "pending p = ReqNone" using assms(4) that by (auto simp: all_ended_def)
    then show ?thesis using undisturbed_node[OF assms(1) that] by (auto elim!: pending_None simp: steady_def)
  qed
  then show "procs s i = Some p \<Longrightarrow> pc p = Finished None" by blast
  have empty: "bq_queue (queues s q) = []" for q by (rule co.ended_drained[OF assms(2-4)])
  then show "bq_queue (queues s q) = []" .
  have dom: "dom (procs s) = D" using assms(1) by (simp add: fl.undisturbed_def)
  have "procs_total (\<lambda>i. worth wt (L i)) D (procs s) = (\<Sum>i\<in>D. ended_worth (L i) (node_class (the (procs s i))))"
    unfolding procs_total_def dom[symmetric] by (rule sum.cong) (auto simp: worth_def ended)
  then show "(\<Sum>i\<in>D. ended_worth (L i) (node_class (the (procs s i)))) = T"
    using assms(1) empty by (simp add: fl.undisturbed_def total_def queues_total_def queue_weight_def)
qed

end
