(* ===== verification/Pipeline_Flow.thy ===== *)
theory Pipeline_Flow
  imports Flow
begin

text \<open>
  Data in whole pipelines: what the nodes hold and what is in the queues together is always what
  the sources started with, and a pipeline whose user code does not throw never fails by itself.
\<close>

declare pending.simps [simp del] resume.simps [simp del] get_chan.simps [simp del] upd_chan.simps [simp del]

lemma sched_alone:
  assumes "sched pend res is s = Some s'" "net_alone pend res s0 s"
  shows "net_alone pend res s0 s'"
  using assms
proof (induction "is" arbitrary: s)
  case (Cons i "is")
  then show ?case by (auto split: option.splits intro: net_alone.step sched_step_sound)
qed simp

section \<open>Pipelines with a ledger for every node\<close>

definition accounted :: "(nat \<Rightarrow> 'v \<Rightarrow> 'a :: comm_monoid_add option) \<Rightarrow> (nat \<Rightarrow> ('v, 's, 'a) ledger) \<Rightarrow>
    ('v, 's) pipeline \<Rightarrow> bool" where
  "accounted wt L P \<longleftrightarrow> (\<forall>i p. nodes P i = Some p \<longrightarrow>
     conserving wt (L i) \<and> node_class p \<in> classes (L i) \<and> (\<forall>r. port_of (L i) r = chan_queue p r))"

lemma Run_own_channel:
  assumes "Run ex garbage w P = Returned s0" "\<not> chan_bool (abort_channel P)"
  shows "procs s0 = Run_bind \<lparr>ch_queue = Some (next_queue (aheap w)), ch_index = garbage\<rparr> P"
    "queues s0 = queue_at (wheap w)" "bq_queue (aborts s0 (next_queue (aheap w))) = []"
  using assms
  by (auto simp: Run_def Run_abort_channel_def Channel_sized_def make_queue_def Let_def BoundedQueue_def
      split: if_splits)

lemma start_undisturbed:
  assumes inv: "pipe_inv w P" and run: "Run ex garbage w P = Returned s0"
    and own: "\<not> chan_bool (abort_channel P)" and acc: "accounted wt L P"
  shows "fl.undisturbed wt L (next_queue (aheap w)) (dom (nodes P)) {..<next_queue (wheap w)}
    (\<Sum>i\<in>dom (nodes P). working_worth (L i) (node_class (the (nodes P i)))) s0"
proof -
  note s0 = Run_own_channel[OF run own]
  note ok = Run_net_ok[OF inv run, unfolded co.net_ok_def]
  have stored: "pc p = Created \<and> ch_queue (abort_port p) = None" if "nodes P i = Some p" for i p
    using that inv by (auto simp: pipe_inv_def node_ok_def)
  have node: "conserving wt (L i) \<and> steady wt (L i) (next_queue (aheap w)) p \<and>
      worth wt (L i) p = working_worth (L i) (node_class (the (nodes P i)))" if ip: "procs s0 i = Some p" for i p
  proof -
    obtain p0 where p0: "nodes P i = Some p0"
      "p = (if bind_abort_channel P
        then BindAbortChannel \<lparr>ch_queue = Some (next_queue (aheap w)), ch_index = garbage\<rparr> p0 else p0)"
      using ip by (auto simp: s0 Run_bind_def)
    have "proc_inv p" using ok ip by blast
    then show ?thesis
      using p0 acc stored[OF p0(1)]
      by (auto simp: accounted_def steady_def listed_def worth_def split: if_splits)
  qed
  have "procs_total (\<lambda>i. worth wt (L i)) (dom (nodes P)) (procs s0) =
      (\<Sum>i\<in>dom (nodes P). working_worth (L i) (node_class (the (nodes P i))))"
    unfolding procs_total_def using node by (intro sum.cong) (auto simp: s0 Run_bind_def)
  moreover have empty: "bq_queue (queues s0 q) = []" for q using inv by (simp add: s0 pipe_inv_def)
  ultimately show ?thesis
    using node ok s0(3) by (simp add: fl.undisturbed_def total_def queues_total_def queue_weight_def)
qed

lemma queues_used: "pipe_inv w P \<Longrightarrow> node_set reads_q P i \<union> node_set writes_q P i \<subseteq> {..<next_queue (wheap w)}"
  by (auto simp: node_set_def pipe_inv_def node_ok_def split: option.splits)

lemma run_undisturbed:
  assumes "pipe_inv w P" "Run ex garbage w P = Returned s0"
    "\<not> chan_bool (abort_channel P)" "accounted wt L P" "net_alone pending resume s0 s"
  shows "fl.undisturbed wt L (next_queue (aheap w)) (dom (nodes P)) {..<next_queue (wheap w)}
      (\<Sum>i\<in>dom (nodes P). working_worth (L i) (node_class (the (nodes P i)))) s" "co.tail_ok s"
    "co.net_ok (dom (nodes P)) (node_set reads_q P) (node_set writes_q P) (\<lambda>q. bq_capacity (queue_at (wheap w) q)) s"
  using net_undisturbed[OF assms(5) start_undisturbed[OF assms(1-4)] Run_net_ok[OF assms(1,2)] pipe_inv_finite[OF assms(1)]
      finite_lessThan queues_used[OF assms(1)]] Run_tail_ok[OF assms(1,2)] by blast+

lemma conserved_at:
  assumes "pipe_inv w P" "Run ex garbage w P = Returned s0"
    "\<not> chan_bool (abort_channel P)" "accounted wt L P" "net_alone pending resume s0 s"
  shows "\<forall>q<next_queue (wheap w). \<forall>v\<in>set (bq_queue (queues s q)). fits wt q v"
    "(\<Sum>i\<in>dom (nodes P). worth wt (L i) (the (procs s i))) +
      (\<Sum>q<next_queue (wheap w). \<Sum>v\<leftarrow>bq_queue (queues s q). weigh wt q v) =
    (\<Sum>i\<in>dom (nodes P). working_worth (L i) (node_class (the (nodes P i))))" (is "?W s + ?Q s = ?T")
    "all_ended pending s \<Longrightarrow> (\<Sum>i\<in>dom (nodes P). ended_worth (L i) (node_class (the (procs s i)))) =
      (\<Sum>i\<in>dom (nodes P). working_worth (L i) (node_class (the (nodes P i))))"
proof -
  note und = run_undisturbed[OF assms]
  show "\<forall>q<next_queue (wheap w). \<forall>v\<in>set (bq_queue (queues s q)). fits wt q v"
    using und(1) by (simp add: fl.undisturbed_def)
  have dom: "dom (procs s) = dom (nodes P)" using und(1) by (simp add: fl.undisturbed_def)
  have "procs_total (\<lambda>i. worth wt (L i)) (dom (nodes P)) (procs s) = ?W s"
    unfolding procs_total_def dom[symmetric] by (rule sum.cong) auto
  then show "?W s + ?Q s = ?T"
    using und(1) by (simp add: fl.undisturbed_def total_def queues_total_def queue_weight_def)
  show "all_ended pending s \<Longrightarrow> (\<Sum>i\<in>dom (nodes P). ended_worth (L i) (node_class (the (procs s i)))) = ?T"
    by (rule undisturbed_ended(3)[OF und(1,3,2)])
qed

text \<open>An undisturbed run that cannot go on has come to its end.\<close>

lemma undisturbed_stuck:
  assumes "pipe_inv w P" "untangled P" "Run ex garbage w P = Returned s0" "net_reach pending resume s0 s"
    "\<And>i q. q \<in> node_set writes_q P i \<Longrightarrow> 0 < bq_capacity (queue_at (wheap w) q)"
    "fl.undisturbed wt L a D Q T s" "\<nexists>i s'. proc_step pending resume i s s'"
  shows "all_ended pending s"
proof (rule ccontr)
  assume "\<not> all_ended pending s"
  from surviving_progress[OF assms(1,2) undisturbed_not_lost[OF assms(6)] assms(3,4) this] assms(5,7) show False
    by blast
qed

section \<open>User code that does not throw\<close>

fun harmless :: "('v, 's) node_class \<Rightarrow> bool" where
  "harmless (SourceC generate s) = (\<forall>s. \<exists>v s'. generate s = (Inr v, s'))"
| "harmless (SinkC consume s) = (\<forall>s x. \<exists>s'. consume s x = (Inr (), s'))"
| "harmless (SimpleTransformC transform s) = (\<forall>s x. \<exists>y s'. transform s x = (Inr y, s'))"
| "harmless (FilterC filter_fn s) = (\<forall>s x. \<exists>b s'. filter_fn s x = (Inr b, s'))"
| "harmless (AccumulateC consume generate s) =
     ((\<forall>s x. \<exists>s'. consume s x = (Inr (), s')) \<and> (\<forall>s. \<exists>y s'. generate s = (Inr y, s')))"
| "harmless (DispatchC n dispatch s) = (\<forall>s x. \<exists>k s'. dispatch s x = (Inr k, s'))"
| "harmless _ = True"

text \<open>Weights that say nothing: every element is allowed and weighs 0.\<close>

definition no_weight :: "nat \<Rightarrow> 'v \<Rightarrow> nat option" where
  "no_weight q v = Some 0"

definition plain_ledger :: "('v, 's) processor \<Rightarrow> ('v, 's, nat) ledger" where
  "plain_ledger p = \<lparr>working_worth = \<lambda>c. 0, ended_worth = \<lambda>c. 0, port_of = chan_queue p,
     classes = {c. harmless c \<and> kind_of c = pkind p}\<rparr>"

lemma plain_ledger_simps [simp]:
  "working_worth (plain_ledger p) c = 0" "ended_worth (plain_ledger p) c = 0" "port_of (plain_ledger p) = chan_queue p"
  "c \<in> classes (plain_ledger p) \<longleftrightarrow> harmless c \<and> kind_of c = pkind p"
  by (simp_all add: plain_ledger_def)

lemma plain_elems [simp]: "weigh no_weight q v = 0" "fits no_weight q v"
  by (simp_all add: weigh_def fits_def no_weight_def split: option.splits)

lemma plain_ports [simp]: "port_weight no_weight L v r = 0" "port_fits no_weight L v r"
  by (simp_all add: port_weight_def port_fits_def split: option.splits)

lemma plain_cmds [simp]: "cmds_weight no_weight L cs = 0" "cmds_fit no_weight L cs"
proof -
  show "cmds_weight no_weight L cs = 0"
  proof (induction cs)
    case (Cons c cs)
    then show ?case by (cases c) simp_all
  qed simp
qed (simp add: cmds_fit_def)

lemma plain_body [simp]: "body_worth no_weight (plain_ledger p) cs c = 0"
  by (simp add: body_worth_def)

lemma harmless_bodies:
  assumes "harmless c"
  shows "\<exists>cs c'. Source_generate c = (Inr cs, c') \<and> harmless c'"
    "\<exists>cs c'. work_popped c r v = (Inr cs, c') \<and> harmless c'"
proof -
  show "\<exists>cs c'. Source_generate c = (Inr cs, c') \<and> harmless c'"
  proof (cases c)
    case (SourceC g s)
    then obtain y s' where "g s = (Inr y, s')" using assms by fastforce
    then show ?thesis using SourceC assms by simp
  qed (use assms in auto)
  show "\<exists>cs c'. work_popped c r v = (Inr cs, c') \<and> harmless c'"
  proof (cases v)
    case None
    show ?thesis
    proof (cases c)
      case (AccumulateC f g s)
      then obtain y s' where "g s = (Inr y, s')" using assms by fastforce
      then show ?thesis using AccumulateC None assms by (simp add: Accumulate_body_def)
    qed (use None assms in \<open>auto simp: Sink_body_def SimpleTransform_body_def Filter_body_def Dispatch_body_def\<close>)
  next
    case (Some x)
    show ?thesis
    proof (cases c)
      case (SinkC f s)
      then obtain s' where "f s x = (Inr (), s')" using assms by fastforce
      then show ?thesis using SinkC Some assms by (simp add: Sink_body_def)
    next
      case (SimpleTransformC f s)
      then obtain y s' where "f s x = (Inr y, s')" using assms by fastforce
      then show ?thesis using SimpleTransformC Some assms by (simp add: SimpleTransform_body_def)
    next
      case (FilterC f s)
      then obtain y s' where "f s x = (Inr y, s')" using assms by fastforce
      then show ?thesis using FilterC Some assms by (simp add: Filter_body_def)
    next
      case (AccumulateC f g s)
      then obtain s' where "f s x = (Inr (), s')" using assms by fastforce
      then show ?thesis using AccumulateC Some assms by (simp add: Accumulate_body_def)
    next
      case (DispatchC n f s)
      then obtain y s' where "f s x = (Inr y, s')" using assms by fastforce
      then show ?thesis using DispatchC Some assms by (simp add: Dispatch_body_def)
    qed (use assms in simp_all)
  qed
qed

lemma plain_conserving: "conserving no_weight (plain_ledger p)"
proof -
  have settled: "settles no_weight (plain_ledger p) b 0"
    if "\<exists>cs c'. b = (Inr cs, c') \<and> harmless c'" "kind_of (snd b) = pkind p" for b
    using that by auto
  have "settles no_weight (plain_ledger p) (Source_generate c) 0" if "c \<in> classes (plain_ledger p)" for c
    using that by (intro settled harmless_bodies) (auto simp: kind_Source_generate)
  moreover have "settles no_weight (plain_ledger p) (work_popped c r v) 0" if "c \<in> classes (plain_ledger p)" for c r v
    using that by (intro settled harmless_bodies) (auto simp: kind_work_popped)
  ultimately show ?thesis by (auto simp: conserving_def)
qed

lemma plain_accounted:
  assumes "pipe_inv w P" "\<forall>i p. nodes P i = Some p \<longrightarrow> harmless (node_class p)"
  shows "accounted no_weight (\<lambda>i. plain_ledger (the (nodes P i))) P"
  using assms by (auto simp: accounted_def pipe_inv_def node_ok_def intro!: plain_conserving)

section \<open>Properties\<close>

text \<open>Where a coroutine is after an exception, or worse.\<close>

fun failing :: "'v pc \<Rightarrow> bool" where
  "failing (NotifyWait e) = True"
| "failing (CloseInputWait r k hs e) = True"
| "failing (CloseOutputWait r hs e) = True"
| "failing Aborted = True"
| "failing Crashed = True"
| "failing (Finished e) = (e \<noteq> None)"
| "failing _ = False"

lemma quiet_not_failing: "quiet wt L x \<Longrightarrow> \<not> failing x"
  by (cases x) auto

lemma demo_own: "\<not> chan_bool (abort_channel demo_pipeline)"
  by (simp add: demo_pipeline_simp demo_pipeline1_simp(2) Pipeline_def chan_bool_def)

lemma demo_harmless: "\<forall>i p. nodes demo_pipeline i = Some p \<longrightarrow> harmless (node_class p)"
  by (auto simp: demo_pipeline_simp demo_source_def demo_sink_def)

text \<open>
  C8: no failure out of nothing. If the user code of the nodes never throws and nobody but the nodes uses
  the abort channel, which is the one \<^verbatim>\<open>Run\<close> creates, then under every interleaving no node ever
  throws, enters hosted mode or aborts, and when all nodes have ended each has ended without an exception.
  It does not matter whether the abort channel is bound.
\<close>

theorem pipeline_never_fails:
  assumes "built w P" "\<not> chan_bool (abort_channel P)"
    "Run ex garbage w P = Returned s0" "net_alone pending resume s0 s"
    "\<forall>i p. nodes P i = Some p \<longrightarrow> harmless (node_class p)"
  shows "(\<forall>i p. procs s i = Some p \<longrightarrow> \<not> failing (pc p)) \<and>
    (all_ended pending s \<longrightarrow> (\<forall>i p. procs s i = Some p \<longrightarrow> pc p = Finished None))"
proof -
  have inv: "pipe_inv w P" using assms(1) by (rule built_pipe_inv)
  note run = run_undisturbed[OF inv assms(3,2) plain_accounted[OF inv assms(5)] assms(4)]
  have "\<not> failing (pc p)" if "procs s i = Some p" for i p
    using undisturbed_node[OF run(1) that] quiet_not_failing by (auto simp: steady_def)
  then show ?thesis using undisturbed_ended(1)[OF run(1,3,2)] by blast
qed

theorem pipeline_never_fails_witness:
  "\<exists>s. net_alone pending resume demo_net s \<and> all_ended pending s \<and> dom (procs s) = {1, 2} \<and>
    (\<forall>i p. procs s i = Some p \<longrightarrow> \<not> failing (pc p) \<and> pc p = Finished None)"
proof -
  obtain s where s: "sched pending resume demo_schedule demo_net = Some s"
    and "map_option pc (procs s 1) = Some (Finished None)" "map_option pc (procs s 2) = Some (Finished None)"
    using demo_ends by auto
  moreover have dom: "dom (procs s) = {1, 2}" using sched_dom[OF s] by (auto simp: demo_net_simp)
  ultimately have "pc p = Finished None" if "procs s i = Some p" for i p
    using that domI[of "procs s" i p] by auto
  then have ended: "all_ended pending s" by (auto simp: all_ended_def pending.simps)
  have alone: "net_alone pending resume demo_net s" by (rule sched_alone[OF s net_alone.init])
  show ?thesis
    using pipeline_never_fails[OF demo_built demo_own demo_run alone demo_harmless] alone ended dom by blast
qed

text \<open>
  C9: a pipeline that is left alone does its work. If the user code never throws, every source ends,
  the queues can hold an element, the pipeline is untangled and its abort channel is the one \<^verbatim>\<open>Run\<close> creates, then all runs are bounded and
  a run that cannot go on, and in which nobody but the nodes touched the abort channel and the queues, has ended every node without an exception and left every queue empty. This
  covers the default options, where the abort channel is not bound.
\<close>

theorem harmless_pipeline_completes:
  assumes "built w P" "untangled P" "0 < channel_size P" "\<not> chan_bool (abort_channel P)"
    "Run ex garbage w P = Returned s0" "\<forall>i p. nodes P i = Some p \<longrightarrow> harmless (node_class p)"
    "\<forall>i p. nodes P i = Some p \<longrightarrow> source_ends (node_class p)"
  shows "(\<exists>N. \<forall>n s. net_steps pending resume s0 n s \<longrightarrow> n \<le> N) \<and>
    (\<forall>s. net_alone pending resume s0 s \<and> (\<nexists>i s'. proc_step pending resume i s s') \<longrightarrow>
      (\<forall>i p. procs s i = Some p \<longrightarrow> pc p = Finished None) \<and> (\<forall>q. bq_queue (queues s q) = []))"
proof -
  have inv: "pipe_inv w P" using assms(1) by (rule built_pipe_inv)
  have "(\<forall>i p. procs s i = Some p \<longrightarrow> pc p = Finished None) \<and> (\<forall>q. bq_queue (queues s q) = [])"
    if alone: "net_alone pending resume s0 s" and stuck: "\<nexists>i s'. proc_step pending resume i s s'" for s
  proof -
    note und = run_undisturbed[OF inv assms(5,4) plain_accounted[OF inv assms(6)] alone]
    have "all_ended pending s"
      using undisturbed_stuck[OF inv assms(2,5) net_alone_reach[OF alone] _ und(1) stuck]
        caps_positive[OF inv built_caps[OF assms(1)] assms(3)] by blast
    then show ?thesis using undisturbed_ended[OF und(1,3,2)] by blast
  qed
  then show ?thesis using steps_bound_exists[OF inv assms(5)] assms(7) by blast
qed

text \<open>
  C3: conservation of data. Let every element that may be in a queue have a weight there, and let the body of \<^verbatim>\<open>work()\<close>
  of every node neither throw nor change the weight: what it keeps in its state and what it
  sends is together what it had and what it received. Let the abort channel be the one \<^verbatim>\<open>Run\<close> creates, not a shared one. Then at every
  moment of every run in which nobody but the nodes touches the abort channel and the queues, the queues
  hold allowed elements only, and the weight of all states and all elements under way is the
  initial one; when all nodes have ended, it is found in the states of the nodes alone.
\<close>

theorem pipeline_conserves_data:
  assumes "built w P" "\<not> chan_bool (abort_channel P)"
    "Run ex garbage w P = Returned s0" "accounted wt L P" "net_alone pending resume s0 s"
  shows "(\<forall>q<next_queue (wheap w). \<forall>v\<in>set (bq_queue (queues s q)). fits wt q v) \<and>
    (\<Sum>i\<in>dom (nodes P). worth wt (L i) (the (procs s i))) +
      (\<Sum>q<next_queue (wheap w). \<Sum>v\<leftarrow>bq_queue (queues s q). weigh wt q v) =
    (\<Sum>i\<in>dom (nodes P). working_worth (L i) (node_class (the (nodes P i)))) \<and>
    (all_ended pending s \<longrightarrow>
      (\<Sum>i\<in>dom (nodes P). ended_worth (L i) (node_class (the (procs s i)))) =
      (\<Sum>i\<in>dom (nodes P). working_worth (L i) (node_class (the (nodes P i)))))"
  using conserved_at[OF built_pipe_inv[OF assms(1)] assms(3,2,4,5)] by blast

end
