(* ===== verification/Program.thy ===== *)
theory Program
  imports Pipeline_Flow
begin

text \<open>
  What the example programs share: the state in which \<^verbatim>\<open>main\<close> starts, and how the calls of the
  builder follow each other.
\<close>

declare pending.simps [simp del] resume.simps [simp del] get_chan.simps [simp del] upd_chan.simps [simp del]

text \<open>A call that throws ends \<^verbatim>\<open>main\<close>.\<close>

fun then_do :: "'a outcome \<times> 'b \<Rightarrow> ('a \<Rightarrow> 'b \<Rightarrow> 'c outcome) \<Rightarrow> 'c outcome" where
  "then_do (Returned x, s) f = f x s"
| "then_do (Thrown e, s) f = Thrown e"
| "then_do (Died, s) f = Died"

text \<open>The state of the process when \<^verbatim>\<open>main\<close> starts.\<close>

definition start_world :: "'v world" where
  "start_world = \<lparr>next_id = 1, wheap = empty_qheap, aheap = empty_qheap\<rparr>"

text \<open>The states of the process while \<^verbatim>\<open>main\<close> builds.\<close>

abbreviation world_at :: "nat \<Rightarrow> 'v qheap \<Rightarrow> 'v world" where
  "world_at n h \<equiv> \<lparr>next_id = n, wheap = h, aheap = empty_qheap\<rparr>"

fun heap_of :: "nat \<Rightarrow> 'v qheap" where
  "heap_of 0 = empty_qheap"
| "heap_of (Suc n) = snd (make_queue default_channel_size (heap_of n))"

lemma heap_of_next [simp]: "next_queue (heap_of n) = n"
  by (induction n) (simp_all add: empty_qheap_def)

lemma make_queue_heap: "make_queue default_channel_size (heap_of n) = (n, heap_of (Suc n))"
  using make_queue_simps(1)[of default_channel_size "heap_of n"] by (metis heap_of.simps(2) heap_of_next prod.collapse)

lemma heap_grows: "m = Suc n \<Longrightarrow> snd (make_queue default_channel_size (heap_of n)) = heap_of m"
  by simp

lemma heap_of_empty [simp]: "bq_queue (queue_at (heap_of n) q) = []"
  by (induction n) (auto simp: empty_qheap_def BoundedQueue_def)

lemma heap_of_bounds:
  "queue_inv (queue_at (heap_of n) q)" "q < n \<Longrightarrow> bq_capacity (queue_at (heap_of n) q) = default_channel_size"
  by (induction n) (auto simp: empty_qheap_def BoundedQueue_def queue_inv_def less_Suc_eq)

lemmas build_defs = new_node_check_def leaf_check_def map_insert_def GetId_def link_def connect_queue_def add_edge_def
  feed_def SetInputPort_def SetOutputPort_def Pipeline_def Let_def

lemma make_node_world:
  "Suc n < 2 ^ 64 \<Longrightarrow> make_node tr c nm (world_at n h) = (Processor tr c nm n, world_at (Suc n) h)"
  by (simp add: make_node_def GenerateId_def)

lemma start_world_heap: "start_world = world_at 1 (heap_of 0)"
  by (simp add: start_world_def)

lemma fresh_Processor: "i < next_id w \<Longrightarrow> fresh w (kind_of c) (Processor tr c nm i)"
  by (auto simp: fresh_def)

lemma built_start: "n < 2 ^ 64 \<Longrightarrow> built (world_at n (heap_of 0)) (Pipeline binds csize nm)"
  by (rule built.new) (auto simp: idle_def caps_def empty_qheap_def BoundedQueue_def)

lemma built_more:
  assumes "built (world_at n h) P" "Suc n < 2 ^ 64"
  shows "built (world_at (Suc n) h) P"
  using built.construct[OF assms(1) make_node_world[OF assms(2), of undefined NoOpTransformC "[]"]] assms(2) by simp

text \<open>The state of the process after the loop of \<^verbatim>\<open>Fork\<close> and \<^verbatim>\<open>Dispatch\<close>.\<close>

lemma fan_out_step:
  assumes "Suc n < 2 ^ 64" "channel_size P = default_channel_size"
  shows "fan_out tr (Suc k) node res \<lparr>next_id = n, wheap = heap_of m, aheap = ah\<rparr> P =
    fan_out tr k (AddOutputPort (Channel_shared m) node) (insert n res) \<lparr>next_id = Suc n, wheap = heap_of (Suc m), aheap = ah\<rparr>
      ((add_edge (GetId node) n P)\<lparr>nodes := map_insert n (noop tr m n) (nodes P)\<rparr>)"
  using assms
  by (simp add: make_node_def GenerateId_def connect_multi_out_def make_queue_heap Let_def feed_def SetInputPort_def
      GetId_def Processor_def add_edge_def del: heap_of.simps)

lemma fan_out_world:
  assumes "n + k < 2 ^ 64" "channel_size P = default_channel_size"
  shows "\<exists>node' res' P'. fan_out tr k node res \<lparr>next_id = n, wheap = heap_of m, aheap = ah\<rparr> P =
    (node', res', \<lparr>next_id = n + k, wheap = heap_of (m + k), aheap = ah\<rparr>, P')"
  using assms
proof (induction k arbitrary: node res n m P)
  case (Suc k)
  let ?P = "(add_edge (GetId node) n P)\<lparr>nodes := map_insert n (noop tr m n) (nodes P)\<rparr>"
  have "channel_size ?P = default_channel_size" using Suc.prems(2) by (simp add: add_edge_def)
  then show ?case
    using Suc.IH[of "Suc n" ?P "AddOutputPort (Channel_shared m) node" "insert n res" "Suc m"] Suc.prems fan_out_step[of n P]
    by (simp del: fan_out.simps heap_of.simps)
qed simp

text \<open>The nodes after \<^verbatim>\<open>SetSink\<close>, whatever the order in which it sees the leaves.\<close>

lemma SetSink_spec:
  assumes "distinct ord" "set ord = leaves P" "leaves P \<subseteq> dom (nodes P)" "leaves P \<noteq> {}" "nodes P (GetId sink) = None"
  shows "\<exists>P'. SetSink sink ord w P = (Returned (GetId sink), w\<lparr>wheap := snd (make_queue (channel_size P) (wheap w))\<rparr>, P') \<and>
    nodes P' = (\<lambda>i. if i = GetId sink then Some (feed (next_queue (wheap w)) (length ord) sink)
       else if i \<in> leaves P then map_option (give_out (next_queue (wheap w))) (nodes P i) else nodes P i) \<and>
    leaves P' = {} \<and> channel_size P' = channel_size P \<and> bind_abort_channel P' = bind_abort_channel P \<and>
    abort_channel P' = abort_channel P"
proof -
  let ?q = "next_queue (wheap w)"
  obtain P1 where l: "link_all ?q ord sink P = Some (feed ?q (length ord) sink, P1)" "same_setup P P1"
    and n: "\<And>i. nodes P1 i = (if i \<in> set ord then map_option (give_out ?q) (nodes P i) else nodes P i)"
    using link_all_spec[of ord P ?q sink] assms(1-3) by auto
  have "nodes P1 (GetId sink) = None" "GetId sink \<notin> leaves P" using n assms(3,5) by auto
  then show ?thesis
    using l n assms(2,4,5)
    by (auto simp: SetSink_def register_sink_def merge_def new_node_check_def Let_def split_beta map_insert_def
        same_setup_def fun_eq_iff)
qed

end
