(* ===== verification/Number_Handle.thy ===== *)
theory Number_Handle
  imports Program
begin

text \<open>
  The program \<^verbatim>\<open>example/number_handle.cc\<close>: its node classes and the pipeline that \<^verbatim>\<open>main\<close> builds
  and runs. Two sources count to 100; the numbers of the first are doubled, the even numbers
  of the second are dropped; both streams are merged, dispatched to four nodes that add up what
  they receive, and a sink adds up the four sums. Numbers are mathematical integers, and that
  none of them ever leaves the range of \<^verbatim>\<open>int\<close> is part of what is shown.
\<close>

declare pending.simps [simp del] resume.simps [simp del] get_chan.simps [simp del] upd_chan.simps [simp del]

section \<open>The nodes\<close>

text \<open>The state of an object is its only member: \<^verbatim>\<open>count\<close>, \<^verbatim>\<open>sum\<close> or \<^verbatim>\<open>tmp_sum\<close>.\<close>

definition NumSource_generate :: "int \<Rightarrow> int option result \<times> int" where
  "NumSource_generate cnt =
     (if cnt < 100 then (Inr (Some (cnt + 1)), cnt + 1) else (Inr None, cnt))"

definition NumSink_consume :: "int \<Rightarrow> int \<Rightarrow> unit result \<times> int" where
  "NumSink_consume s v = (Inr (), s + v)"

definition NumTransform_transform :: "int \<Rightarrow> int \<Rightarrow> int result \<times> int" where
  "NumTransform_transform s x = (Inr (x * 2), s)"

definition NumFilter_filter :: "int \<Rightarrow> int \<Rightarrow> bool result \<times> int" where
  "NumFilter_filter s v = (Inr (v mod 2 = 0), s)"

definition NumDispatch_dispatch :: "int \<Rightarrow> int \<Rightarrow> nat result \<times> int" where
  "NumDispatch_dispatch s x = (Inr (nat (x mod 2 ^ 64)), s)"

definition NumAccumulate_consume :: "int \<Rightarrow> int \<Rightarrow> unit result \<times> int" where
  "NumAccumulate_consume tmp_sum v = (Inr (), tmp_sum + v)"

definition NumAccumulate_generate :: "int \<Rightarrow> int result \<times> int" where
  "NumAccumulate_generate tmp_sum = (Inr tmp_sum, tmp_sum)"

definition int_traits :: "int traits" where
  "int_traits = \<lparr>tunnel_get_bytes = None, GetBytes = None\<rparr>"

definition NumSource :: "int \<Rightarrow> (int, int) node_class" where
  "NumSource cnt = SourceC NumSource_generate cnt"

definition NumSink :: "int \<Rightarrow> (int, int) node_class" where
  "NumSink s = SinkC NumSink_consume s"

definition NumTransform :: "(int, int) node_class" where
  "NumTransform = SimpleTransformC NumTransform_transform 0"

definition NumFilter :: "(int, int) node_class" where
  "NumFilter = FilterC NumFilter_filter 0"

definition NumDispatch :: "nat \<Rightarrow> (int, int) node_class" where
  "NumDispatch sz = DispatchC sz NumDispatch_dispatch 0"

definition NumAccumulate :: "int \<Rightarrow> (int, int) node_class" where
  "NumAccumulate tmp_sum = AccumulateC NumAccumulate_consume NumAccumulate_generate tmp_sum"

section \<open>The pipeline\<close>

definition accumulate_creater :: "nat \<Rightarrow> int world \<Rightarrow> (int, int) processor result \<times> int world" where
  "accumulate_creater k w = (case make_node int_traits (NumAccumulate 0) ''accumulate'' w of (p, w') \<Rightarrow> (Inr p, w'))"

text \<open>
  \<^verbatim>\<open>main\<close> up to \<^verbatim>\<open>Run\<close>. The arguments are the orders in which the three loops over
  \<^verbatim>\<open>leaves_\<close> see its elements.
\<close>

definition number_handle :: "nat list \<Rightarrow> nat list \<Rightarrow> nat list \<Rightarrow> int world \<Rightarrow>
    (int world \<times> (int, int) pipeline) outcome" where
  "number_handle ord1 ord2 ord3 w =
     (let P = Pipeline True default_channel_size ''number_handle_pipeline'';
          (source1, w) = make_node int_traits (NumSource 0) ''source1'' w
      in then_do (AddSource source1 P) (\<lambda>s1_id P.
      let (transform, w) = make_node int_traits NumTransform ''transform'' w
      in then_do (AddTransform s1_id transform w P) (\<lambda>_ (w, P).
      let (source2, w) = make_node int_traits (NumSource 0) ''source2'' w
      in then_do (AddSource source2 P) (\<lambda>s2_id P.
      let (filt, w) = make_node int_traits NumFilter ''filter'' w
      in then_do (AddTransform s2_id filt w P) (\<lambda>_ (w, P).
      then_do (Merge_noop int_traits ord1 w P) (\<lambda>merged (w, P).
      let (dispatch, w) = make_node int_traits (NumDispatch 4) ''dispatch'' w
      in then_do (DispatchFrom int_traits merged dispatch w P) (\<lambda>_ (w, P).
      then_do (AddTransform_each accumulate_creater ord2 w P) (\<lambda>_ (w, P).
      let (sink, w) = make_node int_traits (NumSink 0) ''sink'' w
      in then_do (SetSink sink ord3 w P) (\<lambda>_ (w, P). Returned (w, P))))))))))"

section \<open>What is built\<close>

definition nh_node :: "nat list \<Rightarrow> nat \<Rightarrow> (int, int) processor option" where
  "nh_node ord2 i =
     (if i = 1 then Some (give_out 0 (Processor int_traits (NumSource 0) ''source1'' 1))
      else if i = 2 then Some (give_out 2 (feed 0 1 (Processor int_traits NumTransform ''transform'' 2)))
      else if i = 3 then Some (give_out 1 (Processor int_traits (NumSource 0) ''source2'' 3))
      else if i = 4 then Some (give_out 2 (feed 1 1 (Processor int_traits NumFilter ''filter'' 4)))
      else if i = 5 then Some (give_out 7 (feed 2 2 (Processor int_traits NoOpTransformC ''no_op'' 5)))
      else if i = 6 then Some (feed 7 1 (add_outs 3 4 (Processor int_traits (NumDispatch 4) ''dispatch'' 6)))
      else if i \<in> {7..<11} then Some (give_out (8 + index_of ord2 i) (noop int_traits (3 + (i - 7)) i))
      else if i \<in> {11..<15}
        then Some (give_out 12 (feed (8 + (i - 11)) 1 (Processor int_traits (NumAccumulate 0) ''accumulate'' i)))
      else if i = 15 then Some (feed 12 4 (Processor int_traits (NumSink 0) ''sink'' 15))
      else None)"

abbreviation nh_start :: "(int, int) pipeline" where
  "nh_start \<equiv> Pipeline True default_channel_size ''number_handle_pipeline''"

definition nh_merged :: "(int, int) pipeline" where
  "nh_merged = nh_start\<lparr>
     nodes := [1 \<mapsto> give_out 0 (Processor int_traits (NumSource 0) ''source1'' 1),
               2 \<mapsto> give_out 2 (feed 0 1 (Processor int_traits NumTransform ''transform'' 2)),
               3 \<mapsto> give_out 1 (Processor int_traits (NumSource 0) ''source2'' 3),
               4 \<mapsto> give_out 2 (feed 1 1 (Processor int_traits NumFilter ''filter'' 4)),
               5 \<mapsto> feed 2 2 (Processor int_traits NoOpTransformC ''no_op'' 5)],
     leaves := {5}, dags := [1 \<mapsto> {2}, 3 \<mapsto> {4}, 2 \<mapsto> {5}, 4 \<mapsto> {5}], sources := [1, 3]\<rparr>"

definition nh_filtered :: "(int, int) pipeline" where
  "nh_filtered = nh_start\<lparr>
     nodes := [1 \<mapsto> give_out 0 (Processor int_traits (NumSource 0) ''source1'' 1),
               2 \<mapsto> feed 0 1 (Processor int_traits NumTransform ''transform'' 2),
               3 \<mapsto> give_out 1 (Processor int_traits (NumSource 0) ''source2'' 3),
               4 \<mapsto> feed 1 1 (Processor int_traits NumFilter ''filter'' 4)],
     leaves := {2, 4}, dags := [1 \<mapsto> {2}, 3 \<mapsto> {4}], sources := [1, 3]\<rparr>"

definition nh_doubled :: "(int, int) pipeline" where
  "nh_doubled = nh_start\<lparr>
     nodes := [1 \<mapsto> give_out 0 (Processor int_traits (NumSource 0) ''source1'' 1),
               2 \<mapsto> feed 0 1 (Processor int_traits NumTransform ''transform'' 2)],
     leaves := {2}, dags := [1 \<mapsto> {2}], sources := [1]\<rparr>"

definition nh_first :: "(int, int) pipeline" where
  "nh_first = nh_start\<lparr>nodes := [1 \<mapsto> Processor int_traits (NumSource 0) ''source1'' 1], leaves := {1}, sources := [1]\<rparr>"

definition nh_second :: "(int, int) pipeline" where
  "nh_second = nh_doubled\<lparr>nodes := (nodes nh_doubled)(3 \<mapsto> Processor int_traits (NumSource 0) ''source2'' 3),
     leaves := {2, 3}, sources := [1, 3]\<rparr>"

lemma nh_steps:
  "AddSource (Processor int_traits (NumSource 0) ''source1'' 1) nh_start = (Returned 1, nh_first)"
  "AddTransform 1 (Processor int_traits NumTransform ''transform'' 2) (world_at 3 (heap_of 0)) nh_first =
     (Returned 2, world_at 3 (heap_of 1), nh_doubled)"
  "AddSource (Processor int_traits (NumSource 0) ''source2'' 3) nh_doubled = (Returned 3, nh_second)"
  "AddTransform 3 (Processor int_traits NumFilter ''filter'' 4) (world_at 5 (heap_of 1)) nh_second =
     (Returned 4, world_at 5 (heap_of 2), nh_filtered)"
  by (auto simp: AddSource_def AddTransform_def build_defs nh_first_def nh_doubled_def nh_second_def nh_filtered_def
      make_queue_heap Processor_def fun_eq_iff numeral_2_eq_2 simp del: heap_of.simps)

lemma nh_merge:
  assumes "distinct ord1" "set ord1 = {2, 4}"
  shows "Merge_noop int_traits ord1 (world_at 5 (heap_of 2)) nh_filtered = (Returned 5, world_at 6 (heap_of 3), nh_merged)"
proof -
  have "length ord1 = 2" using distinct_card[OF assms(1)] assms(2) by simp
  then obtain a b where ab: "ord1 = [a, b]" by (cases ord1; cases "tl ord1") auto
  then have "{a, b} = {2, 4}" using assms(2) by simp
  then have "(a = 2 \<and> b = 4) \<or> (a = 4 \<and> b = 2)" by (simp add: doubleton_eq_iff)
  then show ?thesis
    using ab by (elim disjE) (simp_all add: Merge_noop_def merge_def make_node_def GenerateId_def build_defs nh_filtered_def nh_merged_def
        make_queue_heap Processor_def fun_eq_iff numeral_3_eq_3 del: heap_of.simps)
qed

text \<open>The nodes that a loop of \<^verbatim>\<open>AddTransform\<close> adds, if the function of the user always constructs the same class.\<close>

lemma add_transforms_spec:
  assumes "set ls \<subseteq> dom (nodes P)" "distinct ls" "next_id w + length ls < 2 ^ 64" "\<forall>i \<ge> next_id w. nodes P i = None"
  shows "\<exists>w' P'. add_transforms (\<lambda>k w. case make_node tr c nm w of (p, w') \<Rightarrow> (Inr p, w')) k ls nl w P =
      (Returned (nl \<union> {next_id w..<next_id w + length ls}), w', P') \<and>
    next_id w' = next_id w + length ls \<and> next_queue (wheap w') = next_queue (wheap w) + length ls \<and> aheap w' = aheap w \<and>
    (\<forall>i. nodes P' i = (if i \<in> set ls then map_option (give_out (next_queue (wheap w) + index_of ls i)) (nodes P i)
       else if i \<in> {next_id w..<next_id w + length ls}
         then Some (feed (next_queue (wheap w) + (i - next_id w)) 1 (Processor tr c nm i)) else nodes P i)) \<and>
    leaves P' = leaves P \<and> same_setup P P'"
  using assms
proof (induction ls arbitrary: k nl w P)
  case Nil
  then show ?case by (simp add: same_setup_def)
next
  case (Cons i ls)
  obtain p where p: "nodes P i = Some p" using Cons.prems(1) by auto
  let ?d = "next_id w" and ?q = "next_queue (wheap w)"
  let ?t = "Processor tr c nm ?d"
  let ?w = "w\<lparr>next_id := Suc ?d, wheap := snd (make_queue (channel_size P) (wheap w))\<rparr>"
  let ?P1 = "add_edge i ?d (P\<lparr>nodes := (nodes P)(i \<mapsto> give_out ?q p)\<rparr>)"
  let ?P = "?P1\<lparr>nodes := (nodes ?P1)(?d \<mapsto> feed ?q 1 ?t)\<rparr>"
  have d: "nodes P ?d = None" "i \<noteq> ?d" using Cons.prems(4) p by auto
  have "add_transforms (\<lambda>k w. case make_node tr c nm w of (p, w') \<Rightarrow> (Inr p, w')) k (i # ls) nl w P =
      add_transforms (\<lambda>k w. case make_node tr c nm w of (p, w') \<Rightarrow> (Inr p, w')) (Suc k) ls (insert ?d nl) ?w ?P"
    using p d Cons.prems(3)
    by (simp add: make_node_def GenerateId_def new_node_check_def GetId_def link_def connect_queue_def map_insert_def
        add_edge_def feed_def SetInputPort_def Let_def split_beta)
  note unfold_step = this
  have prems: "set ls \<subseteq> dom (nodes ?P)" "distinct ls" "next_id ?w + length ls < 2 ^ 64" "\<forall>j \<ge> next_id ?w. nodes ?P j = None"
    using Cons.prems p by (auto simp: add_edge_def)
  obtain w' P' where IH: "add_transforms (\<lambda>k w. case make_node tr c nm w of (p, w') \<Rightarrow> (Inr p, w')) (Suc k) ls (insert ?d nl) ?w ?P =
      (Returned (insert ?d nl \<union> {next_id ?w..<next_id ?w + length ls}), w', P') \<and>
    next_id w' = next_id ?w + length ls \<and> next_queue (wheap w') = next_queue (wheap ?w) + length ls \<and> aheap w' = aheap ?w \<and>
    (\<forall>j. nodes P' j = (if j \<in> set ls then map_option (give_out (next_queue (wheap ?w) + index_of ls j)) (nodes ?P j)
       else if j \<in> {next_id ?w..<next_id ?w + length ls}
         then Some (feed (next_queue (wheap ?w) + (j - next_id ?w)) 1 (Processor tr c nm j)) else nodes ?P j)) \<and>
    leaves P' = leaves ?P \<and> same_setup ?P P'"
    using Cons.IH[OF prems, of "Suc k" "insert ?d nl"] by (elim exE) (rule that)
  note n0 = IH[THEN conjunct2, THEN conjunct2, THEN conjunct2, THEN conjunct2, THEN conjunct1]
  have r: "add_transforms (\<lambda>k w. case make_node tr c nm w of (p, w') \<Rightarrow> (Inr p, w')) k (i # ls) nl w P =
      (Returned (insert ?d nl \<union> {Suc ?d..<Suc ?d + length ls}), w', P')"
    "next_id w' = Suc ?d + length ls" "next_queue (wheap w') = Suc ?q + length ls" "aheap w' = aheap w"
    "leaves P' = leaves P" "same_setup P P'"
    unfolding unfold_step using IH by (simp_all add: add_edge_def same_setup_def del: add_transforms.simps)
  have wf: "next_id ?w = Suc ?d" "next_queue (wheap ?w) = Suc ?q" by simp_all
  have n: "nodes P' j = (if j \<in> set ls then map_option (give_out (Suc ?q + index_of ls j)) (nodes ?P j)
       else if j \<in> {Suc ?d..<Suc ?d + length ls}
         then Some (feed (Suc ?q + (j - Suc ?d)) 1 (Processor tr c nm j)) else nodes ?P j)" for j
    using spec[OF n0, of j] unfolding wf .
  have "insert ?d nl \<union> {Suc ?d..<Suc ?d + length ls} = nl \<union> {?d..<?d + length (i # ls)}" by auto
  moreover have "nodes P' j = (if j \<in> set (i # ls) then map_option (give_out (?q + index_of (i # ls) j)) (nodes P j)
       else if j \<in> {?d..<?d + length (i # ls)}
         then Some (feed (?q + (j - ?d)) 1 (Processor tr c nm j)) else nodes P j)" for j
    unfolding n using d p Cons.prems(1,2,4) by (cases "j = ?d") (auto simp: add_edge_def Suc_diff_Suc)
  ultimately show ?case using r
    by (intro exI[of _ w'] exI[of _ P']) simp
qed

lemma nh_makes:
  "make_node tr c nm (world_at 1 h) = (Processor tr c nm 1, world_at 2 h)"
  "make_node tr c nm (world_at 2 h) = (Processor tr c nm 2, world_at 3 h)"
  "make_node tr c nm (world_at 3 h) = (Processor tr c nm 3, world_at 4 h)"
  "make_node tr c nm (world_at 4 h) = (Processor tr c nm 4, world_at 5 h)"
  "make_node tr c nm (world_at 6 h) = (Processor tr c nm 6, world_at 7 h)"
  by (simp_all add: make_node_def GenerateId_def)

lemma num_kinds [simp]:
  "kind_of (NumSource n) = KSource" "kind_of (NumSink n) = KSink" "kind_of NumTransform = KTransform"
  "kind_of NumFilter = KTransform" "kind_of (NumDispatch k) = KOneI k" "kind_of (NumAccumulate n) = KTransform"
  "class_size (NumDispatch k) = k"
  by (simp_all add: NumSource_def NumSink_def NumTransform_def NumFilter_def NumDispatch_def NumAccumulate_def)

lemma nh_built_merged:
  assumes "distinct ord1" "set ord1 = {2, 4 :: nat}"
  shows "built (world_at 7 (heap_of 3)) nh_merged"
proof -
  have 1: "built (world_at 3 (heap_of 0)) nh_first"
    using fresh_Processor[of 1 "world_at 3 (heap_of 0)" "NumSource 0" int_traits "''source1''"]
    by (intro built.add_source[OF built_start _ nh_steps(1)]) simp_all
  have 2: "built (world_at 3 (heap_of 1)) nh_doubled"
    using fresh_Processor[of 2 "world_at 3 (heap_of 0)" NumTransform int_traits "''transform''"]
    by (intro built.add_transform[OF 1 _ nh_steps(2)]) simp_all
  have 3: "built (world_at 4 (heap_of 1)) nh_second"
    using fresh_Processor[of 3 "world_at 4 (heap_of 1)" "NumSource 0" int_traits "''source2''"] built_more[OF 2]
    by (intro built.add_source[OF _ _ nh_steps(3)]) simp_all
  have 4: "built (world_at 5 (heap_of 2)) nh_filtered"
    using fresh_Processor[of 4 "world_at 5 (heap_of 1)" NumFilter int_traits "''filter''"] built_more[OF 3]
    by (intro built.add_transform[OF _ _ nh_steps(4)]) simp_all
  have "set ord1 = leaves nh_filtered" using assms(2) by (simp add: nh_filtered_def)
  then have "built (world_at 6 (heap_of 3)) nh_merged"
    by (intro built.merge_noop[OF 4 _ assms(1) _ nh_merge[OF assms]]) simp_all
  then show ?thesis using built_more by fastforce
qed

lemma nh_dispatch:
  "\<exists>w P. DispatchFrom int_traits 5 (Processor int_traits (NumDispatch 4) ''dispatch'' 6) (world_at 7 (heap_of 3)) nh_merged =
      (Returned {7..<11}, w, P) \<and> next_id w = 11 \<and> next_queue (wheap w) = 8 \<and> leaves P = {7..<11} \<and> same_setup nh_merged P \<and>
    (\<forall>i. nodes P i = (if i \<in> {7..<11} then Some (noop int_traits (3 + (i - 7)) i)
       else if i = 5 then Some (give_out 7 (feed 2 2 (Processor int_traits NoOpTransformC ''no_op'' 5)))
       else if i = 6 then Some (feed 7 1 (add_outs 3 4 (Processor int_traits (NumDispatch 4) ''dispatch'' 6)))
       else nodes nh_merged i))"
proof -
  let ?d = "Processor int_traits (NumDispatch 4) ''dispatch'' 6" and ?w = "world_at 7 (heap_of 3)"
  have "\<forall>i \<in> {next_id ?w..<next_id ?w + 4}. nodes nh_merged i = None" by (auto simp: nh_merged_def)
  then obtain w P where f: "fan_out int_traits 4 ?d {} ?w nh_merged = (add_outs 3 4 ?d, {7..<11}, w, P)"
    "next_id w = 11" "next_queue (wheap w) = 7" "leaves P = leaves nh_merged" "same_setup nh_merged P"
    and n: "\<And>i. nodes P i = (if i \<in> {7..<11} then Some (noop int_traits (3 + (i - 7)) i) else nodes nh_merged i)"
    using fan_out_spec[of ?w 4 nh_merged int_traits ?d "{}"] by auto
  have l: "leaves nh_merged = {5}" "nodes nh_merged 6 = None"
    "nodes nh_merged 5 = Some (feed 2 2 (Processor int_traits NoOpTransformC ''no_op'' 5))"
    by (simp_all add: nh_merged_def)
  let ?P = "add_edge 5 6 (P\<lparr>nodes := (nodes P)(5 \<mapsto> give_out 7 (feed 2 2 (Processor int_traits NoOpTransformC ''no_op'' 5)))\<rparr>)"
  let ?P' = "?P\<lparr>leaves := {7..<11}, nodes := (nodes ?P)(6 \<mapsto> feed 7 1 (add_outs 3 4 ?d))\<rparr>"
  have "attach_split 5 (add_outs 3 4 ?d) {7..<11} w P = (Returned {7..<11}, w\<lparr>wheap := snd (make_queue (channel_size P) (wheap w))\<rparr>, ?P')"
    using f(3,4) l n
    by (simp add: attach_split_def link_def connect_queue_def Let_def split_beta map_insert_def GetId_def add_edge_def
        feed_def SetInputPort_def)
  then have "DispatchFrom int_traits 5 ?d ?w nh_merged = (Returned {7..<11}, w\<lparr>wheap := snd (make_queue (channel_size P) (wheap w))\<rparr>, ?P')"
    using f(1) l(1) by (simp add: DispatchFrom_def leaf_check_def)
  then show ?thesis
    using f(2,3,5) n
    by (intro exI[of _ "w\<lparr>wheap := snd (make_queue (channel_size P) (wheap w))\<rparr>"] exI[of _ ?P'])
      (simp add: add_edge_def same_setup_def)
qed

lemma accumulate_creater_ok: "creater_ok accumulate_creater"
proof -
  have "\<exists>tr c nm. Processor int_traits (NumAccumulate 0) ''accumulate'' i = Processor tr c nm i \<and> kind_of c = KTransform" for i
    using num_kinds(6) by blast
  then show ?thesis by (simp add: creater_ok_def accumulate_creater_def make_node_def GenerateId_def)
qed

lemma number_handle_builds:
  assumes "distinct ord1" "set ord1 = {2, 4}" "distinct ord2" "set ord2 = {7..<11}" "distinct ord3" "set ord3 = {11..<15}"
  shows "\<exists>w P. number_handle ord1 ord2 ord3 start_world = Returned (w, P) \<and> built w P \<and> nodes P = nh_node ord2 \<and>
    leaves P = {} \<and> next_queue (wheap w) = 13 \<and> channel_size P = default_channel_size \<and> bind_abort_channel P \<and>
    abort_channel P = Channel_null"
proof -
  obtain w P where d: "DispatchFrom int_traits 5 (Processor int_traits (NumDispatch 4) ''dispatch'' 6) (world_at 7 (heap_of 3)) nh_merged =
      (Returned {7..<11}, w, P)" "next_id w = 11" "next_queue (wheap w) = 8" "leaves P = {7..<11}" "same_setup nh_merged P"
    and n: "\<And>i. nodes P i = (if i \<in> {7..<11} then Some (noop int_traits (3 + (i - 7)) i)
       else if i = 5 then Some (give_out 7 (feed 2 2 (Processor int_traits NoOpTransformC ''no_op'' 5)))
       else if i = 6 then Some (feed 7 1 (add_outs 3 4 (Processor int_traits (NumDispatch 4) ''dispatch'' 6)))
       else nodes nh_merged i)"
    using nh_dispatch by blast
  have bd: "built w P"
    using fresh_Processor[of 6 "world_at 7 (heap_of 3)" "NumDispatch 4" int_traits "''dispatch''"]
    by (intro built.dispatch[OF nh_built_merged[OF assms(1,2)] _ _ _ _ d(1), of 4]) (simp_all add: GetId_def nh_merged_def)
  have len: "length ord2 = 4" "length ord3 = 4"
    using distinct_card[OF assms(3)] distinct_card[OF assms(5)] assms(4,6) by simp_all
  have later: "\<forall>i \<ge> next_id w. nodes P i = None" by (auto simp: n d(2) nh_merged_def)
  have sub: "set ord2 \<subseteq> dom (nodes P)" using n assms(4) by (auto simp: dom_def)
  obtain w2 P2 where t: "add_transforms accumulate_creater 0 ord2 {} w P = (Returned {11..<15}, w2, P2)"
    "next_id w2 = 15" "next_queue (wheap w2) = 12" "same_setup P P2"
    and n2: "\<And>i. nodes P2 i = (if i \<in> set ord2 then map_option (give_out (8 + index_of ord2 i)) (nodes P i)
       else if i \<in> {11..<15} then Some (feed (8 + (i - 11)) 1 (Processor int_traits (NumAccumulate 0) ''accumulate'' i))
       else nodes P i)"
    using add_transforms_spec[OF sub assms(3) _ later, of int_traits "NumAccumulate 0" "''accumulate''" 0 "{}"] len d(2,3)
    by (auto simp: accumulate_creater_def[abs_def])
  let ?P2 = "P2\<lparr>leaves := {11..<15}\<rparr>"
  have a: "AddTransform_each accumulate_creater ord2 w P = (Returned {11..<15}, w2, ?P2)"
    by (simp add: AddTransform_each_def t)
  have bt: "built w2 ?P2"
    using d(2,4) len assms(3,4) by (intro built.add_transform_each[OF bd accumulate_creater_ok _ _ _ a]) simp_all
  let ?w3 = "w2\<lparr>next_id := 16\<rparr>"
  have m: "make_node int_traits (NumSink 0) ''sink'' w2 = (Processor int_traits (NumSink 0) ''sink'' 15, ?w3)"
    by (simp add: make_node_def GenerateId_def t(2))
  have b3: "built ?w3 ?P2" using built.construct[OF bt m] t(2) by simp
  have nh: "nh_node ord2 = (\<lambda>i. if i = 15 then Some (feed 12 4 (Processor int_traits (NumSink 0) ''sink'' 15))
      else if i \<in> {11..<15} then map_option (give_out 12) (nodes P2 i) else nodes P2 i)" "{11..<15} \<subseteq> dom (nodes P2)" "nodes P2 15 = None"
    using assms(4) by (auto simp: n2 n nh_node_def nh_merged_def fun_eq_iff)
  let ?s = "Processor int_traits (NumSink 0) ''sink'' 15" and ?w' = "?w3\<lparr>wheap := snd (make_queue (channel_size ?P2) (wheap ?w3))\<rparr>"
  have pre: "set ord3 = leaves ?P2" "leaves ?P2 \<subseteq> dom (nodes ?P2)" "leaves ?P2 \<noteq> {}" "nodes ?P2 (GetId ?s) = None"
    using nh(2,3) assms(6) by (simp_all add: GetId_def)
  obtain w' P' where s: "SetSink ?s ord3 ?w3 ?P2 = (Returned 15, w', P')"
    "nodes P' = nh_node ord2" "leaves P' = {}" "next_queue (wheap w') = 13"
    "channel_size P' = channel_size P2" "bind_abort_channel P' = bind_abort_channel P2" "abort_channel P' = abort_channel P2"
    using SetSink_spec[OF assms(5) pre, of ?w3] nh(1) t(3) len by (auto simp: GetId_def cong: if_cong)
  have "built w' P'"
    using fresh_Processor[of 15 ?w3 "NumSink 0" int_traits "''sink''"] assms(5,6)
    by (intro built.set_sink[OF b3 _ _ _ s(1)]) simp_all
  moreover have "number_handle ord1 ord2 ord3 start_world = Returned (w', P')"
    unfolding number_handle_def start_world_heap Let_def
    by (simp only: nh_makes nh_steps nh_merge[OF assms(1,2)] d(1) a m s(1) then_do.simps split_conv)
  ultimately show ?thesis
    using s t(4) d(5) by (intro exI[of _ w'] exI[of _ P']) (simp add: same_setup_def nh_merged_def Pipeline_def)
qed

section \<open>What the numbers are worth\<close>

text \<open>
  The weight of a number is what it will add to the result: twice its value behind the first
  source, nothing for an even number behind the second, and its value everywhere else.
\<close>

definition nh_weight :: "nat \<Rightarrow> int \<Rightarrow> int option" where
  "nh_weight q v =
     (if q = 0 then (if v \<in> {1..100} then Some (2 * v) else None)
      else if q = 1 then (if v \<in> {1..100} then Some (if odd v then v else 0) else None)
      else if 0 \<le> v then Some v else None)"

fun nh_worth :: "nat \<Rightarrow> (int, int) node_class \<Rightarrow> int" where
  "nh_worth q (SourceC g n) = (\<Sum>k\<in>{n + 1..100}. weigh nh_weight q (Some k))"
| "nh_worth q (AccumulateC f g n) = n"
| "nh_worth q (SinkC f n) = n"
| "nh_worth q _ = 0"

fun nh_result :: "(int, int) node_class \<Rightarrow> int" where
  "nh_result (SinkC f n) = n"
| "nh_result _ = 0"

definition nh_classes :: "nat \<Rightarrow> (int, int) node_class set" where
  "nh_classes i =
     (if i = 1 \<or> i = 3 then NumSource ` {0..100}
      else if i = 2 then {NumTransform} else if i = 4 then {NumFilter}
      else if i = 6 then {NumDispatch 4} else if i \<in> {11..<15} then NumAccumulate ` {0..}
      else if i = 15 then NumSink ` {0..} else {NoOpTransformC})"

definition nh_ledger :: "nat list \<Rightarrow> nat \<Rightarrow> (int, int, int) ledger" where
  "nh_ledger ord2 i = \<lparr>working_worth = nh_worth (if i = 1 then 0 else 1), ended_worth = nh_result,
     port_of = chan_queue (the (nh_node ord2 i)), classes = nh_classes i\<rparr>"

lemma num_worth [simp]:
  "nh_worth q (NumSource n) = (\<Sum>k\<in>{n + 1..100}. weigh nh_weight q (Some k))" "nh_worth q (NumAccumulate n) = n"
  "nh_worth q (NumSink n) = n" "nh_worth q NumTransform = 0" "nh_worth q NumFilter = 0" "nh_worth q (NumDispatch k) = 0"
  "nh_result (NumSource n) = 0" "nh_result (NumAccumulate n) = 0"
  "nh_result (NumSink n) = n" "nh_result NumTransform = 0" "nh_result NumFilter = 0" "nh_result (NumDispatch k) = 0"
  by (simp_all add: NumSource_def NumSink_def NumTransform_def NumFilter_def NumDispatch_def NumAccumulate_def)

lemma num_bodies:
  "Source_generate (NumSource n) = (Inr (Source_push (if n < 100 then Some (n + 1) else None)), NumSource (if n < 100 then n + 1 else n))"
  "work_popped NumTransform r v = (Inr (case v of Some x \<Rightarrow> [CPush (Some (x * 2)) OutPort, CPop InPort]
     | None \<Rightarrow> [CPush None OutPort, CReturn]), NumTransform)"
  "work_popped NumFilter r v = (Inr (case v of Some x \<Rightarrow> if odd x then [CPush (Some x) OutPort, CPop InPort] else [CPop InPort]
     | None \<Rightarrow> [CPush None OutPort, CReturn]), NumFilter)"
  "work_popped (NumDispatch k) r v = (Inr (case v of Some x \<Rightarrow> [CPush (Some x) (Outputs (nat (x mod 2 ^ 64) mod k)), CPop InPort]
     | None \<Rightarrow> push_eof_all k), NumDispatch k)"
  "work_popped (NumAccumulate n) r v = (Inr (case v of Some x \<Rightarrow> [CPop InPort]
     | None \<Rightarrow> [CPush (Some n) OutPort, CPush None OutPort, CReturn]), NumAccumulate (case v of Some x \<Rightarrow> n + x | None \<Rightarrow> n))"
  "work_popped (NumSink n) r v = (Inr (case v of Some x \<Rightarrow> [CPop InPort] | None \<Rightarrow> [CReturn]), NumSink (case v of Some x \<Rightarrow> n + x | None \<Rightarrow> n))"
  by (auto simp: NumSource_def NumSink_def NumTransform_def NumFilter_def NumDispatch_def NumAccumulate_def
      NumSource_generate_def NumSink_consume_def NumTransform_transform_def NumFilter_filter_def NumDispatch_dispatch_def
      NumAccumulate_consume_def NumAccumulate_generate_def Sink_body_def SimpleTransform_body_def Filter_body_def
      Dispatch_body_def Accumulate_body_def even_iff_mod_2_eq_zero odd_iff_mod_2_eq_one split: option.splits)

lemma chan_queue_Processor [simp]: "chan_queue (Processor tr c nm i) r = None"
  by (cases r) (simp_all add: get_chan.simps Processor_def)

lemma chan_queue_add_outs:
  "outputs p = [] \<Longrightarrow> chan_queue (add_outs q n p) r =
     (case r of Outputs k \<Rightarrow> if k < n then Some (q + k) else None | _ \<Rightarrow> chan_queue p r)"
  by (cases r) (simp_all add: get_chan.simps add_outs_def)

lemma nh_ports:
  "port_of (nh_ledger ord2 1) r = (if r = OutPort then Some 0 else None)"
  "port_of (nh_ledger ord2 2) r = (if r = OutPort then Some 2 else if r = InPort then Some 0 else None)"
  "port_of (nh_ledger ord2 3) r = (if r = OutPort then Some 1 else None)"
  "port_of (nh_ledger ord2 4) r = (if r = OutPort then Some 2 else if r = InPort then Some 1 else None)"
  "port_of (nh_ledger ord2 5) r = (if r = OutPort then Some 7 else if r = InPort then Some 2 else None)"
  "port_of (nh_ledger ord2 6) r = (case r of InPort \<Rightarrow> Some 7 | Outputs k \<Rightarrow> if k < 4 then Some (3 + k) else None | _ \<Rightarrow> None)"
  "i \<in> {7..<11} \<Longrightarrow> port_of (nh_ledger ord2 i) r =
     (if r = OutPort then Some (8 + index_of ord2 i) else if r = InPort then Some (3 + (i - 7)) else None)"
  "i \<in> {11..<15} \<Longrightarrow> port_of (nh_ledger ord2 i) r =
     (if r = OutPort then Some 12 else if r = InPort then Some (8 + (i - 11)) else None)"
  "port_of (nh_ledger ord2 15) r = (if r = InPort then Some 12 else None)"
  by (auto simp: nh_ledger_def nh_node_def chan_queue_add_outs split: chan_ref.splits)

lemma nh_weighs:
  "2 \<le> q \<Longrightarrow> fits nh_weight q (Some x) \<longleftrightarrow> 0 \<le> x"
  "2 \<le> q \<Longrightarrow> 0 \<le> x \<Longrightarrow> weigh nh_weight q (Some x) = x"
  "fits nh_weight 0 (Some x) \<longleftrightarrow> x \<in> {1..100}" "fits nh_weight (Suc 0) (Some x) \<longleftrightarrow> x \<in> {1..100}"
  "x \<in> {1..100} \<Longrightarrow> weigh nh_weight 0 (Some x) = 2 * x"
  "x \<in> {1..100} \<Longrightarrow> weigh nh_weight (Suc 0) (Some x) = (if odd x then x else 0)"
  by (auto simp: fits_def weigh_def nh_weight_def)

lemma nh_remaining:
  "n < 100 \<Longrightarrow> nh_worth q (NumSource n) = weigh nh_weight q (Some (n + 1)) + nh_worth q (NumSource (n + 1))"
proof -
  assume "n < 100"
  then have "{n + 1..100} = insert (n + 1) {n + 1 + 1..100}" by auto
  then show ?thesis by simp
qed

lemma nh_conserving_source:
  assumes "i = 1 \<or> i = 3"
  shows "conserving nh_weight (nh_ledger ord2 i)"
proof -
  obtain q where q: "q = (if i = 1 then 0 else 1)" "port_of (nh_ledger ord2 i) OutPort = Some q"
    "working_worth (nh_ledger ord2 i) = nh_worth q" "ended_worth (nh_ledger ord2 i) = nh_result"
    "classes (nh_ledger ord2 i) = NumSource ` {0..100}"
    using assms nh_ports(1,3)[of ord2 OutPort] by (auto simp: nh_ledger_def nh_classes_def)
  have "settles nh_weight (nh_ledger ord2 i) (Source_generate (NumSource n)) (nh_worth q (NumSource n))" if "n \<in> {0..100}" for n
  proof (cases "n < 100")
    case True
    then have "fits nh_weight q (Some (n + 1))" using that q(1) by (simp add: nh_weighs)
    then show ?thesis
      using True that q nh_remaining[OF True, of q]
      by (auto simp: num_bodies Source_push_def cmds_fit_def port_fits_def body_worth_def port_weight_def simp del: num_worth(1))
  next
    case False
    then show ?thesis using that q by (auto simp: num_bodies Source_push_def cmds_fit_def body_worth_def)
  qed
  then show ?thesis unfolding conserving_def q(3,5) by auto
qed

lemma nh_conserving_transform: "conserving nh_weight (nh_ledger ord2 2)"
proof -
  have L: "working_worth (nh_ledger ord2 2) = nh_worth 1" "ended_worth (nh_ledger ord2 2) = nh_result"
    "classes (nh_ledger ord2 2) = {NumTransform}" by (simp_all add: nh_ledger_def nh_classes_def)
  show ?thesis
    unfolding conserving_def L
    by (auto simp: num_bodies L nh_ports nh_weighs cmds_fit_def port_fits_def body_worth_def port_weight_def split: option.splits)
qed

lemma nh_conserving_filter: "conserving nh_weight (nh_ledger ord2 4)"
proof -
  have L: "working_worth (nh_ledger ord2 4) = nh_worth 1" "ended_worth (nh_ledger ord2 4) = nh_result"
    "classes (nh_ledger ord2 4) = {NumFilter}" by (simp_all add: nh_ledger_def nh_classes_def)
  show ?thesis
    unfolding conserving_def L
    by (auto simp: num_bodies L nh_ports nh_weighs cmds_fit_def port_fits_def body_worth_def port_weight_def split: option.splits)
qed

lemma nh_conserving_noop:
  assumes "i = 5 \<or> i \<in> {7..<11}"
  shows "conserving nh_weight (nh_ledger ord2 i)"
proof -
  have L: "working_worth (nh_ledger ord2 i) = nh_worth 1" "ended_worth (nh_ledger ord2 i) = nh_result"
    "classes (nh_ledger ord2 i) = {NoOpTransformC}" using assms by (auto simp: nh_ledger_def nh_classes_def)
  obtain q q' where q: "port_of (nh_ledger ord2 i) InPort = Some q" "port_of (nh_ledger ord2 i) OutPort = Some q'" "2 \<le> q" "2 \<le> q'"
    using assms nh_ports(5,7) by fastforce
  show ?thesis
    unfolding conserving_def L
    by (auto simp: L q nh_weighs NoOpTransform_body_def cmds_fit_def port_fits_def body_worth_def port_weight_def split: option.splits)
qed

lemma nh_conserving_accumulate:
  assumes "i \<in> {11..<15}"
  shows "conserving nh_weight (nh_ledger ord2 i)"
proof -
  have L: "working_worth (nh_ledger ord2 i) = nh_worth 1" "ended_worth (nh_ledger ord2 i) = nh_result"
    "classes (nh_ledger ord2 i) = NumAccumulate ` {0..}" using assms by (auto simp: nh_ledger_def nh_classes_def)
  show ?thesis
    unfolding conserving_def L using assms
    by (auto simp: num_bodies L nh_ports nh_weighs cmds_fit_def port_fits_def body_worth_def port_weight_def split: option.splits)
qed

lemma nh_conserving_sink: "conserving nh_weight (nh_ledger ord2 15)"
proof -
  have L: "working_worth (nh_ledger ord2 15) = nh_worth 1" "ended_worth (nh_ledger ord2 15) = nh_result"
    "classes (nh_ledger ord2 15) = NumSink ` {0..}" by (simp_all add: nh_ledger_def nh_classes_def)
  show ?thesis
    unfolding conserving_def L
    by (auto simp: num_bodies L nh_ports nh_weighs cmds_fit_def port_fits_def body_worth_def port_weight_def split: option.splits)
qed

lemma nh_conserving_dispatch: "conserving nh_weight (nh_ledger ord2 6)"
proof -
  have L: "working_worth (nh_ledger ord2 6) = nh_worth 1" "ended_worth (nh_ledger ord2 6) = nh_result"
    "classes (nh_ledger ord2 6) = {NumDispatch 4}" by (simp_all add: nh_ledger_def nh_classes_def)
  have eofs: "cmds_weight nh_weight (nh_ledger ord2 6) (map (\<lambda>i. CPush None (Outputs i)) is @ [CReturn]) = 0" for "is"
    by (induction "is") simp_all
  show ?thesis
    unfolding conserving_def L
    by (auto simp: num_bodies L nh_ports nh_weighs cmds_fit_def port_fits_def body_worth_def port_weight_def push_eof_all_def eofs
        split: option.splits)
qed

lemma nh_dom: "dom (nh_node ord2) = {1..<16}"
  by (auto simp: nh_node_def split: if_splits)

lemma nh_node_class: "i \<in> {1..<16} \<Longrightarrow> node_class (the (nh_node ord2 i)) =
    (if i = 1 \<or> i = 3 then NumSource 0 else if i = 2 then NumTransform else if i = 4 then NumFilter
     else if i = 6 then NumDispatch 4 else if i \<in> {11..<15} then NumAccumulate 0 else if i = 15 then NumSink 0
     else NoOpTransformC)"
  by (auto simp: nh_node_def)

lemma nh_accounted:
  assumes "nodes P = nh_node ord2"
  shows "accounted nh_weight (nh_ledger ord2) P"
proof -
  have "conserving nh_weight (nh_ledger ord2 i) \<and> node_class (the (nh_node ord2 i)) \<in> classes (nh_ledger ord2 i)"
    if "i \<in> {1..<16}" for i
  proof -
    consider "i = 1 \<or> i = 3" | "i = 2" | "i = 4" | "i = 5 \<or> i \<in> {7..<11}" | "i = 6" | "i \<in> {11..<15}" | "i = 15"
      using \<open>i \<in> {1..<16}\<close> by fastforce
    then have "conserving nh_weight (nh_ledger ord2 i)"
      by cases (auto intro: nh_conserving_source nh_conserving_transform nh_conserving_filter nh_conserving_noop
          nh_conserving_dispatch nh_conserving_accumulate nh_conserving_sink)
    then show ?thesis using nh_node_class[OF that] by (auto simp: nh_ledger_def nh_classes_def)
  qed
  note all = this
  have "port_of (nh_ledger ord2 i) r = chan_queue (the (nh_node ord2 i)) r" for i r by (simp add: nh_ledger_def)
  moreover have "i \<in> {1..<16}" if "nh_node ord2 i = Some p" for i p using that nh_dom[of ord2] by blast
  ultimately show ?thesis unfolding accounted_def assms using all by (metis option.sel)
qed

lemma nh_sources_worth: "nh_worth 0 (NumSource 0) = 10100" "nh_worth 1 (NumSource 0) = 2500"
proof -
  have "(\<Sum>k\<in>{0 + 1..100}. weigh nh_weight 0 (Some k)) = (\<Sum>k\<in>{1..100}. 2 * k)"
    by (rule sum.cong) (simp_all add: nh_weighs)
  moreover have "(\<Sum>k\<in>{1..100::int}. 2 * k) = 10100" by code_simp
  ultimately show "nh_worth 0 (NumSource 0) = 10100" by simp
  have "(\<Sum>k\<in>{0 + 1..100}. weigh nh_weight 1 (Some k)) = (\<Sum>k\<in>{1..100}. if odd k then k else 0)"
    by (rule sum.cong) (simp_all add: nh_weighs)
  moreover have "(\<Sum>k\<in>{1..100::int}. if odd k then k else 0) = 2500" by code_simp
  ultimately show "nh_worth 1 (NumSource 0) = 2500" by simp
qed

lemma nh_total: "(\<Sum>i\<in>{1..<16}. working_worth (nh_ledger ord2 i) (node_class (the (nh_node ord2 i)))) = 12600"
proof -
  have "(\<Sum>i\<in>{1..<16}. working_worth (nh_ledger ord2 i) (node_class (the (nh_node ord2 i)))) =
      (\<Sum>i\<in>{1..<16::nat}. if i = 1 then 10100 else if i = 3 then 2500 else 0)"
    using nh_sources_worth by (intro sum.cong) (auto simp: nh_node_class nh_ledger_def simp del: num_worth(1))
  then show ?thesis by (simp add: sum.If_cases)
qed

section \<open>Ranges\<close>

lemma nh_weigh_nonneg: "0 \<le> weigh nh_weight q v"
  by (auto simp: weigh_def nh_weight_def split: option.splits)

lemma nh_cmds_nonneg: "0 \<le> cmds_weight nh_weight L cs"
proof (induction cs)
  case (Cons c cs)
  have "0 \<le> port_weight nh_weight L v r" for v r
    using nh_weigh_nonneg by (simp add: port_weight_def split: option.splits)
  then show ?case using Cons by (cases c) simp_all
qed simp

lemma nh_state_nonneg:
  assumes "c \<in> classes (nh_ledger ord2 i)"
  shows "0 \<le> working_worth (nh_ledger ord2 i) c" "0 \<le> ended_worth (nh_ledger ord2 i) c"
  using assms nh_weigh_nonneg
  by (auto simp: nh_ledger_def nh_classes_def intro!: sum_nonneg split: if_splits)

lemma nh_worth_nonneg:
  assumes "steady nh_weight (nh_ledger ord2 i) a p"
  shows "0 \<le> worth nh_weight (nh_ledger ord2 i) p"
proof -
  have "node_class p \<in> classes (nh_ledger ord2 i)" using assms by (simp add: steady_def listed_def)
  note c = nh_state_nonneg[OF this]
  have "0 \<le> body_worth nh_weight (nh_ledger ord2 i) cs (node_class p)" for cs
    using c nh_cmds_nonneg[of "nh_ledger ord2 i" cs] by (auto simp: body_worth_def)
  moreover have "0 \<le> port_weight nh_weight (nh_ledger ord2 i) v r" for v r
    using nh_weigh_nonneg by (simp add: port_weight_def split: option.splits)
  ultimately show ?thesis using c by (simp add: worth_def split: pc.splits)
qed

lemma int_member_le_sum_list: "x \<in> set xs \<Longrightarrow> (\<And>y. 0 \<le> f y) \<Longrightarrow> f x \<le> (\<Sum>y\<leftarrow>xs. f y :: int)"
proof (induction xs)
  case (Cons y xs)
  have "0 \<le> (\<Sum>y\<leftarrow>xs. f y)" using Cons.prems(2) by (induction xs) simp_all
  then show ?case using Cons by (cases "x = y") (simp_all add: add_increasing)
qed simp

text \<open>What a run of the pipeline keeps.\<close>

abbreviation nh_running :: "nat list \<Rightarrow> nat \<Rightarrow> ((int, int) processor, int) net \<Rightarrow> bool" where
  "nh_running ord2 a s \<equiv> fl.undisturbed nh_weight (nh_ledger ord2) a {1..<16} {..<13} 12600 s"

lemma nh_parts:
  assumes "nh_running ord2 a s"
  shows "q < 13 \<Longrightarrow> queue_weight nh_weight q (queues s q) \<le> 12600"
    "procs s i = Some p \<Longrightarrow> worth nh_weight (nh_ledger ord2 i) p \<le> 12600"
proof -
  let ?w = "\<lambda>i. case procs s i of None \<Rightarrow> 0 | Some p \<Rightarrow> worth nh_weight (nh_ledger ord2 i) p"
  have T: "(\<Sum>i\<in>{1..<16}. ?w i) + (\<Sum>q\<in>{..<13}. queue_weight nh_weight q (queues s q)) = 12600"
    and dom: "dom (procs s) = {1..<16}"
    using assms by (simp_all add: fl.undisturbed_def total_def procs_total_def queues_total_def)
  have w0: "0 \<le> ?w i" for i by (auto split: option.splits intro: nh_worth_nonneg[OF undisturbed_node[OF assms]])
  have q0: "0 \<le> queue_weight nh_weight q bq" for q and bq :: "int option bounded_queue"
    unfolding queue_weight_def by (rule sum_list_nonneg) (auto simp: nh_weigh_nonneg)
  have W: "0 \<le> (\<Sum>i\<in>{1..<16}. ?w i)" using w0 by (intro sum_nonneg)
  have Q: "0 \<le> (\<Sum>q\<in>{..<13}. queue_weight nh_weight q (queues s q))" using q0 by (intro sum_nonneg)
  show "queue_weight nh_weight q (queues s q) \<le> 12600" if "q < 13"
    using member_le_sum[of q "{..<13}" "\<lambda>q. queue_weight nh_weight q (queues s q)"] that q0 W T by simp
  show "worth nh_weight (nh_ledger ord2 i) p \<le> 12600" if "procs s i = Some p"
  proof -
    have "i \<in> {1..<16}" using dom that by blast
    then show ?thesis using member_le_sum[of i "{1..<16}" ?w] that w0 Q T by simp
  qed
qed

lemma nh_elements:
  assumes "nh_running ord2 a s" "q < 13" "Some v \<in> set (bq_queue (queues s q))"
  shows "v \<in> {0..12600}"
proof -
  have fit: "fits nh_weight q (Some v)" using assms by (auto simp: fl.undisturbed_def)
  have "weigh nh_weight q (Some v) \<le> queue_weight nh_weight q (queues s q)"
    unfolding queue_weight_def using assms(3) nh_weigh_nonneg by (intro int_member_le_sum_list)
  then have le: "weigh nh_weight q (Some v) \<le> 12600" using nh_parts(1)[OF assms(1,2)] by simp
  consider "q = 0" | "q = Suc 0" | "2 \<le> q" by linarith
  then show ?thesis
  proof cases
    case 3
    then show ?thesis using fit le by (simp add: nh_weighs)
  qed (use fit in \<open>auto simp: nh_weighs\<close>)
qed

lemma nh_states:
  assumes "nh_running ord2 a s" "procs s i = Some p" "pc p = PopWait r k" "node_class p \<in> {NumAccumulate n, NumSink n}"
  shows "n \<in> {0..12600}"
proof -
  have "node_class p \<in> classes (nh_ledger ord2 i)"
    using undisturbed_node[OF assms(1,2)] by (simp add: steady_def listed_def)
  moreover have "worth nh_weight (nh_ledger ord2 i) p = n"
    using assms(3,4) by (auto simp: worth_def nh_ledger_def)
  ultimately show ?thesis
    using nh_parts(2)[OF assms(1,2)] nh_state_nonneg(1)[of "node_class p" ord2 i] assms(4) by (auto simp: nh_ledger_def)
qed

lemma nh_final:
  assumes "nh_running ord2 a s" "(\<Sum>i\<in>{1..<16}. nh_result (node_class (the (procs s i)))) = 12600"
  shows "\<exists>p. procs s 15 = Some p \<and> node_class p = NumSink 12600"
proof -
  have dom: "dom (procs s) = {1..<16}" using assms(1) by (simp add: fl.undisturbed_def)
  have c: "node_class (the (procs s i)) \<in> nh_classes i" if iD: "i \<in> {1..<16}" for i
  proof -
    obtain p where p: "procs s i = Some p" using iD dom by blast
    then show ?thesis
      using undisturbed_node[OF assms(1) p] by (simp add: steady_def listed_def nh_ledger_def)
  qed
  have "nh_result (node_class (the (procs s i))) = 0" if iD: "i \<in> {1..<16} - {15}" for i
  proof -
    have "node_class (the (procs s i)) \<in> nh_classes i" using c iD by blast
    then show ?thesis using iD by (auto simp: nh_classes_def split: if_splits)
  qed
  then have "(\<Sum>i\<in>{1..<16}. nh_result (node_class (the (procs s i)))) = nh_result (node_class (the (procs s 15)))"
    using sum.remove[of "{1..<16}" 15 "\<lambda>i. nh_result (node_class (the (procs s i)))"] by simp
  moreover have "15 \<in> dom (procs s)" unfolding dom by simp
  ultimately show ?thesis using assms(2) c[of 15] by (auto simp: nh_classes_def)
qed

lemma nh_source_ends: "source_ends (NumSource 0)"
proof -
  have "ends_within (Suc m) NumSource_generate (100 - int m)" for m
  proof (induction m)
    case 0
    show ?case by (simp add: NumSource_generate_def)
  next
    case (Suc m)
    have "NumSource_generate (100 - int (Suc m)) = (Inr (Some (100 - int m)), 100 - int m)"
      by (simp add: NumSource_generate_def)
    then show ?case using Suc by (simp only: ends_within.simps) simp
  qed
  from this[of 100] show ?thesis by (auto simp: source_ends_def NumSource_def simp del: ends_within.simps)
qed

section \<open>The result\<close>

text \<open>
  C15: the example computes what it announces. Whatever the iteration orders of the unordered containers,
  \<^verbatim>\<open>main\<close> builds its pipeline without an exception and \<^verbatim>\<open>Run\<close> starts it; the number of steps is bounded
  under every interleaving of the 15 coroutines; no node fails; every number in a queue, every sum
  that an addition leaves in a node is between 0 and 12600, so \<^verbatim>\<open>int\<close> never overflows; and the run
  ends with \<open>5050 * 2 + 2500\<close> in the variable the sink writes.
\<close>

theorem number_handle_result:
  assumes "distinct ord1" "set ord1 = {2, 4}" "distinct ord2" "set ord2 = {7..<11}" "distinct ord3" "set ord3 = {11..<15}"
  shows "\<exists>w P s0 N. number_handle ord1 ord2 ord3 start_world = Returned (w, P) \<and> Run (Some ex) garbage w P = Returned s0 \<and>
    (\<forall>n s. net_steps pending resume s0 n s \<longrightarrow> n \<le> N) \<and>
    (\<forall>s. net_alone pending resume s0 s \<longrightarrow>
      (\<forall>i p. procs s i = Some p \<longrightarrow> \<not> failing (pc p)) \<and>
      (\<forall>q<13. \<forall>v. Some v \<in> set (bq_queue (queues s q)) \<longrightarrow> v \<in> {0..12600}) \<and>
      (\<forall>i p r k n. procs s i = Some p \<longrightarrow> pc p = PopWait r k \<longrightarrow> node_class p \<in> {NumAccumulate n, NumSink n} \<longrightarrow> n \<in> {0..12600}) \<and>
      ((\<nexists>i s'. proc_step pending resume i s s') \<longrightarrow>
        all_ended pending s \<and> (\<exists>p. procs s 15 = Some p \<and> node_class p = NumSink (5050 * 2 + 2500))))"
proof -
  obtain w P where b: "number_handle ord1 ord2 ord3 start_world = Returned (w, P)" "built w P" "nodes P = nh_node ord2"
    "leaves P = {}" "next_queue (wheap w) = 13" "channel_size P = default_channel_size" "bind_abort_channel P"
    "abort_channel P = Channel_null"
    using number_handle_builds[OF assms] by blast
  have inv: "pipe_inv w P" using b(2) by (rule built_pipe_inv)
  obtain s0 where run: "Run (Some ex) garbage w P = Returned s0"
    using b(3,4) nh_dom[of ord2] by (cases "Run_abort_channel garbage w P") (auto simp: Run_def)
  have own: "\<not> chan_bool (abort_channel P)" using b(8) by (simp add: chan_bool_def)
  have node: "node_class p = node_class (the (nh_node ord2 i))" "i \<in> {1..<16}" if "nodes P i = Some p" for i p
    using that b(3) nh_dom[of ord2] by auto
  have ends: "source_ends (node_class p)" if "nodes P i = Some p" for i p
    using nh_source_ends nh_node_class[OF node(2)[OF that], of ord2] node(1)[OF that]
    by (auto simp: NumTransform_def NumFilter_def NumDispatch_def NumAccumulate_def NumSink_def source_ends_def)
  obtain N where N: "\<forall>n s. net_steps pending resume s0 n s \<longrightarrow> n \<le> N"
    using steps_bound_exists[OF inv run] ends by blast
  have "untangled P"
    unfolding untangled_def no_concat_def using node nh_node_class[of _ ord2] by auto
  have running: "nh_running ord2 (next_queue (aheap w)) s" if "net_alone pending resume s0 s" for s
    using run_undisturbed(1)[OF inv run own nh_accounted[OF b(3)] that] by (simp only: b(3,5) nh_dom nh_total)
  have ended: "all_ended pending s \<and> (\<exists>p. procs s 15 = Some p \<and> node_class p = NumSink 12600)"
    if "net_alone pending resume s0 s" "\<nexists>i s'. proc_step pending resume i s s'" for s
  proof -
    note reach = net_alone_reach[OF that(1)]
    have "all_ended pending s"
      using in_order_progress[OF inv \<open>untangled P\<close> b(7) run reach] that(2)
        caps_positive[OF inv built_caps[OF b(2)]] b(6) by (auto simp: default_channel_size_def)
    moreover from this have "(\<Sum>i\<in>{1..<16}. nh_result (node_class (the (procs s i)))) = 12600"
      using conserved_at(3)[OF inv run own nh_accounted[OF b(3)] that(1)] nh_total[of ord2]
      by (simp add: b(3) nh_dom nh_ledger_def)
    ultimately show ?thesis using nh_final[OF running[OF that(1)]] by blast
  qed
  show ?thesis
  proof (rule exI[of _ w], rule exI[of _ P], rule exI[of _ s0], rule exI[of _ N], intro conjI allI impI)
    fix s assume s: "net_alone pending resume s0 s"
    note und = running[OF s]
    show "\<not> failing (pc p)" if "procs s i = Some p" for i p
      using undisturbed_node[OF und that] quiet_not_failing[of nh_weight "nh_ledger ord2 i" "pc p"] by (simp add: steady_def)
    show "v \<in> {0..12600}" if "q < 13" "Some v \<in> set (bq_queue (queues s q))" for q v
      using nh_elements[OF und that] .
    show "n \<in> {0..12600}" if "procs s i = Some p" "pc p = PopWait r k" "node_class p \<in> {NumAccumulate n, NumSink n}" for i p r k n
      using nh_states[OF und that] .
    show "all_ended pending s" "\<exists>p. procs s 15 = Some p \<and> node_class p = NumSink (5050 * 2 + 2500)"
      if "\<nexists>i s'. proc_step pending resume i s s'"
      using ended[OF s that] by auto
  qed (use b(1) run N in auto)
qed

theorem number_handle_result_witness:
  "\<exists>w P s0 N. number_handle [2, 4] [7, 8, 9, 10] [11, 12, 13, 14] start_world = Returned (w, P) \<and>
    Run (Some 0) 0 w P = Returned s0 \<and>
    (\<forall>n s. net_steps pending resume s0 n s \<longrightarrow> n \<le> N) \<and>
    (\<forall>s. net_alone pending resume s0 s \<longrightarrow>
      (\<forall>i p. procs s i = Some p \<longrightarrow> \<not> failing (pc p)) \<and>
      (\<forall>q<13. \<forall>v. Some v \<in> set (bq_queue (queues s q)) \<longrightarrow> v \<in> {0..12600}) \<and>
      (\<forall>i p r k n. procs s i = Some p \<longrightarrow> pc p = PopWait r k \<longrightarrow> node_class p \<in> {NumAccumulate n, NumSink n} \<longrightarrow> n \<in> {0..12600}) \<and>
      ((\<nexists>i s'. proc_step pending resume i s s') \<longrightarrow>
        all_ended pending s \<and> (\<exists>p. procs s 15 = Some p \<and> node_class p = NumSink (5050 * 2 + 2500))))"
  by (rule number_handle_result) auto

text \<open>The pipeline of the example is one where data is conserved.\<close>

theorem pipeline_conserves_data_witness:
  "\<exists>w P s0. number_handle [2, 4] [7, 8, 9, 10] [11, 12, 13, 14] start_world = Returned (w, P) \<and>
    Run (Some 0) 0 w P = Returned s0 \<and>
    (\<Sum>i\<in>dom (nodes P). worth nh_weight (nh_ledger [7, 8, 9, 10] i) (the (procs s0 i))) +
      (\<Sum>q<next_queue (wheap w). \<Sum>v\<leftarrow>bq_queue (queues s0 q). weigh nh_weight q v) = 12600"
proof -
  have "{7, 8, 9, 10} = {7..<11 :: nat}" "{11, 12, 13, 14} = {11..<15 :: nat}" by auto
  then obtain w P where b: "number_handle [2, 4] [7, 8, 9, 10] [11, 12, 13, 14] start_world = Returned (w, P)" "built w P"
    "nodes P = nh_node [7, 8, 9, 10]" "leaves P = {}" "bind_abort_channel P" "abort_channel P = Channel_null"
    using number_handle_builds[of "[2, 4]" "[7, 8, 9, 10]" "[11, 12, 13, 14]"] by auto
  obtain s0 where run: "Run (Some 0) 0 w P = Returned s0"
    using b(3,4) nh_dom[of "[7, 8, 9, 10]"] by (cases "Run_abort_channel 0 w P") (auto simp: Run_def)
  have own: "\<not> chan_bool (abort_channel P)" using b(6) by (simp add: chan_bool_def)
  from pipeline_conserves_data[OF b(2) own run nh_accounted[OF b(3)] net_alone.init]
  show ?thesis using b(1) run nh_total[of "[7, 8, 9, 10]"] by (auto simp: b(3) nh_dom)
qed

end
