(* ===== verification/Hello_World.thy ===== *)
theory Hello_World
  imports Program
begin

text \<open>
  The program \<^verbatim>\<open>example/hello_world.cc\<close>: a source that gives one line and a sink that prints,
  in a pipeline with the default options, so that the abort channel is not bound.
\<close>

declare pending.simps [simp del] resume.simps [simp del] get_chan.simps [simp del] upd_chan.simps [simp del]

section \<open>The nodes\<close>

text \<open>The member \<^verbatim>\<open>eof\<close> of the source, and the lines the sink has written to \<^verbatim>\<open>std::cout\<close>.\<close>

record hello_state =
  eof :: bool
  cout :: "string list"

definition hello_init :: hello_state where
  "hello_init = \<lparr>eof = False, cout = []\<rparr>"

definition MySink_consume :: "hello_state \<Rightarrow> string \<Rightarrow> unit result \<times> hello_state" where
  "MySink_consume s v = (Inr (), s\<lparr>cout := cout s @ [v]\<rparr>)"

definition MySource_generate :: "hello_state \<Rightarrow> string option result \<times> hello_state" where
  "MySource_generate s =
     (if eof s = False then (Inr (Some ''hello world''), s\<lparr>eof := True\<rparr>) else (Inr None, s))"

definition string_traits :: "string traits" where
  "string_traits = \<lparr>tunnel_get_bytes = None, GetBytes = None\<rparr>"

abbreviation MySource :: "hello_state \<Rightarrow> (string, hello_state) node_class" where
  "MySource s \<equiv> SourceC MySource_generate s"

abbreviation MySink :: "hello_state \<Rightarrow> (string, hello_state) node_class" where
  "MySink s \<equiv> SinkC MySink_consume s"

section \<open>The pipeline\<close>

text \<open>\<^verbatim>\<open>main\<close> up to \<^verbatim>\<open>Run\<close>.\<close>

definition hello_world :: "string world \<Rightarrow> (string world \<times> (string, hello_state) pipeline) outcome" where
  "hello_world w =
     (let (source, w) = make_node string_traits (MySource hello_init) ''source'' w
      in then_do (AddSource source default_Pipeline) (\<lambda>_ P.
      let (sink, w) = make_node string_traits (MySink hello_init) ''sink'' w
      in then_do (SetSink sink [1] w P) (\<lambda>_ (w, P). Returned (w, P))))"

definition hello_pipeline1 :: "(string, hello_state) pipeline" where
  "hello_pipeline1 = default_Pipeline\<lparr>nodes := [1 \<mapsto> Processor string_traits (MySource hello_init) ''source'' 1],
     leaves := {1}, sources := [1]\<rparr>"

definition hello_pipeline :: "(string, hello_state) pipeline" where
  "hello_pipeline = default_Pipeline\<lparr>
     nodes := [1 \<mapsto> give_out 0 (Processor string_traits (MySource hello_init) ''source'' 1),
               2 \<mapsto> feed 0 1 (Processor string_traits (MySink hello_init) ''sink'' 2)],
     dags := [1 \<mapsto> {2}], sources := [1], sinks := [2]\<rparr>"

lemma hello_steps:
  "AddSource (Processor string_traits (MySource hello_init) ''source'' 1) default_Pipeline = (Returned 1, hello_pipeline1)"
  "SetSink (Processor string_traits (MySink hello_init) ''sink'' 2) [1] (world_at 3 (heap_of 0)) hello_pipeline1 =
     (Returned 2, world_at 3 (heap_of 1), hello_pipeline)"
  by (auto simp: AddSource_def SetSink_def merge_def register_sink_def build_defs hello_pipeline1_def hello_pipeline_def
      default_Pipeline_def make_queue_heap Processor_def fun_eq_iff simp del: heap_of.simps)

lemma hello_builds:
  "hello_world start_world = Returned (world_at 3 (heap_of 1), hello_pipeline)"
  "built (world_at 3 (heap_of 1)) hello_pipeline"
proof -
  have makes: "make_node string_traits c nm (world_at 1 (heap_of 0)) = (Processor string_traits c nm 1, world_at 2 (heap_of 0))"
    "make_node string_traits c nm (world_at 2 (heap_of 0)) = (Processor string_traits c nm 2, world_at 3 (heap_of 0))"
    for c :: "(string, hello_state) node_class" and nm
    by (simp_all add: make_node_def GenerateId_def)
  show "hello_world start_world = Returned (world_at 3 (heap_of 1), hello_pipeline)"
    unfolding hello_world_def start_world_heap Let_def
    by (simp only: makes hello_steps then_do.simps split_conv)
  have "built (world_at 3 (heap_of 0)) hello_pipeline1"
    using fresh_Processor[of 1 "world_at 3 (heap_of 0)" "MySource hello_init" string_traits "''source''"]
    by (intro built.add_source[OF built_start _ hello_steps(1)[unfolded default_Pipeline_def]]) simp_all
  then show "built (world_at 3 (heap_of 1)) hello_pipeline"
    using fresh_Processor[of 2 "world_at 3 (heap_of 0)" "MySink hello_init" string_traits "''sink''"]
    by (intro built.set_sink[OF _ _ _ _ hello_steps(2)]) (simp_all add: hello_pipeline1_def)
qed

section \<open>What is printed\<close>

text \<open>Every line is worth 1: the one to come, the one under way, and each that was printed.\<close>

definition hello_weight :: "nat \<Rightarrow> string \<Rightarrow> nat option" where
  "hello_weight q v = (if v = ''hello world'' then Some 1 else None)"

definition hello_ledger :: "nat \<Rightarrow> (string, hello_state, nat) ledger" where
  "hello_ledger i =
     \<lparr>working_worth = (\<lambda>c. case c of SourceC g s \<Rightarrow> if eof s then 0 else 1 | SinkC f s \<Rightarrow> length (cout s) | _ \<Rightarrow> 0),
      ended_worth = (\<lambda>c. case c of SinkC f s \<Rightarrow> length (cout s) | _ \<Rightarrow> 0),
      port_of = chan_queue (the (nodes hello_pipeline i)),
      classes = (if i = 1 then range MySource else {MySink s |s. set (cout s) \<subseteq> {''hello world''}})\<rparr>"

lemma hello_nodes:
  "nodes hello_pipeline i = Some p \<Longrightarrow>
     (i = 1 \<and> p = give_out 0 (Processor string_traits (MySource hello_init) ''source'' 1)) \<or>
     (i = 2 \<and> p = feed 0 1 (Processor string_traits (MySink hello_init) ''sink'' 2))"
  by (auto simp: hello_pipeline_def split: if_splits)

lemma hello_setup:
  "dom (nodes hello_pipeline) = {1, 2}" "channel_size hello_pipeline = default_channel_size" "leaves hello_pipeline = {}"
  "abort_channel hello_pipeline = Channel_null" "\<not> bind_abort_channel hello_pipeline"
  by (auto simp: hello_pipeline_def default_Pipeline_def Pipeline_def)

lemma hello_accounted: "accounted hello_weight hello_ledger hello_pipeline"
proof -
  have ports: "port_of (hello_ledger 1) OutPort = Some 0" "port_of (hello_ledger 2) InPort = Some 0"
    by (simp_all add: hello_ledger_def hello_pipeline_def)
  have "conserving hello_weight (hello_ledger 1)"
    using ports(1) by (auto simp: conserving_def hello_ledger_def MySource_generate_def Source_push_def cmds_fit_def
        body_worth_def port_weight_def port_fits_def weigh_def fits_def hello_weight_def split: option.splits)
  moreover have "conserving hello_weight (hello_ledger 2)"
    using ports(2) by (auto simp: conserving_def hello_ledger_def MySink_consume_def Sink_body_def cmds_fit_def
        body_worth_def port_weight_def port_fits_def weigh_def fits_def hello_weight_def split: option.splits if_splits)
  ultimately show ?thesis
    unfolding accounted_def using hello_nodes by (fastforce simp: hello_ledger_def hello_init_def hello_pipeline_def)
qed

lemma hello_facts:
  "untangled hello_pipeline" "0 < channel_size hello_pipeline" "\<not> chan_bool (abort_channel hello_pipeline)"
  "\<forall>i p. nodes hello_pipeline i = Some p \<longrightarrow> harmless (node_class p)"
  "\<forall>i p. nodes hello_pipeline i = Some p \<longrightarrow> source_ends (node_class p)"
proof -
  show "untangled hello_pipeline" using hello_nodes by (fastforce intro: untangledI(1) simp: no_concat_def)
  show "0 < channel_size hello_pipeline" "\<not> chan_bool (abort_channel hello_pipeline)"
    by (simp_all add: hello_setup default_channel_size_def chan_bool_def)
  show "\<forall>i p. nodes hello_pipeline i = Some p \<longrightarrow> harmless (node_class p)"
    using hello_nodes by (fastforce simp: MySource_generate_def MySink_consume_def)
  have "ends_within 2 MySource_generate hello_init" by (simp add: eval_nat_numeral MySource_generate_def hello_init_def)
  then show "\<forall>i p. nodes hello_pipeline i = Some p \<longrightarrow> source_ends (node_class p)"
    using hello_nodes by (fastforce simp: source_ends_def)
qed

lemma hello_run: "\<exists>s0. Run (Some ex) garbage w hello_pipeline = Returned s0"
  using hello_setup(1,3) by (cases "Run_abort_channel garbage w hello_pipeline") (auto simp: Run_def)

lemma hello_total:
  "(\<Sum>i\<in>dom (nodes hello_pipeline). working_worth (hello_ledger i) (node_class (the (nodes hello_pipeline i)))) = 1"
  by (simp add: hello_setup hello_ledger_def hello_pipeline_def hello_init_def)

lemma hello_sink:
  assumes "steady hello_weight (hello_ledger 2) a p"
  shows "\<exists>st. node_class p = MySink st \<and> set (cout st) \<subseteq> {''hello world''} \<and>
    length (cout st) \<le> worth hello_weight (hello_ledger 2) p \<and>
    ended_worth (hello_ledger 2) (node_class p) = length (cout st)"
proof -
  obtain st where "node_class p = MySink st" "set (cout st) \<subseteq> {''hello world''}"
    using assms by (auto simp: steady_def listed_def hello_ledger_def)
  then show ?thesis by (auto simp: worth_def body_worth_def hello_ledger_def split: pc.splits)
qed

section \<open>Properties\<close>

text \<open>
  C17: the example prints its line. \<^verbatim>\<open>main\<close> builds its pipeline without an exception and \<^verbatim>\<open>Run\<close> starts it; the
  number of steps is bounded under every interleaving; no node fails, nothing but the line is ever printed
  and it is printed at most once; and when no coroutine can go on, all have ended and
  the line has been printed.
\<close>

theorem hello_world_prints:
  "\<exists>w P s0 N. hello_world start_world = Returned (w, P) \<and> Run (Some ex) garbage w P = Returned s0 \<and>
    (\<forall>n s. net_steps pending resume s0 n s \<longrightarrow> n \<le> N) \<and>
    (\<forall>s. net_alone pending resume s0 s \<longrightarrow>
      (\<forall>i p. procs s i = Some p \<longrightarrow> \<not> failing (pc p)) \<and>
      (\<exists>p st. procs s 2 = Some p \<and> node_class p = MySink st \<and> cout st \<in> {[], [''hello world'']} \<and>
        ((\<nexists>i s'. proc_step pending resume i s s') \<longrightarrow> all_ended pending s \<and> cout st = [''hello world''])))"
proof -
  let ?w = "world_at 3 (heap_of 1)"
  note b = hello_builds
  obtain s0 where run: "Run (Some ex) garbage ?w hello_pipeline = Returned s0" using hello_run by blast
  have inv: "pipe_inv ?w hello_pipeline" using b(2) by (rule built_pipe_inv)
  obtain N where N: "\<forall>n s. net_steps pending resume s0 n s \<longrightarrow> n \<le> N"
    using steps_bound_exists[OF inv run] hello_facts(5) by blast
  have "(\<forall>i p. procs s i = Some p \<longrightarrow> \<not> failing (pc p)) \<and>
      (\<exists>p st. procs s 2 = Some p \<and> node_class p = MySink st \<and> cout st \<in> {[], [''hello world'']} \<and>
        ((\<nexists>i s'. proc_step pending resume i s s') \<longrightarrow> all_ended pending s \<and> cout st = [''hello world'']))"
    if alone: "net_alone pending resume s0 s" for s
  proof -
    note und = run_undisturbed[OF inv run hello_facts(3) hello_accounted alone, unfolded hello_setup(1)]
    note kept = conserved_at[OF inv run hello_facts(3) hello_accounted alone, unfolded hello_total, unfolded hello_setup(1)]
    have dom: "dom (procs s) = {1, 2}" using und(1) by (simp add: fl.undisturbed_def)
    then obtain p1 p where p: "procs s 1 = Some p1" "procs s 2 = Some p" by blast
    obtain st where st: "node_class p = MySink st" "set (cout st) \<subseteq> {''hello world''}"
      "length (cout st) \<le> worth hello_weight (hello_ledger 2) p" "ended_worth (hello_ledger 2) (node_class p) = length (cout st)"
      using hello_sink[OF undisturbed_node[OF und(1) p(2)]] by blast
    have lines: "cout st = (if length (cout st) = 0 then [] else [''hello world''])" if "length (cout st) \<le> 1"
      using that st(2) by (cases "cout st"; cases "tl (cout st)") auto
    have few: "length (cout st) \<le> 1" using kept(2) st(3) p(2) by simp
    have "all_ended pending s \<and> cout st = [''hello world'']" if stuck: "\<nexists>i s'. proc_step pending resume i s s'"
    proof -
      have ended: "all_ended pending s"
        using undisturbed_stuck[OF inv hello_facts(1) run net_alone_reach[OF alone] _ und(1) stuck]
          caps_positive[OF inv built_caps[OF b(2)] hello_facts(2)] by blast
      moreover have "ended_worth (hello_ledger 1) c = 0" if "c \<in> classes (hello_ledger 1)" for c
        using that by (auto simp: hello_ledger_def)
      moreover have "node_class p1 \<in> classes (hello_ledger 1)"
        using undisturbed_node[OF und(1) p(1)] by (simp add: steady_def listed_def)
      ultimately show ?thesis using kept(3)[OF ended] p st(4) lines[OF few] by (auto split: if_splits)
    qed
    moreover have "\<not> failing (pc p')" if "procs s i = Some p'" for i p'
      using undisturbed_node[OF und(1) that] quiet_not_failing[of hello_weight "hello_ledger i" "pc p'"] by (simp add: steady_def)
    ultimately show ?thesis using p(2) st(1) lines[OF few] by (metis insertI1 insertI2)
  qed
  then show ?thesis using b(1) run N by blast
qed

theorem hello_world_prints_witness:
  "\<exists>w P s0 N. hello_world start_world = Returned (w, P) \<and> Run (Some 0) 0 w P = Returned s0 \<and>
    (\<forall>n s. net_steps pending resume s0 n s \<longrightarrow> n \<le> N) \<and>
    (\<forall>s. net_alone pending resume s0 s \<longrightarrow>
      (\<forall>i p. procs s i = Some p \<longrightarrow> \<not> failing (pc p)) \<and>
      (\<exists>p st. procs s 2 = Some p \<and> node_class p = MySink st \<and> cout st \<in> {[], [''hello world'']} \<and>
        ((\<nexists>i s'. proc_step pending resume i s s') \<longrightarrow> all_ended pending s \<and> cout st = [''hello world''])))"
  by (rule hello_world_prints)

text \<open>The program is one of the pipelines that do their work without a bound abort channel.\<close>

theorem harmless_pipeline_completes_witness:
  "\<exists>s0 :: ((string, hello_state) processor, string) net. Run (Some 0) 0 (world_at 3 (heap_of 1)) hello_pipeline = Returned s0 \<and>
    \<not> bind_abort_channel hello_pipeline \<and>
    (\<exists>N. \<forall>n s. net_steps pending resume s0 n s \<longrightarrow> n \<le> N) \<and>
    (\<forall>s. net_alone pending resume s0 s \<and> (\<nexists>i s'. proc_step pending resume i s s') \<longrightarrow>
      (\<forall>i p. procs s i = Some p \<longrightarrow> pc p = Finished None) \<and> (\<forall>q. bq_queue (queues s q) = []))"
proof -
  obtain s0 where run: "Run (Some 0) 0 (world_at 3 (heap_of 1)) hello_pipeline = Returned s0" using hello_run by blast
  from harmless_pipeline_completes[OF hello_builds(2) hello_facts(1-3) run hello_facts(4,5)] hello_setup(5) run
  show ?thesis by blast
qed

end
