(* ===== verification/Embed_Pipeline.thy ===== *)
theory Embed_Pipeline
  imports Hello_World
begin

text \<open>
  The program \<^verbatim>\<open>example/embed_pipeline.cc\<close>: a transform whose \<^verbatim>\<open>work()\<close> builds and runs a pipeline of its own
  on its two ports. The inner pipeline starts with a \<^verbatim>\<open>ChannelSource\<close>, forks into three and ends with a
  \<^verbatim>\<open>ChannelSink\<close>, so every line is printed three times.
\<close>

declare pending.simps [simp del] resume.simps [simp del] get_chan.simps [simp del] upd_chan.simps [simp del]

section \<open>The nodes\<close>

definition embed_MySink_consume :: "hello_state \<Rightarrow> string \<Rightarrow> unit result \<times> hello_state" where
  "embed_MySink_consume s v = (Inr (), s\<lparr>cout := cout s @ [v]\<rparr>)"

definition embed_MySource_generate :: "hello_state \<Rightarrow> string option result \<times> hello_state" where
  "embed_MySource_generate s =
     (if eof s = False then (Inr (Some ''hello world''), s\<lparr>eof := True\<rparr>) else (Inr None, s))"

abbreviation ESource :: "hello_state \<Rightarrow> (string, hello_state) node_class" where
  "ESource s \<equiv> SourceC embed_MySource_generate s"

abbreviation ESink :: "hello_state \<Rightarrow> (string, hello_state) node_class" where
  "ESink s \<equiv> SinkC embed_MySink_consume s"

section \<open>The transform\<close>

text \<open>
  \<^verbatim>\<open>MyTransform::work()\<close> up to \<^verbatim>\<open>Run\<close>: the arguments are the two ports and the order in which
  \<^verbatim>\<open>SetSink\<close> sees the leaves.
\<close>

definition MyTransform_build :: "nat list \<Rightarrow> chan \<Rightarrow> chan \<Rightarrow> string world \<Rightarrow>
    (string world \<times> (string, hello_state) pipeline) outcome" where
  "MyTransform_build ord input_channel output_channel w =
     (let (source, w) = make_node string_traits ChannelSourceC ''channel_source'' w;
          source = SetInputChannel input_channel source
      in then_do (AddSource source default_Pipeline) (\<lambda>nid P.
      then_do (ForkFrom string_traits nid 3 w P) (\<lambda>_ (w, P).
      let (sink, w) = make_node string_traits ChannelSinkC ''channel_sink'' w;
          sink = SetOutputChannel output_channel sink
      in then_do (SetSink sink ord w P) (\<lambda>_ (w, P). Returned (w, P)))))"

text \<open>The loop over the result of \<^verbatim>\<open>Run\<close>.\<close>

fun MyTransform_handle :: "work_result list \<Rightarrow> unit outcome" where
  "MyTransform_handle [] = Returned ()"
| "MyTransform_handle (each # rs) =
     (case result_try each of Some e \<Rightarrow> Thrown e | None \<Rightarrow> MyTransform_handle rs)"

section \<open>The program\<close>

text \<open>
  \<^verbatim>\<open>main\<close> up to \<^verbatim>\<open>Run\<close>. The builder does not look at the class of a transform; the class of the library with
  no \<^verbatim>\<open>work()\<close> of its own stands for \<^verbatim>\<open>MyTransform\<close>, whose \<^verbatim>\<open>work()\<close> is above.
\<close>

definition embed_pipeline :: "string world \<Rightarrow> (string world \<times> (string, hello_state) pipeline) outcome" where
  "embed_pipeline w =
     (let (source, w) = make_node string_traits (ESource hello_init) ''source'' w
      in then_do (AddSource source default_Pipeline) (\<lambda>nid P.
      let (transform, w) = make_node string_traits ProcessorC ''transform'' w
      in then_do (AddTransform nid transform w P) (\<lambda>_ (w, P).
      let (sink, w) = make_node string_traits (ESink hello_init) ''sink'' w
      in then_do (SetSink sink [2] w P) (\<lambda>_ (w, P). Returned (w, P)))))"

text \<open>
  \<^verbatim>\<open>co_await Run()\<close> inside the coroutine of node \<open>i\<close>: that coroutine waits, and those of the inner
  pipeline run beside the others of the outer one, on one set of queues. A coroutine that has
  not started yet changes nothing, so the inner ones are there from the beginning.
\<close>

definition run_inside :: "nat \<Rightarrow> ('p, 'v) net \<Rightarrow> ('p, 'v) net \<Rightarrow> ('p, 'v) net" where
  "run_inside i out_net in_net =
     \<lparr>procs = (procs out_net)(i := None) ++ procs in_net, queues = queues in_net, aborts = aborts in_net\<rparr>"

section \<open>What is built\<close>

definition embed_first :: "(string, hello_state) pipeline" where
  "embed_first = default_Pipeline\<lparr>nodes := [1 \<mapsto> Processor string_traits (ESource hello_init) ''source'' 1],
     leaves := {1}, sources := [1]\<rparr>"

definition embed_second :: "(string, hello_state) pipeline" where
  "embed_second = default_Pipeline\<lparr>
     nodes := [1 \<mapsto> give_out 0 (Processor string_traits (ESource hello_init) ''source'' 1),
               2 \<mapsto> feed 0 1 (Processor string_traits ProcessorC ''transform'' 2)],
     leaves := {2}, dags := [1 \<mapsto> {2}], sources := [1]\<rparr>"

definition embed_outer :: "(string, hello_state) pipeline" where
  "embed_outer = default_Pipeline\<lparr>
     nodes := [1 \<mapsto> give_out 0 (Processor string_traits (ESource hello_init) ''source'' 1),
               2 \<mapsto> give_out 1 (feed 0 1 (Processor string_traits ProcessorC ''transform'' 2)),
               3 \<mapsto> feed 1 1 (Processor string_traits (ESink hello_init) ''sink'' 3)],
     dags := [1 \<mapsto> {2}, 2 \<mapsto> {3}], sources := [1], sinks := [3]\<rparr>"

lemma embed_makes:
  "make_node string_traits c nm (world_at 1 h) = (Processor string_traits c nm 1, world_at 2 h)"
  "make_node string_traits c nm (world_at 2 h) = (Processor string_traits c nm 2, world_at 3 h)"
  "make_node string_traits c nm (world_at 3 h) = (Processor string_traits c nm 3, world_at 4 h)"
  by (simp_all add: make_node_def GenerateId_def)

lemma embed_steps:
  "AddSource (Processor string_traits (ESource hello_init) ''source'' 1) default_Pipeline = (Returned 1, embed_first)"
  "AddTransform 1 (Processor string_traits ProcessorC ''transform'' 2) (world_at 3 (heap_of 0)) embed_first =
     (Returned 2, world_at 3 (heap_of 1), embed_second)"
  "SetSink (Processor string_traits (ESink hello_init) ''sink'' 3) [2] (world_at 4 (heap_of 1)) embed_second =
     (Returned 3, world_at 4 (heap_of 2), embed_outer)"
  by (auto simp: AddSource_def AddTransform_def SetSink_def merge_def register_sink_def build_defs embed_first_def
      embed_second_def embed_outer_def default_Pipeline_def make_queue_heap Processor_def fun_eq_iff numeral_2_eq_2
      simp del: heap_of.simps)

lemma embed_pipeline_builds: "embed_pipeline start_world = Returned (world_at 4 (heap_of 2), embed_outer)"
  unfolding embed_pipeline_def start_world_heap Let_def
  by (simp only: embed_makes embed_steps then_do.simps split_conv)

text \<open>The states of the process while \<^verbatim>\<open>MyTransform\<close> builds; \<open>ah\<close> holds the abort channels there are.\<close>

abbreviation inner_world :: "int qheap \<Rightarrow> nat \<Rightarrow> string qheap \<Rightarrow> string world" where
  "inner_world ah n h \<equiv> \<lparr>next_id = n, wheap = h, aheap = ah\<rparr>"

lemma inner_makes:
  "make_node string_traits c nm (inner_world ah 4 h) = (Processor string_traits c nm 4, inner_world ah 5 h)"
  "make_node string_traits c nm (inner_world ah 9 h) = (Processor string_traits c nm 9, inner_world ah 10 h)"
  by (simp_all add: make_node_def GenerateId_def)

abbreviation embed_source :: "(string, hello_state) processor" where
  "embed_source \<equiv> (Processor string_traits ChannelSourceC ''channel_source'' 4)\<lparr>input_port := Channel_shared 0\<rparr>"

abbreviation embed_sink :: "(string, hello_state) processor" where
  "embed_sink \<equiv> (Processor string_traits ChannelSinkC ''channel_sink'' 9)\<lparr>output_port := Channel_shared 1\<rparr>"

abbreviation embed_fork :: "(string, hello_state) processor" where
  "embed_fork \<equiv> Processor string_traits (ForkC 3) ''fork'' 5"

definition embed_inner1 :: "(string, hello_state) pipeline" where
  "embed_inner1 = default_Pipeline\<lparr>nodes := [4 \<mapsto> embed_source], leaves := {4}, sources := [4]\<rparr>"

lemma embed_source_step: "AddSource embed_source default_Pipeline = (Returned 4, embed_inner1)"
  by (simp add: AddSource_def build_defs embed_inner1_def default_Pipeline_def Processor_def)

lemma embed_fork_step:
  "\<exists>P. ForkFrom string_traits 4 3 (inner_world ah 5 (heap_of 2)) embed_inner1 = (Returned {6..<9}, inner_world ah 9 (heap_of 6), P) \<and>
    (\<forall>i. nodes P i = (if i \<in> {6..<9} then Some (noop string_traits (2 + (i - 6)) i)
       else if i = 4 then Some (give_out 5 embed_source)
       else if i = 5 then Some (feed 5 1 (add_outs 2 3 embed_fork)) else None)) \<and>
    leaves P = {6..<9} \<and> channel_size P = default_channel_size \<and> \<not> bind_abort_channel P \<and> abort_channel P = Channel_null"
proof -
  let ?w = "inner_world ah 6 (heap_of 2) :: string world"
  have "\<forall>i \<in> {next_id ?w..<next_id ?w + 3}. nodes embed_inner1 i = None" by (auto simp: embed_inner1_def)
  then obtain w P where f: "fan_out string_traits 3 embed_fork {} ?w embed_inner1 = (add_outs 2 3 embed_fork, {6..<9}, w, P)"
    "leaves P = leaves embed_inner1" "same_setup embed_inner1 P"
    and n: "\<And>i. nodes P i = (if i \<in> {6..<9} then Some (noop string_traits (2 + (i - 6)) i) else nodes embed_inner1 i)"
    using fan_out_spec[of ?w 3 embed_inner1 string_traits embed_fork "{}"] by auto
  have csize: "channel_size embed_inner1 = default_channel_size"
    by (simp add: embed_inner1_def default_Pipeline_def Pipeline_def)
  have w: "w = inner_world ah 9 (heap_of 5)"
    using fan_out_world[of 6 3 embed_inner1 string_traits embed_fork "{}" 2 ah] csize f(1) by simp
  have l: "leaves embed_inner1 = {4}" "nodes embed_inner1 5 = None" "nodes embed_inner1 4 = Some embed_source"
    by (simp_all add: embed_inner1_def)
  have q: "snd (make_queue default_channel_size (heap_of 5 :: string qheap)) = heap_of 6" by (rule heap_grows) simp
  have P: "channel_size P = default_channel_size" using f(3) csize by (simp add: same_setup_def)
  let ?P = "add_edge 4 5 (P\<lparr>nodes := (nodes P)(4 \<mapsto> give_out 5 embed_source)\<rparr>)"
  let ?P' = "?P\<lparr>leaves := {6..<9}, nodes := (nodes ?P)(5 \<mapsto> feed 5 1 (add_outs 2 3 embed_fork))\<rparr>"
  have "attach_split 4 (add_outs 2 3 embed_fork) {6..<9} w P = (Returned {6..<9}, inner_world ah 9 (heap_of 6), ?P')"
    using f(2) l n P q
    by (simp add: w attach_split_def link_def connect_queue_def Let_def split_beta map_insert_def GetId_def add_edge_def
        feed_def SetInputPort_def)
  then have "ForkFrom string_traits 4 3 (inner_world ah 5 (heap_of 2)) embed_inner1 = (Returned {6..<9}, inner_world ah 9 (heap_of 6), ?P')"
    using f(1) l(1) by (simp add: ForkFrom_def leaf_check_def make_node_def GenerateId_def)
  then show ?thesis
    using n l f(3) P by (intro exI[of _ ?P']) (auto simp: add_edge_def same_setup_def embed_inner1_def default_Pipeline_def Pipeline_def)
qed

section \<open>The network\<close>

definition embed_node :: "nat \<Rightarrow> (string, hello_state) processor option" where
  "embed_node i =
     (if i = 1 then Some (give_out 0 (Processor string_traits (ESource hello_init) ''source'' 1))
      else if i = 3 then Some (feed 1 1 (Processor string_traits (ESink hello_init) ''sink'' 3))
      else if i = 4 then Some (give_out 5 embed_source)
      else if i = 5 then Some (feed 5 1 (add_outs 2 3 embed_fork))
      else if i \<in> {6..<9} then Some (give_out 6 (noop string_traits (2 + (i - 6)) i))
      else if i = 9 then Some (feed 6 3 embed_sink)
      else None)"

lemma embed_builds:
  assumes "distinct ord" "set ord = {6..<9}"
  shows "\<exists>P s. MyTransform_build ord (input_port (the (nodes embed_outer 2))) (output_port (the (nodes embed_outer 2)))
      (inner_world ah 4 (heap_of 2)) = Returned (inner_world ah 10 (heap_of 7), P) \<and>
    Run (Some ex) garbage (inner_world ah 10 (heap_of 7)) P = Returned s \<and>
    (\<forall>i. procs s i = (if i \<in> {1, 2, 3} then None else embed_node i)) \<and> queues s = queue_at (heap_of 7) \<and>
    bq_queue (aborts s (next_queue ah)) = []"
proof -
  obtain P where f: "ForkFrom string_traits 4 3 (inner_world ah 5 (heap_of 2)) embed_inner1 = (Returned {6..<9}, inner_world ah 9 (heap_of 6), P)"
    "leaves P = {6..<9}" "channel_size P = default_channel_size" "\<not> bind_abort_channel P" "abort_channel P = Channel_null"
    and n: "\<And>i. nodes P i = (if i \<in> {6..<9} then Some (noop string_traits (2 + (i - 6)) i)
       else if i = 4 then Some (give_out 5 embed_source)
       else if i = 5 then Some (feed 5 1 (add_outs 2 3 embed_fork)) else None)"
    using embed_fork_step[of ah] by auto
  have gid: "GetId embed_sink = 9" by (simp add: GetId_def)
  have pre: "set ord = leaves P" "leaves P \<subseteq> dom (nodes P)" "leaves P \<noteq> {}" "nodes P (GetId embed_sink) = None"
    using assms(2) f(2) n gid by auto
  have len: "length ord = 3" using distinct_card[OF assms(1)] assms(2) by simp
  have q: "snd (make_queue default_channel_size (heap_of 6 :: string qheap)) = heap_of 7" by (rule heap_grows) simp
  obtain P' where s: "SetSink embed_sink ord (inner_world ah 10 (heap_of 6)) P = (Returned 9, inner_world ah 10 (heap_of 7), P')"
    "leaves P' = {}" "\<not> bind_abort_channel P'" "abort_channel P' = Channel_null"
    and n': "nodes P' = (\<lambda>i. if i = 9 then Some (feed 6 3 embed_sink)
       else if i \<in> {6..<9} then map_option (give_out 6) (nodes P i) else nodes P i)"
    using SetSink_spec[OF assms(1) pre, of "inner_world ah 10 (heap_of 6)"] f(2-5) len q gid by (auto cong: if_cong)
  have ports: "input_port (the (nodes embed_outer 2)) = Channel_shared 0" "output_port (the (nodes embed_outer 2)) = Channel_shared 1"
    by (simp_all add: embed_outer_def feed_def SetOutputPort_def)
  have "MyTransform_build ord (Channel_shared 0) (Channel_shared 1) (inner_world ah 4 (heap_of 2)) = Returned (inner_world ah 10 (heap_of 7), P')"
    unfolding MyTransform_build_def Let_def
    by (simp only: inner_makes SetInputChannel_def SetOutputChannel_def embed_source_step f(1) s(1) then_do.simps split_conv)
  moreover have nodes: "nodes P' i = (if i \<in> {1, 2, 3} then None else embed_node i)" for i
    by (auto simp: n' n embed_node_def)
  moreover have "dom (nodes P') \<noteq> {}" using nodes[of 4] by (auto simp: embed_node_def)
  ultimately show ?thesis
    unfolding ports using s(2-4)
    by (cases "Run_abort_channel garbage (inner_world ah 10 (heap_of 7)) P'")
      (auto simp: Run_def Run_abort_channel_def Run_bind_def Channel_sized_def make_queue_def BoundedQueue_def chan_bool_def Let_def option.map_ident split: if_splits prod.splits)
qed

lemma embed_dom: "dom embed_node = {1, 3, 4, 5, 6, 7, 8, 9}"
  by (auto simp: embed_node_def split: if_splits)

lemma embed_members: "embed_node i = Some p \<Longrightarrow> i \<in> {1, 3, 4, 5, 6, 7, 8, 9} \<and> p = the (embed_node i)"
  using embed_dom by (metis domI option.sel)

lemma embed_classes [simp]:
  "node_class (the (embed_node 1)) = ESource hello_init" "node_class (the (embed_node 3)) = ESink hello_init"
  "node_class (the (embed_node 4)) = ChannelSourceC" "node_class (the (embed_node 5)) = ForkC 3"
  "node_class (the (embed_node 6)) = NoOpTransformC" "node_class (the (embed_node 7)) = NoOpTransformC"
  "node_class (the (embed_node 8)) = NoOpTransformC" "node_class (the (embed_node 9)) = ChannelSinkC"
  by (simp_all add: embed_node_def)

lemma embed_chan [simp]:
  "chan_queue (the (embed_node 1)) r = (if r = OutPort then Some 0 else None)"
  "chan_queue (the (embed_node 3)) r = (if r = InPort then Some 1 else None)"
  "chan_queue (the (embed_node 4)) r = (if r = InPort then Some 0 else if r = OutPort then Some 5 else None)"
  "chan_queue (the (embed_node 5)) r =
     (if r = InPort then Some 5 else if r = Outputs 0 then Some 2 else if r = Outputs 1 then Some 3
      else if r = Outputs 2 then Some 4 else None)"
  "chan_queue (the (embed_node 6)) r = (if r = InPort then Some 2 else if r = OutPort then Some 6 else None)"
  "chan_queue (the (embed_node 7)) r = (if r = InPort then Some 3 else if r = OutPort then Some 6 else None)"
  "chan_queue (the (embed_node 8)) r = (if r = InPort then Some 4 else if r = OutPort then Some 6 else None)"
  "chan_queue (the (embed_node 9)) r = (if r = InPort then Some 6 else if r = OutPort then Some 1 else None)"
  by (cases r; auto simp: embed_node_def get_chan.simps feed_def add_outs_def Processor_def SetOutputPort_def upt_rec nth_Cons
      split: nat.splits)+

lemma embed_fields [simp]:
  "input_count (the (embed_node 1)) = 0" "input_count (the (embed_node 3)) = 1" "input_count (the (embed_node 4)) = 1"
  "input_count (the (embed_node 5)) = 1" "input_count (the (embed_node 6)) = 1" "input_count (the (embed_node 7)) = 1"
  "input_count (the (embed_node 8)) = 1" "input_count (the (embed_node 9)) = 3"
  "i \<in> {1, 3, 4, 6, 7, 8, 9} \<Longrightarrow> outputs (the (embed_node i)) = []" "length (outputs (the (embed_node 5))) = 3"
  "i \<in> {1, 3, 4, 5, 6, 7, 8, 9} \<Longrightarrow>
     inputs (the (embed_node i)) = [] \<and> pc (the (embed_node i)) = Created \<and> ch_queue (abort_port (the (embed_node i))) = None"
  by (auto simp: embed_node_def feed_def Processor_def SetOutputPort_def add_outs_def)

lemmas embed_simps [simp] = embed_classes[unfolded One_nat_def] embed_chan[unfolded One_nat_def] embed_fields[unfolded One_nat_def]

lemma three: "{..<3 :: nat} = {0, 1, 2}"
  by auto

lemma in_three: "k < 3 \<Longrightarrow> k = 0 \<or> k = 1 \<or> k = (2 :: nat)"
  by auto

lemma embed_owed:
  "working_reads (the (embed_node 1)) q = 0" "working_writes (the (embed_node 1)) q = (if q = 0 then 1 else 0)"
  "working_reads (the (embed_node 3)) q = (if q = 1 then 1 else 0)" "working_writes (the (embed_node 3)) q = 0"
  "working_reads (the (embed_node 4)) q = (if q = 0 then 1 else 0)" "working_writes (the (embed_node 4)) q = (if q = 5 then 1 else 0)"
  "working_reads (the (embed_node 5)) q = (if q = 5 then 1 else 0)"
  "working_writes (the (embed_node 5)) q = (if q = 2 \<or> q = 3 \<or> q = 4 then 1 else 0)"
  "working_reads (the (embed_node 6)) q = (if q = 2 then 1 else 0)" "working_writes (the (embed_node 6)) q = (if q = 6 then 1 else 0)"
  "working_reads (the (embed_node 7)) q = (if q = 3 then 1 else 0)" "working_writes (the (embed_node 7)) q = (if q = 6 then 1 else 0)"
  "working_reads (the (embed_node 8)) q = (if q = 4 then 1 else 0)" "working_writes (the (embed_node 8)) q = (if q = 6 then 1 else 0)"
  "working_reads (the (embed_node 9)) q = (if q = 6 then 3 else 0)" "working_writes (the (embed_node 9)) q = (if q = 1 then 1 else 0)"
  by (simp_all add: working_reads_def working_writes_def three)

lemma embed_proc_inv:
  assumes "embed_node i = Some p"
  shows "proc_inv p"
proof -
  have "i \<in> {1, 3, 4, 5, 6, 7, 8, 9}" and p: "p = the (embed_node i)" using embed_members[OF assms] by blast+
  then show ?thesis unfolding p
    by (auto simp: proc_inv_def shape_def ins_open_def outs_open_def dest!: in_three)
qed

lemma three_refs: "set (map Outputs [0..<3]) = {Outputs 0, Outputs 1, Outputs 2}"
  by (simp add: upt_rec numeral_2_eq_2)

lemma embed_sets [simp]:
  "reads_q (the (embed_node (Suc 0))) = {}" "writes_q (the (embed_node (Suc 0))) = {0}"
  "reads_q (the (embed_node 3)) = {1}" "writes_q (the (embed_node 3)) = {}"
  "reads_q (the (embed_node 4)) = {0}" "writes_q (the (embed_node 4)) = {5}"
  "reads_q (the (embed_node 5)) = {5}" "writes_q (the (embed_node 5)) = {2, 3, 4}"
  "reads_q (the (embed_node 6)) = {2}" "writes_q (the (embed_node 6)) = {6}"
  "reads_q (the (embed_node 7)) = {3}" "writes_q (the (embed_node 7)) = {6}"
  "reads_q (the (embed_node 8)) = {4}" "writes_q (the (embed_node 8)) = {6}"
  "reads_q (the (embed_node 9)) = {6}" "writes_q (the (embed_node 9)) = {1}"
  using three_refs by (simp_all add: reads_q_def writes_q_def) blast

definition embed_reads :: "nat \<Rightarrow> nat set" where
  "embed_reads i = (case embed_node i of None \<Rightarrow> {} | Some p \<Rightarrow> reads_q p)"

definition embed_writes :: "nat \<Rightarrow> nat set" where
  "embed_writes i = (case embed_node i of None \<Rightarrow> {} | Some p \<Rightarrow> writes_q p)"

lemma embed_used: "embed_reads i \<union> embed_writes i \<subseteq> {..<7}"
proof (cases "embed_node i")
  case (Some p)
  then have "reads_q (the (embed_node i)) \<union> writes_q (the (embed_node i)) \<subseteq> {..<7}" using embed_members by fastforce
  then show ?thesis using Some by (simp add: embed_reads_def embed_writes_def)
qed (simp add: embed_reads_def embed_writes_def)

lemma embed_balanced:
  "(\<Sum>i\<in>dom embed_node. working_writes (the (embed_node i)) q) = (\<Sum>i\<in>dom embed_node. working_reads (the (embed_node i)) q)"
  by (simp add: embed_dom embed_owed embed_owed[unfolded One_nat_def])

lemma embed_net_ok:
  assumes "procs s = embed_node" "queues s = queue_at (heap_of 7)"
  shows "co.net_ok (dom embed_node) embed_reads embed_writes (\<lambda>q. bq_capacity (queue_at (heap_of 7 :: string qheap) q)) s"
    "co.tail_ok s"
proof -
  have created: "pc p = Created" if "embed_node i = Some p" for i p using embed_members[OF that] by auto
  have of_node: "co.reads_of s q i = (case embed_node i of None \<Rightarrow> 0 | Some p \<Rightarrow> working_reads p q)"
    "co.writes_of s q i = (case embed_node i of None \<Rightarrow> 0 | Some p \<Rightarrow> working_writes p q)" for q i
    using created by (auto simp: co.reads_of_def co.writes_of_def assms(1) to_read_def to_write_def split: option.splits)
  have pos: "0 < working_reads p q \<Longrightarrow> q \<in> reads_q p" "0 < working_writes p q \<Longrightarrow> q \<in> writes_q p"
    if "embed_node i = Some p" for i p q
    using embed_members[OF that] by (auto simp: embed_owed embed_owed[unfolded One_nat_def] split: if_splits)
  have "0 < co.reads_of s q i \<Longrightarrow> q \<in> embed_reads i" "0 < co.writes_of s q i \<Longrightarrow> q \<in> embed_writes i" for q i
    using pos by (auto simp: of_node embed_reads_def embed_writes_def split: option.splits)
  moreover have "(\<Sum>i\<in>dom embed_node. co.writes_of s q i) = (\<Sum>i\<in>dom embed_node. co.reads_of s q i)" for q
  proof -
    have "(\<Sum>i\<in>dom embed_node. co.writes_of s q i) = (\<Sum>i\<in>dom embed_node. working_writes (the (embed_node i)) q)"
      "(\<Sum>i\<in>dom embed_node. co.reads_of s q i) = (\<Sum>i\<in>dom embed_node. working_reads (the (embed_node i)) q)"
      by (auto simp: of_node intro!: sum.cong)
    then show ?thesis using embed_balanced[of q] by simp
  qed
  ultimately show "co.net_ok (dom embed_node) embed_reads embed_writes (\<lambda>q. bq_capacity (queue_at (heap_of 7 :: string qheap) q)) s"
    unfolding co.net_ok_def co.balanced_def assms using embed_proc_inv by (simp add: heap_of_bounds(1))
  show "co.tail_ok s" by (simp add: co.tail_ok_def assms)
qed

section \<open>The lines\<close>

text \<open>A line is worth 3 before the fork and 1 after it.\<close>

definition embed_weight :: "nat \<Rightarrow> string \<Rightarrow> nat option" where
  "embed_weight q v = (if v = ''hello world'' then Some (if q \<in> {0, 5} then 3 else 1) else None)"

definition embed_ledger :: "nat \<Rightarrow> (string, hello_state, nat) ledger" where
  "embed_ledger i =
     \<lparr>working_worth = (\<lambda>c. case c of SourceC g s \<Rightarrow> if eof s then 0 else 3 | SinkC f s \<Rightarrow> length (cout s) | _ \<Rightarrow> 0),
      ended_worth = (\<lambda>c. case c of SinkC f s \<Rightarrow> length (cout s) | _ \<Rightarrow> 0),
      port_of = chan_queue (the (embed_node i)),
      classes = (if i = 1 then range ESource else if i = 3 then {ESink s |s. set (cout s) \<subseteq> {''hello world''}}
        else {node_class (the (embed_node i))})\<rparr>"

lemma embed_conserving:
  assumes "i \<in> {1, 3, 4, 5, 6, 7, 8, 9}"
  shows "conserving embed_weight (embed_ledger i)"
proof -
  note defs = conserving_def embed_ledger_def cmds_fit_def body_worth_def port_weight_def port_fits_def weigh_def fits_def
    embed_weight_def
  have "conserving embed_weight (embed_ledger (Suc 0))"
    by (auto simp: defs embed_MySource_generate_def Source_push_def split: option.splits)
  moreover have "conserving embed_weight (embed_ledger 3)"
    by (auto simp: defs embed_MySink_consume_def Sink_body_def split: option.splits if_splits)
  moreover have "conserving embed_weight (embed_ledger 4)"
    by (auto simp: defs ChannelSource_body_def Source_push_def split: option.splits if_splits)
  moreover have "conserving embed_weight (embed_ledger 5)"
    by (auto simp: defs Fork_body_def push_eof_all_def upt_rec split: option.splits if_splits)
  moreover have "conserving embed_weight (embed_ledger 6)" "conserving embed_weight (embed_ledger 7)"
    "conserving embed_weight (embed_ledger 8)"
    by (auto simp: defs NoOpTransform_body_def split: option.splits if_splits)
  moreover have "conserving embed_weight (embed_ledger 9)"
    by (auto simp: defs ChannelSink_body_def split: option.splits if_splits)
  ultimately show ?thesis using assms by auto
qed

lemma embed_undisturbed:
  assumes "procs s = embed_node" "queues s = queue_at (heap_of 7)" "bq_queue (aborts s a) = []"
  shows "fl.undisturbed embed_weight embed_ledger a (dom embed_node) {..<7} 3 s"
proof -
  have node: "conserving embed_weight (embed_ledger i) \<and> steady embed_weight (embed_ledger i) a p \<and>
      worth embed_weight (embed_ledger i) p = working_worth (embed_ledger i) (node_class (the (embed_node i)))"
    if "embed_node i = Some p" for i p
  proof -
    have p: "i \<in> {1, 3, 4, 5, 6, 7, 8, 9}" "p = the (embed_node i)" using embed_members[OF that] by blast+
    have "listed (embed_ledger i) a p" unfolding p(2) using p(1) by (auto simp: listed_def embed_ledger_def hello_init_def)
    moreover have "pc p = Created" unfolding p(2) using p(1) by auto
    ultimately show ?thesis
      using embed_conserving[OF p(1)] embed_proc_inv[OF that] p(2) by (simp add: steady_def worth_def)
  qed
  have "procs_total (\<lambda>i. worth embed_weight (embed_ledger i)) (dom embed_node) embed_node =
      (\<Sum>i\<in>dom embed_node. working_worth (embed_ledger i) (node_class (the (embed_node i))))"
    unfolding procs_total_def using node by (intro sum.cong) auto
  also have "\<dots> = 3" by (simp add: embed_dom embed_ledger_def hello_init_def)
  finally show ?thesis
    using node assms by (simp add: fl.undisturbed_def total_def queues_total_def queue_weight_def)
qed

section \<open>The run\<close>

text \<open>An element of a queue pays for what is done with it further down.\<close>

definition embed_pay :: "nat \<Rightarrow> nat" where
  "embed_pay q = (if q = 0 then 433 else if q = 1 then 3 else if q = 5 then 213 else if q = 6 then 13 else 33)"

lemma embed_affordable:
  assumes "embed_node i = Some p"
  shows "affordable embed_pay p"
proof -
  have p: "i \<in> {1, 3, 4, 5, 6, 7, 8, 9}" "p = the (embed_node i)" using embed_members[OF assms] by blast+
  have "ends_within 2 embed_MySource_generate hello_init"
    by (simp add: eval_nat_numeral embed_MySource_generate_def hello_init_def)
  then have "source_ends (node_class (the (embed_node i)))" using p(1) by (auto simp: source_ends_def)
  moreover have "2 * out_cost embed_pay (the (embed_node i)) + 2 < embed_pay q"
    if "r \<in> set (in_refs (pkind (the (embed_node i))))" "chan_queue (the (embed_node i)) r = Some q" for r q
    using p(1) that by (auto simp: out_cost_def ref_cost_def embed_pay_def upt_rec)
  ultimately show ?thesis unfolding p(2) by (simp add: affordable_def)
qed

lemma embed_bounded:
  assumes "procs s0 = embed_node"
  shows "\<exists>B. \<forall>n s. net_steps pending resume s0 n s \<longrightarrow> n \<le> B"
proof (rule course_bounded[of embed_pay embed_node])
  show "all_on_course embed_pay embed_node s0"
    using assms embed_affordable embed_proc_inv by (auto simp: all_on_course_def on_course_def)
  show "reads_q p \<union> writes_q p \<subseteq> {..<7}" if "embed_node i = Some p" for i p
    using embed_used[of i] that by (simp add: embed_reads_def embed_writes_def)
qed (simp_all add: embed_dom)

definition embed_rank :: "nat \<Rightarrow> nat" where
  "embed_rank i = (if i = 1 then 0 else if i = 3 then 5 else if i = 4 then 1 else if i = 5 then 2 else if i = 9 then 4 else 3)"

lemma embed_acyclic: "acyclic (feeds (dom embed_node) embed_reads embed_writes)"
proof -
  have rank: "embed_rank i < embed_rank j"
    if "i \<in> dom embed_node" "j \<in> dom embed_node" "embed_writes i \<inter> embed_reads j \<noteq> {}" for i j
  proof -
    have "embed_writes i = writes_q (the (embed_node i))" "embed_reads j = reads_q (the (embed_node j))"
      using that(1,2) by (auto simp: embed_writes_def embed_reads_def)
    then show ?thesis using that unfolding embed_dom by (elim insertE emptyE) (simp_all add: embed_rank_def)
  qed
  have "embed_rank i < embed_rank j" if "(i, j) \<in> feeds (dom embed_node) embed_reads embed_writes" for i j
    using that rank[of i j] unfolding feeds_def by simp
  then show ?thesis by (rule acyclic_ranked)
qed

lemma embed_stuck:
  assumes "co.net_ok (dom embed_node) embed_reads embed_writes (\<lambda>q. bq_capacity (queue_at (heap_of 7 :: string qheap) q)) s"
    "\<nexists>i s'. proc_step pending resume i s s'"
  shows "all_ended pending s"
proof (rule ccontr)
  assume live: "\<not> all_ended pending s"
  have single: "q = q'" if "i \<in> dom embed_node" "q \<in> embed_reads i" "q' \<in> embed_reads i" for i q q'
  proof -
    have "embed_reads i = reads_q (the (embed_node i))" using that(1) by (auto simp: embed_reads_def)
    then show ?thesis using that unfolding embed_dom by auto
  qed
  have cap: "0 < bq_capacity (queue_at (heap_of 7 :: string qheap) q)" if "q \<in> embed_writes i" for i q
  proof -
    have "q < 7" using that embed_used[of i] by auto
    then show ?thesis by (simp add: heap_of_bounds(2) default_channel_size_def)
  qed
  have "\<exists>i s'. proc_step pending resume i s s'"
    using co.no_deadlock[OF assms(1) _ embed_acyclic single cap live] by (auto simp: embed_dom)
  then show False using assms(2) by blast
qed

lemma embed_sink_lines:
  assumes "steady embed_weight (embed_ledger 3) a p"
  shows "\<exists>st. node_class p = ESink st \<and> set (cout st) \<subseteq> {''hello world''} \<and>
    length (cout st) \<le> worth embed_weight (embed_ledger 3) p \<and>
    ended_worth (embed_ledger 3) (node_class p) = length (cout st)"
proof -
  obtain st where "node_class p = ESink st" "set (cout st) \<subseteq> {''hello world''}"
    using assms by (auto simp: steady_def listed_def embed_ledger_def)
  then show ?thesis by (auto simp: worth_def body_worth_def embed_ledger_def split: pc.splits)
qed

lemma embed_end:
  assumes "procs s0 = embed_node" "queues s0 = queue_at (heap_of 7)" "bq_queue (aborts s0 a) = []"
    "net_alone pending resume s0 s"
  shows "(\<forall>i p. procs s i = Some p \<longrightarrow> \<not> failing (pc p)) \<and>
    (\<exists>p st. procs s 3 = Some p \<and> node_class p = ESink st \<and> set (cout st) \<subseteq> {''hello world''} \<and> length (cout st) \<le> 3 \<and>
      ((\<nexists>i s'. proc_step pending resume i s s') \<longrightarrow>
        all_ended pending s \<and> cout st = [''hello world'', ''hello world'', ''hello world'']))"
proof -
  have fin: "finite (dom embed_node)" by (simp add: embed_dom)
  note start = embed_net_ok[OF assms(1,2)]
  note run = net_undisturbed[OF assms(4) embed_undisturbed[OF assms(1-3)] start(1) fin finite_lessThan embed_used]
  have dom: "dom (procs s) = dom embed_node" using run(1) by (simp add: fl.undisturbed_def)
  then obtain p where p: "procs s 3 = Some p" unfolding embed_dom by blast
  obtain st where st: "node_class p = ESink st" "set (cout st) \<subseteq> {''hello world''}"
    "length (cout st) \<le> worth embed_weight (embed_ledger 3) p" "ended_worth (embed_ledger 3) (node_class p) = length (cout st)"
    using embed_sink_lines[OF undisturbed_node[OF run(1) p]] by blast
  have "procs_total (\<lambda>i. worth embed_weight (embed_ledger i)) (dom embed_node) (procs s) \<le> 3"
    using run(1) by (simp add: fl.undisturbed_def total_def)
  then have few: "length (cout st) \<le> 3"
    using st(3) procs_total_split[of "dom embed_node" 3 "procs s" p "\<lambda>i. worth embed_weight (embed_ledger i)"] fin p
    by (simp add: embed_dom)
  have "all_ended pending s \<and> cout st = [''hello world'', ''hello world'', ''hello world'']"
    if stuck: "\<nexists>i s'. proc_step pending resume i s s'"
  proof -
    have ended: "all_ended pending s" by (rule embed_stuck[OF run(2) stuck])
    have rest: "ended_worth (embed_ledger i) (node_class (the (procs s i))) = 0" if "i \<in> dom embed_node - {3}" for i
    proof -
      have i: "i \<in> {1, 4, 5, 6, 7, 8, 9}" using that unfolding embed_dom by auto
      have "i \<in> dom (procs s)" using that dom by blast
      then obtain p' where p': "procs s i = Some p'" by blast
      then have "node_class p' \<in> classes (embed_ledger i)"
        using undisturbed_node[OF run(1) p'] by (simp add: steady_def listed_def)
      then show ?thesis using i p' by (auto simp: embed_ledger_def)
    qed
    have "(\<Sum>i\<in>dom embed_node. ended_worth (embed_ledger i) (node_class (the (procs s i)))) = length (cout st)"
      using sum.remove[OF fin, of 3 "\<lambda>i. ended_worth (embed_ledger i) (node_class (the (procs s i)))"] rest st(4) p
      by (simp add: embed_dom)
    then have "length (cout st) = 3" using undisturbed_ended(3)[OF run(1,2) run(3)[OF start(2)] ended] by simp
    then have "cout st = replicate 3 ''hello world''" using st(2) by (intro replicate_eqI) auto
    then show ?thesis using ended by (simp add: numeral_3_eq_3)
  qed
  moreover have "\<not> failing (pc p')" if "procs s i = Some p'" for i p'
    using undisturbed_node[OF run(1) that] quiet_not_failing[of embed_weight "embed_ledger i" "pc p'"] by (simp add: steady_def)
  ultimately show ?thesis using p st(1,2) few by blast
qed

lemma collect_nothing: "Run_collect ns ts rs = rs"
  by (induction ns arbitrary: ts) (simp_all add: Let_def)

section \<open>Properties\<close>

text \<open>
  C16: a pipeline inside a node. For every order in which \<^verbatim>\<open>SetSink\<close> sees the leaves, \<^verbatim>\<open>main\<close> and
  \<^verbatim>\<open>MyTransform::work()\<close> build the outer and the inner pipeline without an exception, and both start. The number of
  steps is bounded under every interleaving of the eight coroutines; none fails; only the line is ever printed, at most
  three times; and when none can go on, all have ended, the line was printed exactly three times, and the loop over
  the results of the inner pipeline throws nothing.
\<close>

theorem embed_pipeline_prints:
  assumes "distinct ord" "set ord = {6..<9}"
  shows "\<exists>w P outer_net w' P' inner_net N.
    embed_pipeline start_world = Returned (w, P) \<and> Run (Some ex) g w P = Returned outer_net \<and>
    MyTransform_build ord (input_port (the (nodes P 2))) (output_port (the (nodes P 2))) (snd (Run_abort_channel g w P)) =
      Returned (w', P') \<and>
    Run (Some ex) g' w' P' = Returned inner_net \<and>
    (\<forall>n s. net_steps pending resume (run_inside 2 outer_net inner_net) n s \<longrightarrow> n \<le> N) \<and>
    (\<forall>s. net_alone pending resume (run_inside 2 outer_net inner_net) s \<longrightarrow>
      (\<forall>i p. procs s i = Some p \<longrightarrow> \<not> failing (pc p)) \<and>
      (\<exists>p st. procs s 3 = Some p \<and> node_class p = ESink st \<and> set (cout st) \<subseteq> {''hello world''} \<and> length (cout st) \<le> 3 \<and>
        ((\<nexists>i s'. proc_step pending resume i s s') \<longrightarrow>
          all_ended pending s \<and> cout st = [''hello world'', ''hello world'', ''hello world''] \<and>
          (\<forall>ids. MyTransform_handle (Run_collect (map (\<lambda>i. the (procs s i)) ids)
             (map (\<lambda>i. try_of (the (procs s i))) ids) []) = Returned ()))))"
proof -
  let ?w = "world_at 4 (heap_of 2) :: string world"
  obtain outer_net where out: "Run (Some ex) g ?w embed_outer = Returned outer_net" "procs outer_net = nodes embed_outer"
    by (cases "Run_abort_channel g ?w embed_outer")
      (auto simp: Run_def Run_bind_def embed_outer_def default_Pipeline_def Pipeline_def option.map_ident fun_eq_iff)
  obtain ah where ah: "snd (Run_abort_channel g ?w embed_outer) = inner_world ah 4 (heap_of 2)"
    by (auto simp: Run_abort_channel_def embed_outer_def default_Pipeline_def Pipeline_def chan_bool_def Channel_sized_def
        make_queue_def Let_def)
  obtain P' inner_net where inn: "MyTransform_build ord (input_port (the (nodes embed_outer 2))) (output_port (the (nodes embed_outer 2)))
      (inner_world ah 4 (heap_of 2)) = Returned (inner_world ah 10 (heap_of 7), P')"
    "Run (Some ex) g' (inner_world ah 10 (heap_of 7)) P' = Returned inner_net"
    "\<forall>i. procs inner_net i = (if i \<in> {1, 2, 3} then None else embed_node i)" "queues inner_net = queue_at (heap_of 7)"
    "bq_queue (aborts inner_net (next_queue ah)) = []"
    using embed_builds[OF assms, of ah ex g'] by blast
  let ?s0 = "run_inside 2 outer_net inner_net"
  have procs: "procs ?s0 = embed_node"
    using out(2) inn(3) by (auto simp: run_inside_def fun_eq_iff map_add_def embed_outer_def embed_node_def split: option.splits)
  have s0: "queues ?s0 = queue_at (heap_of 7)" "bq_queue (aborts ?s0 (next_queue ah)) = []"
    using inn(4,5) by (simp_all add: run_inside_def)
  obtain N where N: "\<forall>n s. net_steps pending resume ?s0 n s \<longrightarrow> n \<le> N" using embed_bounded[OF procs] by blast
  have "(\<forall>i p. procs s i = Some p \<longrightarrow> \<not> failing (pc p)) \<and>
      (\<exists>p st. procs s 3 = Some p \<and> node_class p = ESink st \<and> set (cout st) \<subseteq> {''hello world''} \<and> length (cout st) \<le> 3 \<and>
        ((\<nexists>i s'. proc_step pending resume i s s') \<longrightarrow>
          all_ended pending s \<and> cout st = [''hello world'', ''hello world'', ''hello world'']))"
    if alone: "net_alone pending resume ?s0 s" for s
    using embed_end[OF procs s0 alone] by blast
  moreover have "MyTransform_handle (Run_collect ns ts []) = Returned ()" for ns :: "(string, hello_state) processor list" and ts
    by (simp add: collect_nothing)
  ultimately show ?thesis
    using embed_pipeline_builds out(1) inn(1,2) N ah
    by (intro exI[of _ ?w] exI[of _ embed_outer] exI[of _ outer_net] exI[of _ "inner_world ah 10 (heap_of 7)"] exI[of _ P']
        exI[of _ inner_net] exI[of _ N]) simp
qed

theorem embed_pipeline_prints_witness:
  "\<exists>w P outer_net w' P' inner_net N.
    embed_pipeline start_world = Returned (w, P) \<and> Run (Some 0) 0 w P = Returned outer_net \<and>
    MyTransform_build [8, 6, 7] (input_port (the (nodes P 2))) (output_port (the (nodes P 2))) (snd (Run_abort_channel 0 w P)) =
      Returned (w', P') \<and>
    Run (Some 0) 0 w' P' = Returned inner_net \<and>
    (\<forall>n s. net_steps pending resume (run_inside 2 outer_net inner_net) n s \<longrightarrow> n \<le> N) \<and>
    (\<forall>s. net_alone pending resume (run_inside 2 outer_net inner_net) s \<longrightarrow>
      (\<forall>i p. procs s i = Some p \<longrightarrow> \<not> failing (pc p)) \<and>
      (\<exists>p st. procs s 3 = Some p \<and> node_class p = ESink st \<and> set (cout st) \<subseteq> {''hello world''} \<and> length (cout st) \<le> 3 \<and>
        ((\<nexists>i s'. proc_step pending resume i s s') \<longrightarrow>
          all_ended pending s \<and> cout st = [''hello world'', ''hello world'', ''hello world''] \<and>
          (\<forall>ids. MyTransform_handle (Run_collect (map (\<lambda>i. the (procs s i)) ids)
             (map (\<lambda>i. try_of (the (procs s i))) ids) []) = Returned ()))))"
  by (rule embed_pipeline_prints) auto

end
