(* ===== verification/Fork_Concat.thy ===== *)
theory Fork_Concat
  imports Program
begin

text \<open>
  Why the progress results ask for an untangled pipeline: with a \<^verbatim>\<open>Concat\<close> behind a \<^verbatim>\<open>Fork\<close>, a pipeline
  whose nodes are all from the library can get stuck. \<^verbatim>\<open>Concat\<close> reads its first input to the end before it
  looks at the second; \<^verbatim>\<open>Fork\<close> gives every element to all outputs, and waits for the second one.
\<close>

declare pending.simps [simp del] resume.simps [simp del] get_chan.simps [simp del] upd_chan.simps [simp del]

section \<open>The pipeline\<close>

text \<open>A source of four numbers, a \<^verbatim>\<open>Fork\<close> in two, a \<^verbatim>\<open>Concat\<close> of both and a sink that drops what it gets.\<close>

definition four_source :: "(nat, nat) node_class" where
  "four_source = SourceC (\<lambda>n. (Inr (if n < 4 then Some n else None), Suc n)) 0"

definition fork_concat :: "nat world \<Rightarrow> (nat world \<times> (nat, nat) pipeline) outcome" where
  "fork_concat w =
     (let (source, w) = make_node demo_traits four_source ''source'' w
      in then_do (AddSource source (Pipeline True 1 ''fork_concat'')) (\<lambda>nid P.
      then_do (ForkFrom demo_traits nid 2 w P) (\<lambda>_ (w, P).
      then_do (ConcatFrom demo_traits [3, 4] w P) (\<lambda>_ (w, P).
      let (sink, w) = make_node demo_traits DumpSinkC ''dump_sink'' w
      in then_do (SetSink sink [5] w P) (\<lambda>_ (w, P). Returned (w, P))))))"

text \<open>A store of queues that hold one element each.\<close>

definition small_heap :: "nat \<Rightarrow> nat qheap" where
  "small_heap n = \<lparr>next_queue = n, queue_at = (\<lambda>q. if q < n then BoundedQueue 1 else BoundedQueue 0)\<rparr>"

lemma make_queue_small:
  "make_queue (Suc 0) (small_heap 0) = (0, small_heap (Suc 0))" "make_queue (Suc 0) (small_heap (Suc 0)) = (Suc 0, small_heap 2)"
  "make_queue (Suc 0) (small_heap 2) = (2, small_heap 3)" "make_queue (Suc 0) (small_heap 3) = (3, small_heap 4)"
  "make_queue (Suc 0) (small_heap 4) = (4, small_heap 5)" "make_queue (Suc 0) (small_heap 5) = (5, small_heap 6)"
  by (auto simp: make_queue_def small_heap_def fun_eq_iff)

abbreviation fc_node :: "nat \<Rightarrow> (nat, nat) processor" where
  "fc_node i \<equiv> Processor demo_traits
     (if i = 1 then four_source else if i = 2 then ForkC 2 else if i = 5 then ConcatC 2
      else if i = 6 then DumpSinkC else NoOpTransformC)
     (if i = 1 then ''source'' else if i = 2 then ''fork'' else if i = 5 then ''concat''
      else if i = 6 then ''dump_sink'' else ''no_op'') i"

definition fc_first :: "(nat, nat) pipeline" where
  "fc_first = (Pipeline True 1 ''fork_concat'')\<lparr>nodes := [1 \<mapsto> fc_node 1], leaves := {1}, sources := [1]\<rparr>"

definition fc_forked :: "(nat, nat) pipeline" where
  "fc_forked = (Pipeline True 1 ''fork_concat'')\<lparr>
     nodes := [1 \<mapsto> give_out 2 (fc_node 1), 2 \<mapsto> feed 2 1 (add_outs 0 2 (fc_node 2)),
               3 \<mapsto> feed 0 1 (fc_node 3), 4 \<mapsto> feed 1 1 (fc_node 4)],
     leaves := {3, 4}, dags := [2 \<mapsto> {3, 4}, 1 \<mapsto> {2}], sources := [1]\<rparr>"

definition fc_concat :: "(nat, nat) pipeline" where
  "fc_concat = (Pipeline True 1 ''fork_concat'')\<lparr>
     nodes := [1 \<mapsto> give_out 2 (fc_node 1), 2 \<mapsto> feed 2 1 (add_outs 0 2 (fc_node 2)),
               3 \<mapsto> give_out 3 (feed 0 1 (fc_node 3)), 4 \<mapsto> give_out 4 (feed 1 1 (fc_node 4)),
               5 \<mapsto> add_ins 3 2 (fc_node 5)],
     leaves := {5}, dags := [2 \<mapsto> {3, 4}, 1 \<mapsto> {2}, 3 \<mapsto> {5}, 4 \<mapsto> {5}], sources := [1]\<rparr>"

definition fc_pipeline :: "(nat, nat) pipeline" where
  "fc_pipeline = (Pipeline True 1 ''fork_concat'')\<lparr>
     nodes := [1 \<mapsto> give_out 2 (fc_node 1), 2 \<mapsto> feed 2 1 (add_outs 0 2 (fc_node 2)),
               3 \<mapsto> give_out 3 (feed 0 1 (fc_node 3)), 4 \<mapsto> give_out 4 (feed 1 1 (fc_node 4)),
               5 \<mapsto> give_out 5 (add_ins 3 2 (fc_node 5)), 6 \<mapsto> feed 5 1 (fc_node 6)],
     dags := [2 \<mapsto> {3, 4}, 1 \<mapsto> {2}, 3 \<mapsto> {5}, 4 \<mapsto> {5}, 5 \<mapsto> {6}], sources := [1], sinks := [6]\<rparr>"

lemma fc_makes:
  "make_node demo_traits c nm (world_at 1 h) = (Processor demo_traits c nm 1, world_at 2 h)"
  "make_node demo_traits c nm (world_at 2 h) = (Processor demo_traits c nm 2, world_at 3 h)"
  "make_node demo_traits c nm (world_at 3 h) = (Processor demo_traits c nm 3, world_at 4 h)"
  "make_node demo_traits c nm (world_at 4 h) = (Processor demo_traits c nm 4, world_at 5 h)"
  "make_node demo_traits c nm (world_at 5 h) = (Processor demo_traits c nm 5, world_at 6 h)"
  "make_node demo_traits c nm (world_at 6 h) = (Processor demo_traits c nm 6, world_at 7 h)"
  by (simp_all add: make_node_def GenerateId_def)

lemma fc_source: "AddSource (fc_node 1) (Pipeline True 1 ''fork_concat'') = (Returned 1, fc_first)"
  by (simp add: AddSource_def build_defs fc_first_def four_source_def)

lemma fan_out_two: "fan_out tr 2 = fan_out tr (Suc (Suc 0))"
  by (simp add: numeral_2_eq_2)

lemma fc_fork: "ForkFrom demo_traits 1 2 (world_at 2 (small_heap 0)) fc_first = (Returned {3, 4}, world_at 5 (small_heap 3), fc_forked)"
  by (auto simp: ForkFrom_def attach_split_def build_defs fc_first_def fc_forked_def fc_makes fan_out_two connect_multi_out_def
      make_queue_small AddOutputPort_def Processor_def add_outs_def fun_eq_iff)

lemma fc_concats: "ConcatFrom demo_traits [3, 4] (world_at 5 (small_heap 3)) fc_forked = (Returned 5, world_at 6 (small_heap 5), fc_concat)"
  by (auto simp: ConcatFrom_def leaves_check.simps build_defs fc_concat_def fc_forked_def fc_makes
      make_queue_small AddInputPort_def Processor_def add_ins_def fun_eq_iff)

lemma fc_sink: "SetSink (fc_node 6) [5] (world_at 7 (small_heap 5)) fc_concat = (Returned 6, world_at 7 (small_heap 6), fc_pipeline)"
  by (auto simp: SetSink_def merge_def register_sink_def build_defs fc_concat_def fc_pipeline_def
      make_queue_small Processor_def fun_eq_iff)

lemma fc_builds:
  "fork_concat start_world = Returned (world_at 7 (small_heap 6), fc_pipeline)"
  "built (world_at 7 (small_heap 6)) fc_pipeline"
proof -
  have w: "start_world = world_at 1 (small_heap 0)"
    by (auto simp: start_world_def small_heap_def empty_qheap_def)
  show "fork_concat start_world = Returned (world_at 7 (small_heap 6), fc_pipeline)"
    using fc_source fc_fork fc_concats fc_sink unfolding fork_concat_def w by (simp add: fc_makes[unfolded One_nat_def])
  have "built (world_at 2 (small_heap 0)) (Pipeline True 1 ''fork_concat'' :: (nat, nat) pipeline)"
    by (rule built.new) (auto simp: idle_def caps_def small_heap_def BoundedQueue_def)
  then have "built (world_at 2 (small_heap 0)) fc_first"
    by (rule built.add_source[OF _ _ fc_source]) (use fresh_Processor[of 1 "world_at 2 (small_heap 0)" four_source] in \<open>simp add: four_source_def\<close>)
  then have "built (world_at 5 (small_heap 3)) fc_forked"
    by (rule built.fork[OF _ _ fc_fork]) simp
  then have "built (world_at 6 (small_heap 5)) fc_concat"
    by (rule built.concat[OF _ _ _ fc_concats]) simp_all
  from built_more[OF this] have "built (world_at 7 (small_heap 5)) fc_concat" by simp
  then show "built (world_at 7 (small_heap 6)) fc_pipeline"
    by (rule built.set_sink[OF _ _ _ _ fc_sink])
      (use fresh_Processor[of 6 "world_at 7 (small_heap 5)" DumpSinkC] in \<open>simp_all add: fc_concat_def\<close>)
qed

section \<open>A run that gets stuck\<close>

definition fc_net :: "((nat, nat) processor, nat) net" where
  "fc_net =
     \<lparr>procs = map_option (BindAbortChannel (Channel_shared 0)) \<circ> nodes fc_pipeline,
      queues = (\<lambda>q. BoundedQueue (if q < 6 then 1 else 0)),
      aborts = (\<lambda>q. BoundedQueue (if q = 0 then 10 else 0))\<rparr>"

lemma fc_run: "Run (Some 0) 0 (world_at 7 (small_heap 6)) fc_pipeline = Returned fc_net"
  by (auto simp: Run_def fc_net_def fc_pipeline_def Pipeline_def Run_abort_channel_def Run_bind_def Channel_sized_def
      make_queue_def empty_qheap_def small_heap_def chan_bool_def Channel_shared_def fun_eq_iff)

definition fc_schedule :: "nat list" where
  "fc_schedule =
     [1, 1, 1, 2, 2, 1, 1, 2, 2, 2, 2, 2, 2, 1, 1, 2, 3, 3, 2, 2, 3, 3, 3, 3, 3, 4, 4, 2, 2, 2, 1, 1, 2, 2, 2, 4, 4, 4, 4, 2,
      2, 2, 1, 1, 2, 4, 5, 5, 3, 3, 3, 2, 2, 3, 5, 5, 5, 5, 3, 3, 3, 3, 5, 6, 6, 5, 5, 5, 3, 3, 5, 6, 6, 5, 5, 5, 5, 6, 6, 5,
      5, 6, 6, 6]"

lemma fc_stops:
  "map_option (\<lambda>s. (map (\<lambda>i. map_option pending (procs s i)) [1..<7], list_all (\<lambda>i. Option.is_none (sched_step pending resume i s)) [1..<7]))
     (sched pending resume fc_schedule fc_net) =
   Some ([Some ReqNone, Some (ReqPush 1 (Some 3)), Some (ReqPop 0), Some (ReqPush 4 (Some 1)), Some (ReqPop 3),
     Some (ReqPop 5)], True)"
  unfolding fc_net_def fc_pipeline_def by code_simp

lemma fc_stuck:
  "\<exists>s. net_alone pending resume fc_net s \<and> \<not> all_ended pending s \<and> (\<nexists>i s'. proc_step pending resume i s s')"
proof -
  obtain s where s: "sched pending resume fc_schedule fc_net = Some s"
    and p: "map (\<lambda>i. map_option pending (procs s i)) [1..<7] =
      [Some ReqNone, Some (ReqPush 1 (Some 3)), Some (ReqPop 0), Some (ReqPush 4 (Some 1)), Some (ReqPop 3), Some (ReqPop 5)]"
    and halt: "list_all (\<lambda>i. Option.is_none (sched_step pending resume i s)) [1..<7]"
    using fc_stops by (auto simp del: upt_rec_numeral)
  have "dom (procs fc_net) \<subseteq> {1..<7}" by (auto simp: fc_net_def fc_pipeline_def split: if_splits)
  then have "dom (procs s) \<subseteq> {1..<7}" using sched_dom[OF s] by simp
  moreover have "\<forall>i \<in> {1..<7}. sched_step pending resume i s = None"
    using halt by (metis Ball_set Option.is_none_def set_upt)
  ultimately have "\<nexists>i s'. proc_step pending resume i s s'" by (intro sched_stuck)
  moreover have "map_option pending (procs s 5) = Some (ReqPop 3)"
    using arg_cong[OF p, of "\<lambda>l. l ! 4"] by simp
  then have "\<not> all_ended pending s" by (fastforce simp: all_ended_def)
  ultimately show ?thesis using sched_alone[OF s net_alone.init] by blast
qed

section \<open>Properties\<close>

text \<open>
  C18: the condition of the progress results is needed. There is a pipeline that the builder accepts, with queues that can
  hold an element, a bound abort channel, sources that end and no user code that throws, and an undisturbed run of it
  that gets stuck with nodes that have not ended; it has both a \<^verbatim>\<open>Fork\<close> in two and a \<^verbatim>\<open>Concat\<close> of two.
\<close>

theorem fork_concat_deadlocks:
  "\<exists>w P s0 s. fork_concat start_world = Returned (w, P) \<and> built w P \<and> 0 < channel_size P \<and> bind_abort_channel P \<and>
    ran (nodes P) \<subseteq> {p. harmless (node_class p) \<and> source_ends (node_class p)} \<and> \<not> untangled P \<and>
    Run (Some 0) 0 w P = Returned s0 \<and> net_alone pending resume s0 s \<and> \<not> all_ended pending s \<and>
    (\<nexists>i s'. proc_step pending resume i s s')"
proof -
  have nodes: "nodes fc_pipeline 2 = Some (feed 2 1 (add_outs 0 2 (fc_node 2)))"
    "nodes fc_pipeline 5 = Some (give_out 5 (add_ins 3 2 (fc_node 5)))"
    by (simp_all add: fc_pipeline_def)
  have "\<not> untangled fc_pipeline"
    unfolding untangled_def no_concat_def no_split_def using nodes by (fastforce simp: add_outs_def add_ins_def)
  moreover have "harmless (node_class p) \<and> source_ends (node_class p)" if "p \<in> ran (nodes fc_pipeline)" for p
  proof -
    have "ends_within 5 (\<lambda>n. (Inr (if n < 4 then Some n else None), Suc n)) (0 :: nat)" by (simp add: eval_nat_numeral)
    then have "source_ends four_source" unfolding four_source_def source_ends_def by auto
    moreover have "harmless four_source" by (simp add: four_source_def)
    ultimately show ?thesis using that
      by (auto simp: ran_def fc_pipeline_def add_outs_def add_ins_def source_ends_def split: if_splits)
  qed
  moreover have "0 < channel_size fc_pipeline \<and> bind_abort_channel fc_pipeline" by (simp add: fc_pipeline_def Pipeline_def)
  ultimately show ?thesis using fc_builds fc_run fc_stuck by blast
qed

end
