(* ===== verification/Sedeserialize.thy ===== *)
theory Sedeserialize
  imports Tunnel_Prelude "HOL-Library.Word"
begin

text \<open>
  Serialisation (\<^verbatim>\<open>tunnel/util.h\<close>, \<^verbatim>\<open>tunnel/sedeserialize.h\<close>, \<^verbatim>\<open>tunnel/package.h\<close> and the
  \<^verbatim>\<open>Deserialize(view)\<close> wrapper of \<^verbatim>\<open>tunnel/tunnel_traits.h\<close>).  A \<^verbatim>\<open>std::string\<close> is a list of
  bytes, an integer a word of its width; the byte order of the machine is an argument.  Parsing
  returns the value and the new offset, the exception thrown, a failed \<^verbatim>\<open>assert\<close>, or the
  out-of-bounds read that the C++ code would perform.  The locale \<^verbatim>\<open>codec\<close> is the contract
  between a \<^verbatim>\<open>Serialize\<close> and a \<^verbatim>\<open>Deserialize\<close> specialisation; every pair of the code is an
  instance of it.
\<close>

type_synonym byte = "8 word"
type_synonym bytes = "byte list"
type_synonym uint32 = "32 word"
type_synonym cint = "32 word"

section \<open>Memory representation and byte order\<close>

text \<open>\<^verbatim>\<open>Endian::Type\<close>.\<close>

datatype endian = Big | Little

text \<open>The object representation of an integer, and the integer stored in some bytes.\<close>

definition sizeof :: "'a::len word \<Rightarrow> nat" where
  "sizeof w = LENGTH('a) div 8"

definition mem_bytes :: "endian \<Rightarrow> 'a::len word \<Rightarrow> bytes" where
  "mem_bytes host w =
     (let le = map (\<lambda>i. ucast (drop_bit (8 * i) w)) [0..<sizeof w]
      in case host of Little \<Rightarrow> le | Big \<Rightarrow> rev le)"

definition le_word :: "bytes \<Rightarrow> 'a::len word" where
  "le_word bs = foldr (\<lambda>b w. or (ucast b) (push_bit 8 w)) bs 0"

definition mem_word :: "endian \<Rightarrow> bytes \<Rightarrow> 'a::len word" where
  "mem_word host bs = le_word (case host of Little \<Rightarrow> bs | Big \<Rightarrow> rev bs)"

text \<open>The constructor of \<^verbatim>\<open>Endian\<close>: look at the first byte of the int 1.\<close>

definition GetEndianType :: "endian \<Rightarrow> endian" where
  "GetEndianType host = (if hd (mem_bytes host (1 :: cint)) = 1 then Little else Big)"

text \<open>\<^verbatim>\<open>flipByByte\<close>: byte \<^verbatim>\<open>i\<close> of the argument becomes byte \<^verbatim>\<open>sizeof(T) - 1 - i\<close> of the result.\<close>

definition flip_loop :: "nat \<Rightarrow> bytes \<Rightarrow> bytes \<Rightarrow> bytes" where
  "flip_loop n ptr2 ptr1 = fold (\<lambda>i p. p[n - 1 - i := ptr2 ! i]) [0..<n] ptr1"

definition flipByByte :: "endian \<Rightarrow> 'a::len word \<Rightarrow> 'a word" where
  "flipByByte host t =
     mem_word host (flip_loop (sizeof t) (mem_bytes host t) (mem_bytes host (0 :: 'a word)))"

section \<open>Serialize and Deserialize\<close>

datatype 'a parse = Parsed 'a nat | Parse_throws exn | Parse_assert | Parse_oob

fun and_then :: "'a parse \<Rightarrow> ('a \<Rightarrow> nat \<Rightarrow> 'b parse) \<Rightarrow> 'b parse" where
  "and_then (Parsed v off) k = k v off"
| "and_then (Parse_throws e) k = Parse_throws e"
| "and_then Parse_assert k = Parse_assert"
| "and_then Parse_oob k = Parse_oob"

text \<open>Reading \<^verbatim>\<open>n\<close> bytes of a view, and \<^verbatim>\<open>memcpy\<close> into a buffer.\<close>

definition read_mem :: "bytes \<Rightarrow> nat \<Rightarrow> nat \<Rightarrow> bytes option" where
  "read_mem view off n = (if off + n \<le> length view then Some (take n (drop off view)) else None)"

definition memcpy_at :: "bytes \<Rightarrow> nat \<Rightarrow> bytes \<Rightarrow> bytes" where
  "memcpy_at buf off bs = take off buf @ bs @ drop (off + length bs) buf"

text \<open>\<^verbatim>\<open>DECLARE_INTEGRAL_SERIALIZE\<close>.\<close>

definition Serialize_integral :: "endian \<Rightarrow> 'a::len word \<Rightarrow> bytes \<Rightarrow> bytes option" where
  "Serialize_integral host v appender =
     (let old_size = length appender;
          appender = appender @ replicate (sizeof v) 0;
          rv = (if GetEndianType host = Little then flipByByte host v else v)
      in Some (memcpy_at appender old_size (mem_bytes host rv)))"

definition Deserialize_integral :: "endian \<Rightarrow> bytes \<Rightarrow> nat \<Rightarrow> 'a::len word parse" where
  "Deserialize_integral host view off =
     (case read_mem view off (sizeof (0 :: 'a word)) of
        None \<Rightarrow> Parse_oob
      | Some bs \<Rightarrow>
          let v = mem_word host bs;
              off = off + sizeof v
          in Parsed (if GetEndianType host = Little then flipByByte host v else v) off)"

text \<open>\<^verbatim>\<open>std::string\<close>: the 32-bit length, then the characters.\<close>

definition uint32_max :: nat where
  "uint32_max = 4294967295"

definition Serialize_string :: "endian \<Rightarrow> bytes \<Rightarrow> bytes \<Rightarrow> bytes option" where
  "Serialize_string host v appender =
     (if length v \<le> uint32_max
      then map_option (\<lambda>a. a @ v)
             (Serialize_integral host (of_nat (length v) :: uint32) appender)
      else None)"

definition Deserialize_string :: "endian \<Rightarrow> bytes \<Rightarrow> nat \<Rightarrow> bytes parse" where
  "Deserialize_string host view off =
     and_then (Deserialize_integral host view off) (\<lambda>v off.
       let len = unat (v :: uint32)
       in case read_mem view off len of
            None \<Rightarrow> Parse_oob
          | Some s \<Rightarrow> Parsed s (off + len))"

text \<open>\<^verbatim>\<open>bool\<close>: the characters \<^verbatim>\<open>t\<close> and \<^verbatim>\<open>f\<close>.\<close>

definition char_t :: byte where "char_t = 116"
definition char_f :: byte where "char_f = 102"
definition char_e :: byte where "char_e = 101"
definition char_n :: byte where "char_n = 110"

definition Serialize_bool :: "bool \<Rightarrow> bytes \<Rightarrow> bytes option" where
  "Serialize_bool v appender = Some (appender @ [if v then char_t else char_f])"

definition Deserialize_bool :: "bytes \<Rightarrow> nat \<Rightarrow> bool parse" where
  "Deserialize_bool view off =
     (case read_mem view off 1 of
        None \<Rightarrow> Parse_oob
      | Some cs \<Rightarrow>
          let c = hd cs
          in if c = char_t \<or> c = char_f then Parsed (c = char_t) (off + 1) else Parse_assert)"

text \<open>\<^verbatim>\<open>Deserialize(view)\<close>: parse from offset 0 and assert that the view is used up.\<close>

definition Deserialize_view :: "(bytes \<Rightarrow> nat \<Rightarrow> 'a parse) \<Rightarrow> bytes \<Rightarrow> 'a parse" where
  "Deserialize_view des view =
     and_then (des view 0) (\<lambda>v off. if off = length view then Parsed v off else Parse_assert)"

section \<open>The package of the socket nodes\<close>

record package =
  pkg_eof :: bool
  bin_data :: bytes

definition Serialize_package :: "endian \<Rightarrow> package \<Rightarrow> bytes \<Rightarrow> bytes option" where
  "Serialize_package host v appender =
     Serialize_string host (bin_data v) (appender @ [if pkg_eof v then char_e else char_n])"

definition Deserialize_package :: "endian \<Rightarrow> bytes \<Rightarrow> nat \<Rightarrow> package parse" where
  "Deserialize_package host view off =
     (if view = [] then Parse_throws (StdException ''deserialize package error, empty'')
      else case read_mem view off 1 of
        None \<Rightarrow> Parse_oob
      | Some cs \<Rightarrow>
          let c = hd cs
          in if c \<noteq> char_e \<and> c \<noteq> char_n
             then Parse_throws (StdException ''deserialize package error, parse invalid field'')
             else and_then (Deserialize_string host view (off + 1))
                    (\<lambda>s off. Parsed \<lparr>pkg_eof = (c = char_e), bin_data = s\<rparr> off))"

section \<open>Byte order: the wire format is big endian on every machine\<close>

text \<open>The wire format of an integer.\<close>

definition be_bytes :: "'a::len word \<Rightarrow> bytes" where
  "be_bytes w = mem_bytes Big w"

lemma length_mem_bytes [simp]: "length (mem_bytes host w) = sizeof w"
  by (simp add: mem_bytes_def Let_def split: endian.split)

lemma mem_bytes_Big: "mem_bytes Big w = rev (mem_bytes Little w)"
  by (simp add: mem_bytes_def Let_def)

lemma GetEndianType_host [simp]: "GetEndianType host = host"
  by (cases host) (simp_all add: GetEndianType_def mem_bytes_def sizeof_def Let_def upt_rec)

lemma fold_flip:
  assumes "k \<le> n" "length p2 = n" "length p1 = n"
  shows "fold (\<lambda>i p. p[n - 1 - i := p2 ! i]) [0..<k] p1 = take (n - k) p1 @ rev (take k p2)"
  using assms(1)
proof (induction k)
  case 0
  then show ?case using assms(3) by simp
next
  case (Suc k)
  then have k: "k < n" "n - k = Suc (n - Suc k)" by auto
  have "take (n - k) p1 = take (n - Suc k) p1 @ [p1 ! (n - Suc k)]"
    using k assms(3) by (simp add: take_Suc_conv_app_nth)
  moreover have "take (Suc k) p2 = take k p2 @ [p2 ! k]"
    using k assms(2) by (simp add: take_Suc_conv_app_nth)
  ultimately show ?case
    using Suc k assms(3) by (simp add: list_update_append)
qed

lemma flip_loop_rev [simp]:
  "length p2 = n \<Longrightarrow> length p1 = n \<Longrightarrow> flip_loop n p2 p1 = rev p2"
  using fold_flip[of n n p2 p1] by (simp add: flip_loop_def)

lemma bit_le_word:
  "bit (le_word bs :: 'a::len word) k \<longleftrightarrow>
     k < LENGTH('a) \<and> k < 8 * length bs \<and> bit (bs ! (k div 8)) (k mod 8)"
proof (induction bs arbitrary: k)
  case Nil
  then show ?case by (simp add: le_word_def)
next
  case (Cons b bs)
  have *: "bit (le_word (b # bs) :: 'a word) k \<longleftrightarrow>
      k < LENGTH('a) \<and> (bit b k \<or> 8 \<le> k \<and> bit (le_word bs :: 'a word) (k - 8))"
    by (auto simp: le_word_def bit_or_iff bit_push_bit_iff bit_ucast_iff dest: bit_imp_le_length)
  show ?case
  proof (cases "k < 8")
    case True
    then show ?thesis by (auto simp: *)
  next
    case False
    then have "\<not> bit b k" by (auto dest: bit_imp_le_length)
    moreover have "k div 8 = Suc ((k - 8) div 8)" "k mod 8 = (k - 8) mod 8"
      using False by (auto simp: le_div_geq le_mod_geq)
    ultimately show ?thesis using False unfolding * Cons.IH by auto
  qed
qed

lemma le_word_mem_bytes:
  assumes "8 dvd LENGTH('a::len)"
  shows "le_word (mem_bytes Little (w :: 'a word)) = w"
proof (rule bit_word_eqI)
  fix k assume "k < LENGTH('a)"
  moreover obtain m where "LENGTH('a) = 8 * m" using assms by auto
  ultimately show "bit (le_word (mem_bytes Little w) :: 'a word) k \<longleftrightarrow> bit w k"
    by (simp add: bit_le_word mem_bytes_def Let_def sizeof_def bit_ucast_iff bit_drop_bit_eq
        less_mult_imp_div_less mult.commute)
qed

lemma mem_bytes_le_word:
  assumes "length bs = sizeof (w :: 'a::len word)"
  shows "mem_bytes Little (le_word bs :: 'a word) = bs"
proof (rule nth_equalityI)
  show "length (mem_bytes Little (le_word bs :: 'a word)) = length bs"
    using assms by (simp add: sizeof_def)
next
  fix i assume "i < length (mem_bytes Little (le_word bs :: 'a word))"
  then have i: "i < LENGTH('a) div 8" "i < length bs" using assms by (auto simp: sizeof_def)
  show "mem_bytes Little (le_word bs :: 'a word) ! i = bs ! i"
  proof (rule bit_word_eqI)
    fix k assume "k < LENGTH(8)"
    then have k: "k < 8" "(8 * i + k) div 8 = i" "(8 * i + k) mod 8 = k" by auto
    have "8 * i + 8 \<le> LENGTH('a)" using i(1) by linarith
    then show "bit (mem_bytes Little (le_word bs :: 'a word) ! i) k \<longleftrightarrow> bit (bs ! i) k"
      using i k by (simp add: mem_bytes_def Let_def sizeof_def bit_ucast_iff bit_drop_bit_eq
          bit_le_word)
  qed
qed

lemma sizeof_cong: "sizeof (v :: 'a::len word) = sizeof (w :: 'a word)"
  by (simp add: sizeof_def)

lemma mem_word_mem_bytes [simp]:
  "8 dvd LENGTH('a::len) \<Longrightarrow> mem_word host (mem_bytes host (w :: 'a word)) = w"
  by (cases host) (simp_all add: mem_word_def mem_bytes_Big le_word_mem_bytes)

lemma mem_bytes_mem_word:
  "length bs = sizeof (w :: 'a::len word) \<Longrightarrow> mem_bytes host (mem_word host bs :: 'a word) = bs"
  by (cases host) (simp_all add: mem_word_def mem_bytes_Big mem_bytes_le_word[where w = w])

lemma mem_bytes_flip:
  "mem_bytes host (flipByByte host w) = rev (mem_bytes host (w :: 'a::len word))"
  by (simp add: flipByByte_def mem_bytes_mem_word[where w = w] sizeof_cong[of 0 w])

lemma flipByByte_flip:
  assumes "8 dvd LENGTH('a::len)"
  shows "flipByByte host (flipByByte host (w :: 'a word)) = w"
  using assms by (metis mem_bytes_flip mem_word_mem_bytes rev_rev_ident)

section \<open>The contract of a Serialize and Deserialize pair\<close>

text \<open>The bytes \<^verbatim>\<open>bs\<close> are what a view holds from offset \<^verbatim>\<open>off\<close> on.\<close>

definition holds_at :: "bytes \<Rightarrow> nat \<Rightarrow> bytes \<Rightarrow> bool" where
  "holds_at view off bs \<longleftrightarrow>
     off + length bs \<le> length view \<and> take (length bs) (drop off view) = bs"

lemma holds_at_append [simp]:
  "holds_at view off (xs @ ys) \<longleftrightarrow> holds_at view off xs \<and> holds_at view (off + length xs) ys"
proof -
  have "take (length xs + length ys) (drop off view) = xs @ ys \<longleftrightarrow>
      take (length xs) (drop off view) = xs \<and> take (length ys) (drop (length xs + off) view) = ys"
    if "off + (length xs + length ys) \<le> length view"
    using that by (auto simp: take_add append_eq_append_conv)
  then show ?thesis by (auto simp: holds_at_def add.commute add.assoc)
qed

lemma holds_at_mid [simp]: "holds_at (pre @ bs @ post) (length pre) bs"
  by (simp add: holds_at_def)

lemma holds_at_0 [simp]: "holds_at (bs @ post) 0 bs" "holds_at bs 0 bs"
  by (simp_all add: holds_at_def)

lemma holds_at_all: "holds_at view 0 bs \<Longrightarrow> length bs = length view \<Longrightarrow> view = bs"
  by (simp add: holds_at_def)

lemma read_mem_Some:
  "read_mem view off n = Some bs \<longleftrightarrow> holds_at view off bs \<and> length bs = n"
  by (auto simp: read_mem_def holds_at_def)

lemma read_mem_holds: "holds_at view off bs \<Longrightarrow> read_mem view off (length bs) = Some bs"
  by (simp add: read_mem_Some)

lemma read_mem_None: "read_mem view off n = None \<longleftrightarrow> length view < off + n"
  by (auto simp: read_mem_def)

lemma and_then_Parsed:
  "and_then p k = Parsed v off' \<longleftrightarrow> (\<exists>u off. p = Parsed u off \<and> k u off = Parsed v off')"
  by (cases p) auto

text \<open>
  \<^verbatim>\<open>ser\<close> appends the encoding \<^verbatim>\<open>enc v\<close> of every value that the format can hold (and fails the
  \<^verbatim>\<open>assert\<close> on the others); \<^verbatim>\<open>des\<close> returns a value exactly when its encoding is what the view
  holds, and moves the offset past it.
\<close>

locale codec =
  fixes ser :: "'a \<Rightarrow> bytes \<Rightarrow> bytes option"
    and des :: "bytes \<Rightarrow> nat \<Rightarrow> 'a parse"
    and fits :: "'a \<Rightarrow> bool"
    and enc :: "'a \<Rightarrow> bytes"
  assumes ser_enc: "ser v app = (if fits v then Some (app @ enc v) else None)"
    and des_enc: "fits v \<Longrightarrow> holds_at view off (enc v) \<Longrightarrow>
                    des view off = Parsed v (off + length (enc v))"
    and enc_des: "des view off = Parsed v off' \<Longrightarrow>
                    fits v \<and> holds_at view off (enc v) \<and> off' = off + length (enc v)"
begin

lemma des_iff:
  "des view off = Parsed v off' \<longleftrightarrow>
     fits v \<and> holds_at view off (enc v) \<and> off' = off + length (enc v)"
  using des_enc enc_des by blast

lemma ser_Some: "ser v app = Some out \<longleftrightarrow> fits v \<and> out = app @ enc v"
  by (auto simp: ser_enc)

lemma view_iff:
  "Deserialize_view des view = Parsed v n \<longleftrightarrow> fits v \<and> view = enc v \<and> n = length view"
  by (auto simp: Deserialize_view_def and_then_Parsed des_iff holds_at_all split: if_splits)

lemma round_trip:
  "ser v [] = Some out \<Longrightarrow> Deserialize_view des out = Parsed v (length out)"
  by (simp add: ser_Some view_iff)

lemma round_trip_append:
  "ser v pre = Some out \<Longrightarrow> des (out @ post) (length pre) = Parsed v (length out)"
  using holds_at_mid[of pre "enc v" post] by (auto simp: ser_Some des_iff)

lemma enc_prefix_free:
  assumes "fits v" "fits w" "enc v @ xs = enc w @ ys"
  shows "v = w \<and> xs = ys"
proof -
  have "des (enc v @ xs) 0 = Parsed v (length (enc v))"
    using assms(1) by (simp add: des_iff)
  moreover have "des (enc v @ xs) 0 = Parsed w (length (enc w))"
    unfolding assms(3) using assms(2) by (simp add: des_iff)
  ultimately show ?thesis using assms(3) by simp
qed

end

section \<open>The pairs of the code satisfy the contract\<close>

lemma memcpy_at_end [simp]:
  "length bs = n \<Longrightarrow> memcpy_at (app @ replicate n 0) (length app) bs = app @ bs"
  by (simp add: memcpy_at_def)

lemma Serialize_integral_wire:
  "Serialize_integral host (v :: 'a::len word) app = Some (app @ be_bytes v)"
proof (cases host)
  case Little
  then show ?thesis
    by (simp add: Serialize_integral_def Let_def mem_bytes_flip be_bytes_def mem_bytes_Big
        sizeof_cong[of "flipByByte Little v" v])
qed (simp add: Serialize_integral_def Let_def be_bytes_def)

lemma Deserialize_integral_iff:
  assumes "8 dvd LENGTH('a::len)"
  shows "Deserialize_integral host view off = Parsed (v :: 'a word) off' \<longleftrightarrow>
     holds_at view off (be_bytes v) \<and> off' = off + sizeof v"
proof -
  have dec: "(if GetEndianType host = Little then flipByByte host (mem_word host bs)
       else mem_word host bs) = v \<longleftrightarrow> bs = be_bytes v"
    if "length bs = sizeof v" for bs
  proof (cases host)
    case Big
    then show ?thesis
      using that assms by (auto simp: be_bytes_def mem_bytes_mem_word)
  next
    case Little
    have "flipByByte Little (mem_word Little bs) = v \<longleftrightarrow>
        mem_word Little bs = flipByByte Little v"
      using assms flipByByte_flip by metis
    also have "\<dots> \<longleftrightarrow> bs = rev (mem_bytes Little v)"
      using that assms mem_bytes_mem_word[OF that] mem_word_mem_bytes[OF assms]
      by (metis mem_bytes_flip)
    finally show ?thesis using Little by (simp add: be_bytes_def mem_bytes_Big)
  qed
  show ?thesis
  proof (cases "read_mem view off (sizeof v)")
    case None
    then have "length view < off + sizeof v" by (simp add: read_mem_None)
    then have "\<not> holds_at view off (be_bytes v)" by (simp add: holds_at_def be_bytes_def)
    then show ?thesis
      using None by (simp add: Deserialize_integral_def sizeof_cong[of 0 v])
  next
    case (Some bs)
    then have bs: "holds_at view off bs" "length bs = sizeof v" by (simp_all add: read_mem_Some)
    have "holds_at view off (be_bytes v) \<longleftrightarrow> bs = be_bytes v"
      using bs by (auto simp: holds_at_def be_bytes_def)
    then show ?thesis
      using Some dec[OF bs(2)]
      by (auto simp: Deserialize_integral_def sizeof_def Let_def)
  qed
qed

abbreviation any_value :: "'a \<Rightarrow> bool" where
  "any_value v \<equiv> True"

interpretation u32: codec "Serialize_integral h" "Deserialize_integral h'" any_value
    "be_bytes :: uint32 \<Rightarrow> bytes" for h h'
  by unfold_locales (auto simp: Serialize_integral_wire Deserialize_integral_iff be_bytes_def)

definition enc_string :: "bytes \<Rightarrow> bytes" where
  "enc_string s = be_bytes (of_nat (length s) :: uint32) @ s"

abbreviation fits_string :: "bytes \<Rightarrow> bool" where
  "fits_string s \<equiv> length s \<le> uint32_max"

lemma length_be_uint32 [simp]: "length (be_bytes (w :: uint32)) = 4"
  by (simp add: be_bytes_def sizeof_def)

lemma unat_length [simp]: "n \<le> uint32_max \<Longrightarrow> unat (of_nat n :: uint32) = n"
  by (simp add: uint32_max_def unat_of_nat)

lemma unat_fits [simp]: "unat (w :: uint32) \<le> uint32_max"
  using unsigned_less[of w, where 'a = nat] by (simp add: uint32_max_def)

lemma Deserialize_string_iff:
  "Deserialize_string h view off = Parsed s off' \<longleftrightarrow>
     fits_string s \<and> holds_at view off (enc_string s) \<and> off' = off + length (enc_string s)"
proof
  assume "Deserialize_string h view off = Parsed s off'"
  then obtain v where v: "holds_at view off (be_bytes (v :: uint32))"
      "read_mem view (off + 4) (unat v) = Some s" "off' = off + 4 + unat v"
    by (auto simp: Deserialize_string_def and_then_Parsed u32.des_iff Let_def
        split: option.splits)
  then have "length s = unat v" by (simp add: read_mem_Some)
  moreover from this have "of_nat (length s) = v" by simp
  ultimately show "fits_string s \<and> holds_at view off (enc_string s) \<and>
      off' = off + length (enc_string s)"
    using v by (simp add: enc_string_def read_mem_Some)
next
  assume s: "fits_string s \<and> holds_at view off (enc_string s) \<and>
      off' = off + length (enc_string s)"
  then show "Deserialize_string h view off = Parsed s off'"
    using u32.des_enc[of view off "of_nat (length s)" h]
    by (simp add: Deserialize_string_def enc_string_def Let_def read_mem_holds)
qed

interpretation str: codec "Serialize_string h" "Deserialize_string h'" fits_string enc_string
    for h h'
  by unfold_locales
    (auto simp: Serialize_string_def u32.ser_enc Deserialize_string_iff enc_string_def)

definition enc_bool :: "bool \<Rightarrow> bytes" where
  "enc_bool v = [if v then char_t else char_f]"

lemma Deserialize_bool_iff:
  "Deserialize_bool view off = Parsed v off' \<longleftrightarrow> holds_at view off (enc_bool v) \<and> off' = off + 1"
  by (cases "off < length view")
    (auto simp: Deserialize_bool_def read_mem_def Let_def holds_at_def enc_bool_def char_t_def
      char_f_def take_Suc_conv_app_nth hd_drop_conv_nth take_Suc split: if_splits)

interpretation bl: codec Serialize_bool Deserialize_bool any_value enc_bool
  by unfold_locales (auto simp: Serialize_bool_def Deserialize_bool_iff enc_bool_def)

definition enc_package :: "package \<Rightarrow> bytes" where
  "enc_package p = [if pkg_eof p then char_e else char_n] @ enc_string (bin_data p)"

abbreviation fits_package :: "package \<Rightarrow> bool" where
  "fits_package p \<equiv> fits_string (bin_data p)"

lemma Deserialize_package_iff:
  "Deserialize_package h view off = Parsed p off' \<longleftrightarrow>
     fits_package p \<and> holds_at view off (enc_package p) \<and> off' = off + length (enc_package p)"
proof (cases "off < length view")
  case True
  have byte: "holds_at view off [c] \<longleftrightarrow> hd (drop off view) = c" for c
    using True by (auto simp: holds_at_def take_Suc hd_drop_conv_nth)
  have enc: "holds_at view off (enc_package p) \<longleftrightarrow>
      view ! off = (if pkg_eof p then char_e else char_n) \<and>
      holds_at view (Suc off) (enc_string (bin_data p))"
    unfolding enc_package_def holds_at_append byte using True by (simp add: hd_drop_conv_nth)
  show ?thesis
    unfolding enc using True
    by (cases p)
      (auto simp: Deserialize_package_def read_mem_def Let_def and_then_Parsed str.des_iff
        enc_package_def char_e_def char_n_def hd_drop_conv_nth take_Suc
        split: if_splits)
next
  case False
  then show ?thesis
    by (auto simp: Deserialize_package_def read_mem_def holds_at_def enc_package_def)
qed

interpretation pkg: codec "Serialize_package h" "Deserialize_package h'" fits_package enc_package
    for h h'
  by unfold_locales
    (auto simp: Serialize_package_def str.ser_enc Deserialize_package_iff enc_package_def)

section \<open>Properties\<close>

text \<open>
  C30: integers travel in big-endian order.  Whatever the byte order of the machine that
  serialises, \<^verbatim>\<open>Serialize\<close> appends the big-endian bytes of a 32-bit integer, and \<^verbatim>\<open>Deserialize\<close> on
  a machine of any byte order reads the same integer back from wherever they stand.
\<close>

theorem integral_round_trip:
  "Serialize_integral h (w :: uint32) pre = Some (pre @ rev (mem_bytes Little w)) \<and>
   Deserialize_integral h' (pre @ rev (mem_bytes Little w) @ post) (length pre) =
     Parsed w (length pre + 4)"
  using u32.ser_enc[of h w pre] u32.des_enc[of "pre @ be_bytes w @ post" "length pre" w h']
  by (simp add: be_bytes_def mem_bytes_Big sizeof_def)

text \<open>
  C28: the package of the socket nodes.  A buffer parses as a package exactly when it is what
  \<^verbatim>\<open>Serialize\<close> writes for this package, on any two machines: the parser accepts every serialised
  package and nothing else, and no two packages are serialised alike.
\<close>

theorem package_round_trip:
  "(Deserialize_view (Deserialize_package h') view = Parsed p n) =
     (Serialize_package h p [] = Some view \<and> n = length view)"
  by (auto simp: pkg.view_iff pkg.ser_enc)

text \<open>The number that a big-endian field holds.\<close>

definition be_value :: "bytes \<Rightarrow> nat" where
  "be_value bs = horner_sum unat 256 (rev bs)"

lemma take_bit_uint: "take_bit 8 (uint (b :: byte)) = uint b"
  using unsigned_less[of b, where 'a = int] by (simp add: take_bit_int_eq_self)

lemma horner_sum_uint: "horner_sum uint 256 bs = int (horner_sum unat 256 (bs :: bytes))"
  by (induction bs) simp_all

lemma le_word_horner: "le_word bs = (word_of_int (horner_sum uint 256 bs) :: 'a::len word)"
proof (induction bs)
  case Nil
  then show ?case by (simp add: le_word_def)
next
  case (Cons b bs)
  let ?H = "horner_sum uint 256 bs"
  have "uint b + 256 * ?H = or (uint b) (push_bit 8 ?H)"
    using concat_bit_eq[of 8 "uint b" ?H] take_bit_uint[of b]
    by (simp add: concat_bit_def push_bit_eq_mult mult.commute)
  moreover have "le_word (b # bs) = (or (ucast b) (push_bit 8 (le_word bs)) :: 'a word)"
    by (simp add: le_word_def)
  ultimately show ?case by (simp add: Cons.IH of_int_or_eq push_bit_of_int)
qed

lemma horner_sum_bytes: "horner_sum unat 256 (bs :: bytes) < 256 ^ length bs"
proof (induction bs)
  case (Cons b bs)
  have "unat b < 256" using unsigned_less[of b, where 'a = nat] by simp
  then show ?case using Cons.IH by simp
qed simp

lemma unat_mem_word_Big:
  assumes "length bs = 4"
  shows "unat (mem_word Big bs :: uint32) = be_value bs"
proof -
  have "mem_word Big bs = (of_nat (be_value bs) :: uint32)"
    by (simp add: mem_word_def le_word_horner horner_sum_uint be_value_def)
  moreover have "be_value bs < 2 ^ 32"
    using horner_sum_bytes[of "rev bs"] assms by (simp add: be_value_def)
  ultimately show ?thesis by (simp add: unat_of_nat take_bit_nat_eq_self)
qed

lemma Deserialize_uint32:
  "Deserialize_integral h view off =
     (if off + 4 \<le> length view then Parsed (mem_word Big (take 4 (drop off view)) :: uint32) (off + 4) else Parse_oob)"
proof (cases "off + 4 \<le> length view")
  case True
  let ?bs = "take 4 (drop off view)"
  have len: "length ?bs = sizeof (0 :: uint32)" using True by (simp add: sizeof_def)
  have "flipByByte Little (mem_word Little ?bs) = (mem_word Big ?bs :: uint32)"
  proof -
    have "mem_bytes Little (flipByByte Little (mem_word Little ?bs :: uint32)) = rev ?bs"
      using mem_bytes_mem_word[OF len, of Little] by (simp add: mem_bytes_flip)
    then show ?thesis
      using mem_word_mem_bytes[of Little "flipByByte Little (mem_word Little ?bs :: uint32)"] by (simp add: mem_word_def)
  qed
  then show ?thesis
    using True by (cases h) (simp_all add: Deserialize_integral_def read_mem_def sizeof_def Let_def)
qed (simp add: Deserialize_integral_def read_mem_def sizeof_def)

text \<open>
  C34: the string parser, on every input. It takes the big-endian number in the 4 bytes at the offset as the length;
  when that many bytes follow in the view it returns exactly these bytes and the offset behind them, and in every
  other case it reads outside of the view: it has no check of its own, never throws and never fails an
  assertion. The byte order of the machine does not matter.
\<close>

theorem string_out_of_bounds:
  "let len = be_value (take 4 (drop off view)) in
   Deserialize_string h view off =
     (if off + 4 + len \<le> length view then Parsed (take len (drop (off + 4) view)) (off + 4 + len) else Parse_oob)"
proof (cases "off + 4 \<le> length view")
  case True
  then have "unat (mem_word Big (take 4 (drop off view)) :: uint32) = be_value (take 4 (drop off view))"
    by (intro unat_mem_word_Big) simp
  then show ?thesis
    using True by (simp add: Deserialize_string_def Deserialize_uint32 read_mem_def Let_def)
qed (simp add: Deserialize_string_def Deserialize_uint32)

end
