(* ===== verification/Socket_Awaiter.thy ===== *)
theory Socket_Awaiter
  imports Sedeserialize
begin

text \<open>
  The socket awaiters of \<^verbatim>\<open>awaiter/asio/socket.h\<close> and the socket operations of asio they stand
  on.  asio is not part of the repository: its operations are the fields of the record
  \<^verbatim>\<open>asio\<close>, a parameter of every definition that does network input or output, and
  \<^verbatim>\<open>asio_streams\<close> states what the documentation promises of them.
\<close>

section \<open>The interface of asio\<close>

text \<open>An \<^verbatim>\<open>asio::error_code\<close>: success, \<^verbatim>\<open>asio::error::eof\<close>, or another error; with its message.\<close>

datatype error_code = No_error | Eof_error string | Other_error string

fun message :: "error_code \<Rightarrow> string" where
  "message No_error = ''Success''"
| "message (Eof_error m) = m"
| "message (Other_error m) = m"

fun is_eof :: "error_code \<Rightarrow> bool" where
  "is_eof (Eof_error _) = True"
| "is_eof _ = False"

text \<open>
  A socket is a value of type \<^verbatim>\<open>'k\<close>.  \<^verbatim>\<open>async_read\<close> is asked for a number of bytes and returns
  nothing as long as the operation has not completed; \<^verbatim>\<open>async_write\<close> writes a whole buffer;
  \<^verbatim>\<open>remote_ipport\<close> is the printed remote endpoint, which does not exist when the socket is not
  connected (\<^verbatim>\<open>remote_endpoint()\<close> throws).
\<close>

record 'k asio =
  async_read :: "'k \<Rightarrow> nat \<Rightarrow> (error_code \<times> bytes \<times> 'k) option"
  async_write :: "'k \<Rightarrow> bytes \<Rightarrow> error_code \<times> 'k"
  remote_ipport :: "'k \<Rightarrow> bytes option"

text \<open>
  What the code relies on, with \<^verbatim>\<open>incoming\<close> the bytes the peer has sent and the program has not
  yet read, and \<^verbatim>\<open>outgoing\<close> the bytes the program has written: a read for which enough bytes
  are there completes with exactly the next bytes, and a write that succeeds appends the buffer.
\<close>

definition asio_streams :: "'k asio \<Rightarrow> ('k \<Rightarrow> bytes) \<Rightarrow> ('k \<Rightarrow> bytes) \<Rightarrow> bool" where
  "asio_streams net incoming outgoing \<longleftrightarrow>
     (\<forall>s n. n \<le> length (incoming s) \<longrightarrow>
        (\<exists>s'. async_read net s n = Some (No_error, take n (incoming s), s') \<and>
              incoming s' = drop n (incoming s) \<and> outgoing s' = outgoing s \<and>
              remote_ipport net s' = remote_ipport net s)) \<and>
     (\<forall>s bs s'. async_write net s bs = (No_error, s') \<longrightarrow>
        incoming s' = incoming s \<and> outgoing s' = outgoing s @ bs \<and>
        remote_ipport net s' = remote_ipport net s)"

text \<open>
  A network that does not fail: every write succeeds and every socket is connected (a printed
  endpoint, \<^verbatim>\<open>address:port\<close>, has at most 100 characters).
\<close>

definition asio_reliable :: "'k asio \<Rightarrow> bool" where
  "asio_reliable net \<longleftrightarrow>
     (\<forall>s bs. fst (async_write net s bs) = No_error) \<and>
     (\<forall>s. \<exists>addr. remote_ipport net s = Some addr \<and> length addr \<le> 100)"

text \<open>
  A read for which there are not enough bytes does not complete as long as the connection is \<^verbatim>\<open>live\<close>, that is, the peer has not
  closed it and it has not failed; reading and writing do not change that.
\<close>

definition asio_waits :: "'k asio \<Rightarrow> ('k \<Rightarrow> bytes) \<Rightarrow> ('k \<Rightarrow> bool) \<Rightarrow> bool" where
  "asio_waits net incoming live \<longleftrightarrow>
     (\<forall>s n. live s \<and> length (incoming s) < n \<longrightarrow> async_read net s n = None) \<and>
     (\<forall>s n ec bs s'. async_read net s n = Some (ec, bs, s') \<longrightarrow> live s' = live s) \<and>
     (\<forall>s bs. live (snd (async_write net s bs)) = live s)"

section \<open>The awaiters\<close>

record awaiter_base =
  succ :: bool
  err_msg :: string

definition SocketAwaiterBase :: awaiter_base where
  "SocketAwaiterBase = \<lparr>succ = True, err_msg = ''''\<rparr>"

definition handle_error :: "error_code \<Rightarrow> awaiter_base \<Rightarrow> awaiter_base" where
  "handle_error ec b =
     (if ec \<noteq> No_error then b\<lparr>succ := False, err_msg := message ec\<rparr> else b)"

definition await_resume_or_throw :: "awaiter_base \<Rightarrow> 'a \<Rightarrow> 'a result" where
  "await_resume_or_throw b v =
     (if succ b = False then Inl (StdException (err_msg b)) else Inr v)"

text \<open>
  The completion handler of each awaiter followed by its \<^verbatim>\<open>await_resume\<close>; the arguments are
  those asio passes to the handler.
\<close>

definition SocketConnectAwaiter :: "error_code \<Rightarrow> bool" where
  "SocketConnectAwaiter ec =
     succ (if ec \<noteq> No_error then handle_error ec SocketAwaiterBase else SocketAwaiterBase)"

definition SocketReadAwaiter :: "bool \<Rightarrow> error_code \<Rightarrow> nat \<Rightarrow> nat result" where
  "SocketReadAwaiter throw_eof ec transferred =
     (if ec \<noteq> No_error \<and> \<not> is_eof ec
      then await_resume_or_throw (handle_error ec SocketAwaiterBase) 0
      else if ec \<noteq> No_error \<and> is_eof ec \<and> throw_eof
      then await_resume_or_throw (handle_error ec SocketAwaiterBase) 0
      else await_resume_or_throw SocketAwaiterBase transferred)"

definition SocketWriteAwaiter :: "error_code \<Rightarrow> nat \<Rightarrow> nat result" where
  "SocketWriteAwaiter ec transferred =
     (if ec \<noteq> No_error
      then await_resume_or_throw (handle_error ec SocketAwaiterBase) 0
      else await_resume_or_throw SocketAwaiterBase transferred)"

definition SocketAcceptAwaiter :: "error_code \<Rightarrow> 'k \<Rightarrow> 'k \<Rightarrow> 'k result" where
  "SocketAcceptAwaiter ec fresh accepted =
     (if ec \<noteq> No_error
      then await_resume_or_throw (handle_error ec SocketAwaiterBase) fresh
      else await_resume_or_throw SocketAwaiterBase accepted)"

lemmas awaiter_defs =
  SocketAwaiterBase_def handle_error_def await_resume_or_throw_def

lemma SocketConnectAwaiter_iff [simp]: "SocketConnectAwaiter ec \<longleftrightarrow> ec = No_error"
  by (simp add: SocketConnectAwaiter_def awaiter_defs)

lemma SocketReadAwaiter_cases:
  "SocketReadAwaiter throw_eof ec n =
     (if ec = No_error \<or> is_eof ec \<and> \<not> throw_eof then Inr n
      else Inl (StdException (message ec)))"
  by (auto simp: SocketReadAwaiter_def awaiter_defs)

lemma SocketWriteAwaiter_cases [simp]:
  "SocketWriteAwaiter ec n = (if ec = No_error then Inr n else Inl (StdException (message ec)))"
  by (simp add: SocketWriteAwaiter_def awaiter_defs)

lemma SocketAcceptAwaiter_cases [simp]:
  "SocketAcceptAwaiter ec fresh k =
     (if ec = No_error then Inr k else Inl (StdException (message ec)))"
  by (simp add: SocketAcceptAwaiter_def awaiter_defs)

section \<open>Streams\<close>

lemma asio_read:
  assumes "asio_streams net incoming outgoing" "incoming s = xs @ ys"
  obtains s' where "async_read net s (length xs) = Some (No_error, xs, s')" "incoming s' = ys"
    "outgoing s' = outgoing s" "remote_ipport net s' = remote_ipport net s"
proof -
  have "length xs \<le> length (incoming s)" using assms(2) by simp
  then obtain s' where "async_read net s (length xs) = Some (No_error, take (length xs) (incoming s), s')"
      "incoming s' = drop (length xs) (incoming s)" "outgoing s' = outgoing s"
      "remote_ipport net s' = remote_ipport net s"
    using assms(1) unfolding asio_streams_def by blast
  then show ?thesis using that assms(2) by simp
qed

lemma asio_write:
  assumes "asio_streams net incoming outgoing" "async_write net s bs = (No_error, s')"
  shows "incoming s' = incoming s" "outgoing s' = outgoing s @ bs"
    "remote_ipport net s' = remote_ipport net s"
  using assms unfolding asio_streams_def by blast+

text \<open>
  A connection as two byte streams and how its incoming stream ends: an instance of the
  interface, on which the hypotheses of the theorems are shown to hold.
\<close>

record connection =
  conn_in :: bytes
  conn_end :: "error_code option"
  conn_out :: bytes

definition plain_asio :: "connection asio" where
  "plain_asio =
     \<lparr>async_read = (\<lambda>s n.
        if n \<le> length (conn_in s)
        then Some (No_error, take n (conn_in s), s\<lparr>conn_in := drop n (conn_in s)\<rparr>)
        else case conn_end s of
               None \<Rightarrow> None
             | Some ec \<Rightarrow> Some (ec, conn_in s, s\<lparr>conn_in := []\<rparr>)),
      async_write = (\<lambda>s bs.
        (No_error, s\<lparr>conn_out := conn_out s @ bs\<rparr>)),
      remote_ipport = (\<lambda>s. Some [])\<rparr>"

definition opened :: "bytes \<Rightarrow> connection" where
  "opened bs = \<lparr>conn_in = bs, conn_end = None, conn_out = []\<rparr>"

lemma plain_asio_streams: "asio_streams plain_asio conn_in conn_out"
  by (auto simp: asio_streams_def plain_asio_def split: option.splits)

lemma plain_asio_waits: "asio_waits plain_asio conn_in (\<lambda>s. conn_end s = None)"
  by (auto simp: asio_waits_def plain_asio_def split: option.splits if_splits)

lemma plain_asio_reliable: "asio_reliable plain_asio"
  by (simp add: asio_reliable_def plain_asio_def)

end
