(* ===== verification/Switcher_Protocol.thy ===== *)
theory Switcher_Protocol
  imports Socket_Awaiter
begin

text \<open>
  The wire protocol between the switcher and its clients (\<^verbatim>\<open>switcher/switcher.h\<close>): the request,
  response and data packages, their serialisation, and the length-prefixed frames that
  \<^verbatim>\<open>read_package\<close> and \<^verbatim>\<open>write_package\<close> exchange over a socket.
\<close>

section \<open>Packages\<close>

definition request_type_push :: cint where "request_type_push = 0"
definition request_type_pop :: cint where "request_type_pop = 1"
definition request_type_check_topic_exist :: cint where "request_type_check_topic_exist = 2"
definition request_type_close_topic :: cint where "request_type_close_topic = 3"

definition request_type_str :: "string list" where
  "request_type_str =
     [''request_push'', ''request_pop'', ''request_check_topic_exist'', ''request_close_topic'']"

definition response_ok :: cint where "response_ok = 0"
definition response_topic_not_exist :: cint where "response_topic_not_exist = 1"

lemmas request_type_defs = request_type_push_def request_type_pop_def
  request_type_check_topic_exist_def request_type_close_topic_def

record request_package =
  req_topic :: bytes
  req_type :: cint
  timeout_ms :: cint

definition Serialize_request :: "endian \<Rightarrow> request_package \<Rightarrow> bytes \<Rightarrow> bytes option" where
  "Serialize_request host v appender =
     Option.bind (Serialize_string host (req_topic v) appender) (\<lambda>appender.
     Option.bind (Serialize_integral host (req_type v) appender) (\<lambda>appender.
     Serialize_integral host (timeout_ms v) appender))"

definition Deserialize_request :: "endian \<Rightarrow> bytes \<Rightarrow> nat \<Rightarrow> request_package parse" where
  "Deserialize_request host view off =
     and_then (Deserialize_string host view off) (\<lambda>topic off.
     and_then (Deserialize_integral host view off) (\<lambda>type off.
     and_then (Deserialize_integral host view off) (\<lambda>timeout off.
     Parsed \<lparr>req_topic = topic, req_type = type, timeout_ms = timeout\<rparr> off)))"

record response_package =
  resp_topic :: bytes
  wait_ms :: cint
  peer_addr :: bytes
  response_code :: cint

definition Serialize_response :: "endian \<Rightarrow> response_package \<Rightarrow> bytes \<Rightarrow> bytes option" where
  "Serialize_response host v appender =
     Option.bind (Serialize_string host (resp_topic v) appender) (\<lambda>appender.
     Option.bind (Serialize_integral host (wait_ms v) appender) (\<lambda>appender.
     Option.bind (Serialize_string host (peer_addr v) appender) (\<lambda>appender.
     Serialize_integral host (response_code v) appender)))"

definition Deserialize_response :: "endian \<Rightarrow> bytes \<Rightarrow> nat \<Rightarrow> response_package parse" where
  "Deserialize_response host view off =
     and_then (Deserialize_string host view off) (\<lambda>topic off.
     and_then (Deserialize_integral host view off) (\<lambda>wait off.
     and_then (Deserialize_string host view off) (\<lambda>peer off.
     and_then (Deserialize_integral host view off) (\<lambda>code off.
     Parsed \<lparr>resp_topic = topic, wait_ms = wait, peer_addr = peer, response_code = code\<rparr> off))))"

record data_package =
  data :: bytes
  meta_info :: bytes
  data_eof :: bool

definition Serialize_data :: "endian \<Rightarrow> data_package \<Rightarrow> bytes \<Rightarrow> bytes option" where
  "Serialize_data host v appender =
     Option.bind (Serialize_string host (data v) appender) (\<lambda>appender.
     Option.bind (Serialize_string host (meta_info v) appender) (\<lambda>appender.
     Serialize_bool (data_eof v) appender))"

definition Deserialize_data :: "endian \<Rightarrow> bytes \<Rightarrow> nat \<Rightarrow> data_package parse" where
  "Deserialize_data host view off =
     and_then (Deserialize_string host view off) (\<lambda>d off.
     and_then (Deserialize_string host view off) (\<lambda>m off.
     and_then (Deserialize_bool view off) (\<lambda>e off.
     Parsed \<lparr>data = d, meta_info = m, data_eof = e\<rparr> off)))"

section \<open>Frames\<close>

text \<open>
  \<^verbatim>\<open>write_package\<close>: serialise, check the size, write the 4-byte length and then the bytes.  The
  outcome is the new socket, an exception of \<^verbatim>\<open>async_write\<close>, or a failed \<^verbatim>\<open>assert\<close>.
\<close>

datatype 'k written = Written 'k | Write_throws exn | Write_assert

definition write_package ::
  "'k asio \<Rightarrow> endian \<Rightarrow> ('a \<Rightarrow> bytes \<Rightarrow> bytes option) \<Rightarrow> 'k \<Rightarrow> 'a \<Rightarrow> 'k written" where
  "write_package net host ser s pkg =
     (case ser pkg [] of
        None \<Rightarrow> Write_assert
      | Some buf \<Rightarrow>
          if \<not> length buf \<le> uint32_max then Write_assert
          else case Serialize_integral host (of_nat (length buf) :: uint32) [] of
            None \<Rightarrow> Write_assert
          | Some length_buf \<Rightarrow>
              (case async_write net s length_buf of
                 (No_error, s) \<Rightarrow>
                   (case async_write net s buf of
                      (No_error, s) \<Rightarrow> Written s
                    | (ec, _) \<Rightarrow> Write_throws (StdException (message ec)))
               | (ec, _) \<Rightarrow> Write_throws (StdException (message ec))))"

text \<open>
  \<^verbatim>\<open>read_package\<close> has two suspension points: the read of the length and the read of the
  package.  One step of it asks asio for the bytes it waits for and either stays suspended, goes
  on to the second read, or ends with a value, with the flag \<^verbatim>\<open>eof\<close> set, with an exception,
  with a failed \<^verbatim>\<open>assert\<close> or with an out-of-bounds read.
\<close>

datatype reading = Length | Body uint32

datatype 'a reads =
    Suspended
  | Continue reading
  | Got 'a
  | Got_eof
  | Read_throws exn
  | Read_assert
  | Read_oob

fun reads_of_parse :: "'a parse \<Rightarrow> 'a reads" where
  "reads_of_parse (Parsed v _) = Got v"
| "reads_of_parse (Parse_throws e) = Read_throws e"
| "reads_of_parse Parse_assert = Read_assert"
| "reads_of_parse Parse_oob = Read_oob"

definition read_length :: "endian \<Rightarrow> bytes \<Rightarrow> 'a reads" where
  "read_length host buf =
     (case Deserialize_view (Deserialize_integral host) buf of
        Parsed len _ \<Rightarrow> Continue (Body len)
      | Parse_throws e \<Rightarrow> Read_throws e
      | Parse_assert \<Rightarrow> Read_assert
      | Parse_oob \<Rightarrow> Read_oob)"

fun read_package ::
  "'k asio \<Rightarrow> endian \<Rightarrow> (bytes \<Rightarrow> nat \<Rightarrow> 'a parse) \<Rightarrow> reading \<Rightarrow> 'k \<Rightarrow> 'a reads \<times> 'k" where
  "read_package net host des Length s =
     (case async_read net s 4 of
        None \<Rightarrow> (Suspended, s)
      | Some (ec, buf, s) \<Rightarrow>
          if ec \<noteq> No_error then (Read_throws (StdException (message ec)), s)
          else (read_length host buf, s))"
| "read_package net host des (Body len) s =
     (case async_read net s (unat len) of
        None \<Rightarrow> (Suspended, s)
      | Some (ec, buf, s) \<Rightarrow>
          if ec \<noteq> No_error then (Read_throws (StdException (message ec)), s)
          else (reads_of_parse (Deserialize_view des buf), s))"

text \<open>The overload with the out-parameter \<^verbatim>\<open>eof\<close>.\<close>

fun read_package_eof ::
  "'k asio \<Rightarrow> endian \<Rightarrow> (bytes \<Rightarrow> nat \<Rightarrow> 'a parse) \<Rightarrow> reading \<Rightarrow> 'k \<Rightarrow> 'a reads \<times> 'k" where
  "read_package_eof net host des Length s =
     (case async_read net s 4 of
        None \<Rightarrow> (Suspended, s)
      | Some (ec, buf, s) \<Rightarrow>
          if ec \<noteq> No_error
          then if is_eof ec then (Got_eof, s) else (Read_throws (StdException (message ec)), s)
          else (read_length host buf, s))"
| "read_package_eof net host des (Body len) s =
     (case async_read net s (unat len) of
        None \<Rightarrow> (Suspended, s)
      | Some (ec, buf, s) \<Rightarrow>
          if ec \<noteq> No_error then (Read_throws (StdException (message ec)), s)
          else (reads_of_parse (Deserialize_view des buf), s))"

section \<open>The packages satisfy the contract of a codec\<close>

definition enc_request :: "request_package \<Rightarrow> bytes" where
  "enc_request v = enc_string (req_topic v) @ be_bytes (req_type v) @ be_bytes (timeout_ms v)"

definition enc_response :: "response_package \<Rightarrow> bytes" where
  "enc_response v =
     enc_string (resp_topic v) @ be_bytes (wait_ms v) @ enc_string (peer_addr v) @
     be_bytes (response_code v)"

definition enc_data :: "data_package \<Rightarrow> bytes" where
  "enc_data v = enc_string (data v) @ enc_string (meta_info v) @ enc_bool (data_eof v)"

abbreviation fits_request :: "request_package \<Rightarrow> bool" where
  "fits_request v \<equiv> fits_string (req_topic v)"

abbreviation fits_response :: "response_package \<Rightarrow> bool" where
  "fits_response v \<equiv> fits_string (resp_topic v) \<and> fits_string (peer_addr v)"

abbreviation fits_data :: "data_package \<Rightarrow> bool" where
  "fits_data v \<equiv> fits_string (data v) \<and> fits_string (meta_info v)"

lemmas codec_iffs = and_then_Parsed str.des_iff u32.des_iff bl.des_iff
lemmas codec_sers = str.ser_enc u32.ser_enc bl.ser_enc

lemma Deserialize_request_enc:
  assumes "fits_request v" "holds_at view off (enc_request v)"
  shows "Deserialize_request h view off = Parsed v (off + length (enc_request v))"
  using assms
      str.des_enc[of "req_topic v" view "off" h]
      u32.des_enc[of view "off + length (enc_string (req_topic v))" "req_type v" h]
      u32.des_enc[of view "off + length (enc_string (req_topic v)) + length (be_bytes (req_type v))" "timeout_ms v" h]
  by (simp add: Deserialize_request_def enc_request_def add.assoc)

interpretation req: codec "Serialize_request h" "Deserialize_request h'" fits_request enc_request
    for h h'
  by unfold_locales
    (simp add: Serialize_request_def enc_request_def codec_sers,
     simp add: Deserialize_request_enc,
     auto simp: Deserialize_request_def enc_request_def codec_iffs add.assoc)

lemma Deserialize_response_enc:
  assumes "fits_response v" "holds_at view off (enc_response v)"
  shows "Deserialize_response h view off = Parsed v (off + length (enc_response v))"
  using assms
      str.des_enc[of "resp_topic v" view "off" h]
      u32.des_enc[of view "off + length (enc_string (resp_topic v))" "wait_ms v" h]
      str.des_enc[of "peer_addr v" view "off + length (enc_string (resp_topic v)) + length (be_bytes (wait_ms v))" h]
      u32.des_enc[of view "off + length (enc_string (resp_topic v)) + length (be_bytes (wait_ms v)) + length (enc_string (peer_addr v))" "response_code v" h]
  by (simp add: Deserialize_response_def enc_response_def add.assoc)

interpretation resp: codec "Serialize_response h" "Deserialize_response h'" fits_response
    enc_response for h h'
  by unfold_locales
    (simp add: Serialize_response_def enc_response_def codec_sers,
     simp add: Deserialize_response_enc,
     auto simp: Deserialize_response_def enc_response_def codec_iffs add.assoc)

lemma Deserialize_data_enc:
  assumes "fits_data v" "holds_at view off (enc_data v)"
  shows "Deserialize_data h view off = Parsed v (off + length (enc_data v))"
  using assms
      str.des_enc[of "data v" view "off" h]
      str.des_enc[of "meta_info v" view "off + length (enc_string (data v))" h]
      bl.des_enc[of view "off + length (enc_string (data v)) + length (enc_string (meta_info v))" "data_eof v"]
  by (simp add: Deserialize_data_def enc_data_def add.assoc)

interpretation dat: codec "Serialize_data h" "Deserialize_data h'" fits_data enc_data for h h'
  by unfold_locales
    (simp add: Serialize_data_def enc_data_def codec_sers,
     simp add: Deserialize_data_enc,
     auto simp: Deserialize_data_def enc_data_def codec_iffs add.assoc)

section \<open>Frames carry packages\<close>

definition frame :: "bytes \<Rightarrow> bytes" where
  "frame buf = be_bytes (of_nat (length buf) :: uint32) @ buf"

definition frames :: "('a \<Rightarrow> bool) \<Rightarrow> ('a \<Rightarrow> bytes) \<Rightarrow> 'a \<Rightarrow> bool" where
  "frames fits enc v \<longleftrightarrow> fits v \<and> length (enc v) \<le> uint32_max"

lemma read_length_be [simp]: "read_length host (be_bytes (w :: uint32)) = Continue (Body w)"
proof -
  have "Deserialize_view (Deserialize_integral host) (be_bytes w) = Parsed w 4"
    using u32.view_iff[of host "be_bytes w" w 4] by simp
  then show ?thesis by (simp add: read_length_def)
qed

context codec
begin

lemma write_package_assert:
  "write_package net host ser s v = Write_assert \<longleftrightarrow> \<not> frames fits enc v"
  by (auto simp: write_package_def ser_enc frames_def u32.ser_enc split: prod.splits error_code.splits)

lemma write_package_written:
  assumes "asio_streams net incoming outgoing" "write_package net host ser s v = Written s'"
  shows "frames fits enc v" "incoming s' = incoming s" "outgoing s' = outgoing s @ frame (enc v)"
    "remote_ipport net s' = remote_ipport net s"
proof -
  obtain s1 where s1: "async_write net s (be_bytes (of_nat (length (enc v)) :: uint32)) = (No_error, s1)"
      "async_write net s1 (enc v) = (No_error, s')" and f: "frames fits enc v"
    using assms(2)
    by (auto simp: write_package_def ser_enc u32.ser_enc frames_def
        split: if_splits prod.splits error_code.splits)
  show "frames fits enc v" by (rule f)
  show "incoming s' = incoming s" "outgoing s' = outgoing s @ frame (enc v)"
      "remote_ipport net s' = remote_ipport net s"
    using asio_write[OF assms(1) s1(1)] asio_write[OF assms(1) s1(2)]
    by (simp_all add: frame_def)
qed

lemma read_framed:
  assumes "asio_streams net incoming outgoing" "frames fits enc v" "incoming s = frame (enc v) @ rest"
  obtains s1 s2 where
    "read_package net host des Length s = (Continue (Body (of_nat (length (enc v)))), s1)"
    "read_package_eof net host des Length s = (Continue (Body (of_nat (length (enc v)))), s1)"
    "read_package net host des (Body (of_nat (length (enc v)))) s1 = (Got v, s2)"
    "read_package_eof net host des (Body (of_nat (length (enc v)))) s1 = (Got v, s2)"
    "incoming s2 = rest" "outgoing s2 = outgoing s" "outgoing s1 = outgoing s"
    "remote_ipport net s2 = remote_ipport net s" "remote_ipport net s1 = remote_ipport net s"
proof -
  let ?len = "be_bytes (of_nat (length (enc v)) :: uint32)"
  have "incoming s = ?len @ (enc v @ rest)" using assms(3) by (simp add: frame_def)
  then obtain s1 where s1: "async_read net s (length ?len) = Some (No_error, ?len, s1)"
      "incoming s1 = enc v @ rest" "outgoing s1 = outgoing s"
      "remote_ipport net s1 = remote_ipport net s"
    by (rule asio_read[OF assms(1)])
  from s1(2) obtain s2 where s2: "async_read net s1 (length (enc v)) = Some (No_error, enc v, s2)"
      "incoming s2 = rest" "outgoing s2 = outgoing s1" "remote_ipport net s2 = remote_ipport net s1"
    by (rule asio_read[OF assms(1)])
  have len: "unat (of_nat (length (enc v)) :: uint32) = length (enc v)"
    using assms(2) by (simp add: frames_def)
  have view: "reads_of_parse (Deserialize_view des (enc v)) = Got v"
    using assms(2) view_iff[of "enc v" v "length (enc v)"] by (simp add: frames_def)
  show ?thesis
    by (rule that[of s1 s2]) (use s1 s2 len view in simp_all)
qed

end

section \<open>Properties\<close>

text \<open>
  C29: the three packages of the protocol.  A buffer parses as a request, a response or a data
  package exactly when it is what \<^verbatim>\<open>Serialize\<close> writes for it, on machines of any byte orders.
\<close>

theorem packages_round_trip:
  "(Deserialize_view (Deserialize_request h') view = Parsed rq n) =
     (Serialize_request h rq [] = Some view \<and> n = length view) \<and>
   (Deserialize_view (Deserialize_response h') view = Parsed rs n) =
     (Serialize_response h rs [] = Some view \<and> n = length view) \<and>
   (Deserialize_view (Deserialize_data h') view = Parsed dt n) =
     (Serialize_data h dt [] = Some view \<and> n = length view)"
  by (auto simp: req.view_iff resp.view_iff dat.view_iff req.ser_enc resp.ser_enc dat.ser_enc)

end
