(* ===== verification/Switcher.thy ===== *)
theory Switcher
  imports Switcher_Protocol "HOL-Library.Multiset"
begin

text \<open>
  The switcher server (class \<^verbatim>\<open>Switcher\<close> of \<^verbatim>\<open>switcher/switcher.h\<close>).  All its coroutines run on
  the one thread of its \<^verbatim>\<open>io_context\<close>, so they interleave at their \<^verbatim>\<open>co_await\<close>s only: the state
  holds the map of waiting sockets, the sockets, and the list of spawned coroutines, each at the
  suspension point it has reached, and one step runs one of them to its next suspension point.
\<close>

section \<open>State\<close>

record pending_nodes =
  pushing_nodes :: "nat list"
  poping_nodes :: "nat list"

definition no_nodes :: pending_nodes where
  "no_nodes = \<lparr>pushing_nodes = [], poping_nodes = []\<rparr>"

text \<open>
  The coroutines: \<^verbatim>\<open>handle\<close> reading a request; \<^verbatim>\<open>handle_check_topic_exist\<close> or
  \<^verbatim>\<open>handle_close_topic_request\<close> about to write the response; \<^verbatim>\<open>transfer_data\<close> just spawned,
  reading the data package, about to write it to the popping socket, and about to write the
  response to the pushing and to the popping socket.
\<close>

datatype task =
    Handle nat reading
  | Reply nat response_package
  | Transfer_start nat nat bytes
  | Transfer_read nat nat bytes reading
  | Transfer_data nat nat bytes data_package
  | Transfer_push nat nat response_package
  | Transfer_pop nat nat response_package

text \<open>
  The coroutine \<^verbatim>\<open>start_accept\<close>: it has not created its acceptor yet, it waits for clients, or it has ended by an exception.
  Such an exception goes no further: the coroutine was spawned with \<^verbatim>\<open>asio::detached\<close>, which drops it.
\<close>

datatype acceptor = Unbound | Accepting | Accept_ended

record 'k switcher =
  acceptor :: acceptor
  datas :: "bytes \<rightharpoonup> pending_nodes"
  socks :: "nat \<Rightarrow> 'k"
  next_sock :: nat
  tasks :: "task list"

text \<open>Running a coroutine: the new state and the coroutines that take its place, or the end of
  the process by a failed \<^verbatim>\<open>assert\<close>, or an out-of-bounds read, after which nothing is known.\<close>

datatype 'k ran = Ran "'k switcher" "task list" | Aborts | Reads_oob

section \<open>The handlers\<close>

definition handle_push_request ::
  "nat \<Rightarrow> request_package \<Rightarrow> 'k switcher \<Rightarrow> 'k switcher \<times> task list" where
  "handle_push_request s pkg st =
     (case datas st (req_topic pkg) of
        None \<Rightarrow>
          (st\<lparr>datas := (datas st)(req_topic pkg \<mapsto> no_nodes\<lparr>pushing_nodes := [s]\<rparr>)\<rparr>, [])
      | Some it \<Rightarrow>
          if poping_nodes it = []
          then (st\<lparr>datas := (datas st)(req_topic pkg \<mapsto>
                  it\<lparr>pushing_nodes := pushing_nodes it @ [s]\<rparr>)\<rparr>, [])
          else (st\<lparr>datas := (datas st)(req_topic pkg \<mapsto>
                  it\<lparr>poping_nodes := butlast (poping_nodes it)\<rparr>)\<rparr>,
                [Transfer_start s (last (poping_nodes it)) (req_topic pkg)]))"

definition handle_pop_request ::
  "nat \<Rightarrow> request_package \<Rightarrow> 'k switcher \<Rightarrow> 'k switcher \<times> task list" where
  "handle_pop_request s pkg st =
     (case datas st (req_topic pkg) of
        None \<Rightarrow>
          (st\<lparr>datas := (datas st)(req_topic pkg \<mapsto> no_nodes\<lparr>poping_nodes := [s]\<rparr>)\<rparr>, [])
      | Some it \<Rightarrow>
          if pushing_nodes it = []
          then (st\<lparr>datas := (datas st)(req_topic pkg \<mapsto>
                  it\<lparr>poping_nodes := poping_nodes it @ [s]\<rparr>)\<rparr>, [])
          else (st\<lparr>datas := (datas st)(req_topic pkg \<mapsto>
                  it\<lparr>pushing_nodes := butlast (pushing_nodes it)\<rparr>)\<rparr>,
                [Transfer_start (last (pushing_nodes it)) s (req_topic pkg)]))"

definition handle_check_topic_exist ::
  "nat \<Rightarrow> request_package \<Rightarrow> 'k switcher \<Rightarrow> 'k switcher \<times> task list" where
  "handle_check_topic_exist s pkg st =
     (let topic_exist = (datas st (req_topic pkg) \<noteq> None)
      in (st, [Reply s \<lparr>resp_topic = req_topic pkg, wait_ms = 0, peer_addr = [],
                 response_code = (if topic_exist then response_ok else response_topic_not_exist)\<rparr>]))"

definition handle_close_topic_request ::
  "nat \<Rightarrow> request_package \<Rightarrow> 'k switcher \<Rightarrow> 'k switcher \<times> task list" where
  "handle_close_topic_request s pkg st =
     (st\<lparr>datas := (datas st)(req_topic pkg := None)\<rparr>,
      [Reply s \<lparr>resp_topic = req_topic pkg, wait_ms = 0, peer_addr = [],
         response_code = response_ok\<rparr>])"

text \<open>
  \<^verbatim>\<open>handle\<close> after the request has been read: the log message indexes \<^verbatim>\<open>request_type_str\<close> and
  asks for the remote endpoint (which may throw), then the type selects the handler; the invalid
  request exception is caught in \<^verbatim>\<open>handle\<close> itself.
\<close>

definition handle_request ::
  "'k asio \<Rightarrow> nat \<Rightarrow> request_package \<Rightarrow> 'k switcher \<Rightarrow> 'k ran" where
  "handle_request net s pkg st =
     (if \<not> (0 \<le> sint (req_type pkg) \<and> nat (sint (req_type pkg)) < length request_type_str)
      then Reads_oob
      else case remote_ipport net (socks st s) of
        None \<Rightarrow> Ran st []
      | Some _ \<Rightarrow>
          if req_type pkg = request_type_push
          then case_prod Ran (handle_push_request s pkg st)
          else if req_type pkg = request_type_pop
          then case_prod Ran (handle_pop_request s pkg st)
          else if req_type pkg = request_type_close_topic
          then case_prod Ran (handle_close_topic_request s pkg st)
          else if req_type pkg = request_type_check_topic_exist
          then case_prod Ran (handle_check_topic_exist s pkg st)
          else Ran st [])"

definition set_sock :: "nat \<Rightarrow> 'k \<Rightarrow> 'k switcher \<Rightarrow> 'k switcher" where
  "set_sock s k st = st\<lparr>socks := (socks st)(s := k)\<rparr>"

definition handle :: "'k asio \<Rightarrow> endian \<Rightarrow> nat \<Rightarrow> reading \<Rightarrow> 'k switcher \<Rightarrow> 'k ran" where
  "handle net host s rd st =
     (case read_package_eof net host (Deserialize_request host) rd (socks st s) of
        (Suspended, _) \<Rightarrow> Ran st [Handle s rd]
      | (Continue rd, k) \<Rightarrow> Ran (set_sock s k st) [Handle s rd]
      | (Got pkg, k) \<Rightarrow> handle_request net s pkg (set_sock s k st)
      | (Got_eof, k) \<Rightarrow> Ran (set_sock s k st) []
      | (Read_throws _, k) \<Rightarrow> Ran (set_sock s k st) []
      | (Read_assert, _) \<Rightarrow> Aborts
      | (Read_oob, _) \<Rightarrow> Reads_oob)"

text \<open>The tail of the two handlers that answer by themselves.\<close>

definition reply :: "'k asio \<Rightarrow> endian \<Rightarrow> nat \<Rightarrow> response_package \<Rightarrow> 'k switcher \<Rightarrow> 'k ran" where
  "reply net host s rpkg st =
     (case write_package net host (Serialize_response host) (socks st s) rpkg of
        Written k \<Rightarrow> Ran (set_sock s k st) [Handle s Length]
      | Write_throws _ \<Rightarrow> Ran st []
      | Write_assert \<Rightarrow> Aborts)"

section \<open>transfer_data\<close>

definition transfer_start ::
  "'k asio \<Rightarrow> nat \<Rightarrow> nat \<Rightarrow> bytes \<Rightarrow> 'k switcher \<Rightarrow> 'k ran" where
  "transfer_start net p q topic st =
     (case (remote_ipport net (socks st p), remote_ipport net (socks st q)) of
        (Some _, Some _) \<Rightarrow> Ran st [Transfer_read p q topic Length]
      | _ \<Rightarrow> Ran st [])"

definition transfer_read ::
  "'k asio \<Rightarrow> endian \<Rightarrow> nat \<Rightarrow> nat \<Rightarrow> bytes \<Rightarrow> reading \<Rightarrow> 'k switcher \<Rightarrow> 'k ran" where
  "transfer_read net host p q topic rd st =
     (case read_package net host (Deserialize_data host) rd (socks st p) of
        (Suspended, _) \<Rightarrow> Ran st [Transfer_read p q topic rd]
      | (Continue rd, k) \<Rightarrow> Ran (set_sock p k st) [Transfer_read p q topic rd]
      | (Got dpkg, k) \<Rightarrow> Ran (set_sock p k st) [Transfer_data p q topic dpkg]
      | (Got_eof, k) \<Rightarrow> Ran (set_sock p k st) []
      | (Read_throws _, k) \<Rightarrow> Ran (set_sock p k st) []
      | (Read_assert, _) \<Rightarrow> Aborts
      | (Read_oob, _) \<Rightarrow> Reads_oob)"

definition transfer_data ::
  "'k asio \<Rightarrow> endian \<Rightarrow> nat \<Rightarrow> nat \<Rightarrow> bytes \<Rightarrow> data_package \<Rightarrow> 'k switcher \<Rightarrow> 'k ran" where
  "transfer_data net host p q topic dpkg st =
     (case write_package net host (Serialize_data host) (socks st q) dpkg of
        Written k \<Rightarrow>
          let st = set_sock q k st
          in (case remote_ipport net (socks st q) of
                None \<Rightarrow> Ran st []
              | Some addr \<Rightarrow>
                  Ran st [Transfer_push p q \<lparr>resp_topic = topic, wait_ms = 0, peer_addr = addr,
                            response_code = response_ok\<rparr>])
      | Write_throws _ \<Rightarrow> Ran st []
      | Write_assert \<Rightarrow> Aborts)"

definition transfer_push ::
  "'k asio \<Rightarrow> endian \<Rightarrow> nat \<Rightarrow> nat \<Rightarrow> response_package \<Rightarrow> 'k switcher \<Rightarrow> 'k ran" where
  "transfer_push net host p q rpkg st =
     (case write_package net host (Serialize_response host) (socks st p) rpkg of
        Written k \<Rightarrow>
          let st = set_sock p k st
          in (case remote_ipport net (socks st p) of
                None \<Rightarrow> Ran st []
              | Some addr \<Rightarrow> Ran st [Transfer_pop p q (rpkg\<lparr>peer_addr := addr\<rparr>)])
      | Write_throws _ \<Rightarrow> Ran st []
      | Write_assert \<Rightarrow> Aborts)"

definition transfer_pop ::
  "'k asio \<Rightarrow> endian \<Rightarrow> nat \<Rightarrow> nat \<Rightarrow> response_package \<Rightarrow> 'k switcher \<Rightarrow> 'k ran" where
  "transfer_pop net host p q rpkg st =
     (case write_package net host (Serialize_response host) (socks st q) rpkg of
        Written k \<Rightarrow> Ran (set_sock q k st) [Handle p Length, Handle q Length]
      | Write_throws _ \<Rightarrow> Ran st []
      | Write_assert \<Rightarrow> Aborts)"

fun run_task :: "'k asio \<Rightarrow> endian \<Rightarrow> task \<Rightarrow> 'k switcher \<Rightarrow> 'k ran" where
  "run_task net host (Handle s rd) st = handle net host s rd st"
| "run_task net host (Reply s rpkg) st = reply net host s rpkg st"
| "run_task net host (Transfer_start p q topic) st = transfer_start net p q topic st"
| "run_task net host (Transfer_read p q topic rd) st = transfer_read net host p q topic rd st"
| "run_task net host (Transfer_data p q topic dpkg) st = transfer_data net host p q topic dpkg st"
| "run_task net host (Transfer_push p q rpkg) st = transfer_push net host p q rpkg st"
| "run_task net host (Transfer_pop p q rpkg) st = transfer_pop net host p q rpkg st"

section \<open>Accepting clients and running the io_context\<close>

definition Switcher :: "(nat \<Rightarrow> 'k) \<Rightarrow> 'k switcher" where
  "Switcher unused = \<lparr>acceptor = Unbound, datas = Map.empty, socks = unused, next_sock = 0, tasks = []\<rparr>"

text \<open>\<^verbatim>\<open>start_accept\<close> up to its loop: creating the acceptor throws when the endpoint cannot be bound.\<close>

definition start_accept :: "bool \<Rightarrow> 'k switcher \<Rightarrow> 'k switcher" where
  "start_accept can_bind st = st\<lparr>acceptor := (if can_bind then Accepting else Accept_ended)\<rparr>"

text \<open>One round of its loop: \<^verbatim>\<open>async_accept\<close> completes with \<^verbatim>\<open>ec\<close> and the socket \<^verbatim>\<open>k\<close>. An error, or a socket without a
  remote endpoint, which the log message asks for, throws and ends the coroutine.\<close>

definition accept_client :: "'k asio \<Rightarrow> error_code \<Rightarrow> 'k \<Rightarrow> 'k switcher \<Rightarrow> 'k switcher" where
  "accept_client net ec k st =
     (if ec \<noteq> No_error \<or> remote_ipport net k = None then st\<lparr>acceptor := Accept_ended\<rparr>
      else st\<lparr>socks := (socks st)(next_sock st := k), next_sock := Suc (next_sock st),
              tasks := tasks st @ [Handle (next_sock st) Length]\<rparr>)"

text \<open>Resuming a coroutine may end the process.\<close>

datatype death = Assert_failed | Out_of_bounds

definition run_nth :: "'k asio \<Rightarrow> endian \<Rightarrow> nat \<Rightarrow> 'k switcher \<Rightarrow> death + 'k switcher" where
  "run_nth net host i st =
     (case run_task net host (tasks st ! i) st of
        Ran st' ts \<Rightarrow>
          Inr (st'\<lparr>tasks := take i (tasks st) @ drop (Suc i) (tasks st) @ ts\<rparr>)
      | Aborts \<Rightarrow> Inl Assert_failed
      | Reads_oob \<Rightarrow> Inl Out_of_bounds)"

text \<open>The server runs: the acceptor is created, a client connects, the network delivers to a socket (any change of the
  sockets), or a coroutine is resumed. The other outcome of resuming a coroutine is the death of the process.\<close>

inductive sw_step :: "'k asio \<Rightarrow> endian \<Rightarrow> 'k switcher \<Rightarrow> 'k switcher \<Rightarrow> bool"
  for net :: "'k asio" and host :: endian where
  bind: "acceptor st = Unbound \<Longrightarrow> sw_step net host st (start_accept can_bind st)"
| accept: "acceptor st = Accepting \<Longrightarrow> sw_step net host st (accept_client net ec k st)"
| deliver: "sw_step net host st (st\<lparr>socks := f\<rparr>)"
| run: "i < length (tasks st) \<Longrightarrow> run_nth net host i st = Inr st' \<Longrightarrow> sw_step net host st st'"

definition sw_dies :: "'k asio \<Rightarrow> endian \<Rightarrow> 'k switcher \<Rightarrow> death \<Rightarrow> bool" where
  "sw_dies net host st d \<longleftrightarrow> (\<exists>i<length (tasks st). run_nth net host i st = Inl d)"

inductive sw_reach :: "'k asio \<Rightarrow> endian \<Rightarrow> 'k switcher \<Rightarrow> 'k switcher \<Rightarrow> bool"
  for net :: "'k asio" and host :: endian where
  here: "sw_reach net host st st"
| step: "sw_reach net host st st' \<Longrightarrow> sw_step net host st' st'' \<Longrightarrow> sw_reach net host st st''"

section \<open>Ownership of the sockets\<close>

text \<open>The sockets a coroutine owns, and those that wait in the map.\<close>

fun task_socks :: "task \<Rightarrow> nat list" where
  "task_socks (Handle s _) = [s]"
| "task_socks (Reply s _) = [s]"
| "task_socks (Transfer_start p q _) = [p, q]"
| "task_socks (Transfer_read p q _ _) = [p, q]"
| "task_socks (Transfer_data p q _ _) = [p, q]"
| "task_socks (Transfer_push p q _) = [p, q]"
| "task_socks (Transfer_pop p q _) = [p, q]"

definition held :: "task list \<Rightarrow> nat multiset" where
  "held ts = (\<Sum>t\<leftarrow>ts. mset (task_socks t))"

definition waiting :: "pending_nodes \<Rightarrow> nat multiset" where
  "waiting it = mset (pushing_nodes it) + mset (poping_nodes it)"

definition waiting_on :: "(bytes \<rightharpoonup> pending_nodes) \<Rightarrow> bytes \<Rightarrow> nat multiset" where
  "waiting_on d topic = (case d topic of None \<Rightarrow> {#} | Some it \<Rightarrow> waiting it)"

definition parked :: "(bytes \<rightharpoonup> pending_nodes) \<Rightarrow> nat multiset" where
  "parked d = (\<Sum>topic\<in>dom d. waiting_on d topic)"

text \<open>A topic never has both a waiting pusher and a waiting popper.\<close>

definition one_sided :: "(bytes \<rightharpoonup> pending_nodes) \<Rightarrow> bool" where
  "one_sided d \<longleftrightarrow>
     (\<forall>topic it. d topic = Some it \<longrightarrow> pushing_nodes it = [] \<or> poping_nodes it = [])"

definition sw_inv :: "'k switcher \<Rightarrow> bool" where
  "sw_inv st \<longleftrightarrow>
     finite (dom (datas st)) \<and> one_sided (datas st) \<and>
     (\<forall>s. count (held (tasks st) + parked (datas st)) s \<le> (if s < next_sock st then 1 else 0))"

lemma held_simps [simp]:
  "held [] = {#}" "held (t # ts) = mset (task_socks t) + held ts" "held (ts @ us) = held ts + held us"
  by (simp_all add: held_def)

lemma parked_update:
  assumes "finite (dom d)"
  shows "parked (d(topic \<mapsto> it)) + waiting_on d topic = parked d + waiting it"
proof -
  have same: "(\<Sum>t\<in>dom d - {topic}. waiting_on (d(topic \<mapsto> it)) t) =
      (\<Sum>t\<in>dom d - {topic}. waiting_on d t)"
    by (intro sum.cong) (auto simp: waiting_on_def)
  have new: "parked (d(topic \<mapsto> it)) = waiting it + (\<Sum>t\<in>dom d - {topic}. waiting_on d t)"
    using assms same
    by (simp add: parked_def sum.insert_remove) (simp add: waiting_on_def)
  show ?thesis
  proof (cases "topic \<in> dom d")
    case True
    then have "parked d = waiting_on d topic + (\<Sum>t\<in>dom d - {topic}. waiting_on d t)"
      using assms by (simp add: parked_def sum.remove)
    then show ?thesis by (simp add: new)
  next
    case False
    then have "waiting_on d topic = {#}" "dom d - {topic} = dom d"
      by (auto simp: waiting_on_def domIff)
    then show ?thesis unfolding new by (simp add: parked_def)
  qed
qed

lemma parked_erase:
  assumes "finite (dom d)"
  shows "parked (d(topic := None)) + waiting_on d topic = parked d"
proof -
  have "parked (d(topic := None)) = (\<Sum>t\<in>dom d - {topic}. waiting_on d t)"
    unfolding parked_def by (intro sum.cong) (auto simp: waiting_on_def)
  moreover have "parked d = waiting_on d topic + (\<Sum>t\<in>dom d - {topic}. waiting_on d t)"
  proof (cases "topic \<in> dom d")
    case False
    then have "waiting_on d topic = {#}" "dom d - {topic} = dom d"
      by (auto simp: waiting_on_def domIff)
    then show ?thesis by (simp add: parked_def)
  qed (use assms in \<open>simp add: parked_def sum.remove\<close>)
  ultimately show ?thesis by simp
qed

text \<open>
  What running a coroutine that owns the sockets \<^verbatim>\<open>own\<close> may do to the map of waiting sockets:
  nothing is owned twice afterwards, and a topic stays one-sided.
\<close>

definition moves :: "nat multiset \<Rightarrow> 'k switcher \<Rightarrow> 'k switcher \<Rightarrow> task list \<Rightarrow> bool" where
  "moves own st st' ts \<longleftrightarrow>
     next_sock st' = next_sock st \<and>
     (finite (dom (datas st)) \<and> one_sided (datas st) \<longrightarrow>
        finite (dom (datas st')) \<and> one_sided (datas st') \<and>
        held ts + parked (datas st') \<subseteq># own + parked (datas st))"

lemma moves_same [simp]:
  "datas st' = datas st \<Longrightarrow> next_sock st' = next_sock st \<Longrightarrow> held ts \<subseteq># own \<Longrightarrow>
     moves own st st' ts"
  by (simp add: moves_def)

lemma moves_set_sock [simp]: "moves own (set_sock s k st) st' ts \<longleftrightarrow> moves own st st' ts"
  by (simp add: moves_def set_sock_def)

lemma set_sock_simps [simp]:
  "datas (set_sock s k st) = datas st" "next_sock (set_sock s k st) = next_sock st"
  "tasks (set_sock s k st) = tasks st" "socks (set_sock s k st) = (socks st)(s := k)"
  by (simp_all add: set_sock_def)

lemma moves_update:
  assumes "datas st' = (datas st)(topic \<mapsto> it)" "next_sock st' = next_sock st"
    "one_sided (datas st) \<Longrightarrow> pushing_nodes it = [] \<or> poping_nodes it = []"
    "one_sided (datas st) \<Longrightarrow> held ts + waiting it = own + waiting_on (datas st) topic"
  shows "moves own st st' ts"
proof -
  have "held ts + parked (datas st') = own + parked (datas st)"
    if d: "finite (dom (datas st))" "one_sided (datas st)"
  proof -
    let ?w = "waiting_on (datas st) topic"
    have "held ts + parked (datas st') + ?w = held ts + (parked (datas st) + waiting it)"
      unfolding parked_update[OF d(1), of topic it, symmetric] assms(1) by (simp only: add.assoc)
    also have "\<dots> = (held ts + waiting it) + parked (datas st)"
      by (simp only: add.assoc add.commute[of "parked (datas st)"])
    also have "\<dots> = own + parked (datas st) + ?w"
      unfolding assms(4)[OF d(2)] by (simp only: add.assoc add.commute[of ?w])
    finally show ?thesis by simp
  qed
  then show ?thesis
    using assms(2,3) by (auto simp: moves_def assms(1) one_sided_def)
qed

lemma mset_last: "xs \<noteq> [] \<Longrightarrow> mset xs = add_mset (last xs) (mset (butlast xs))"
  by (cases xs rule: rev_cases) auto

lemma one_sidedD:
  "one_sided d \<Longrightarrow> d topic = Some it \<Longrightarrow> pushing_nodes it = [] \<or> poping_nodes it = []"
  by (auto simp: one_sided_def)

lemma one_sided_erase: "one_sided d \<Longrightarrow> one_sided (d(topic := None))"
  unfolding one_sided_def by (metis fun_upd_apply option.distinct(1))

text \<open>The two handlers that park or match a socket, and the one that erases a topic.\<close>

lemma handle_push_request_moves:
  assumes "handle_push_request s pkg st = (st', ts)"
  shows "moves {#s#} st st' ts"
proof (cases "datas st (req_topic pkg)")
  case None
  then show ?thesis
    using assms
    by (intro moves_update[where topic = "req_topic pkg" and it = "no_nodes\<lparr>pushing_nodes := [s]\<rparr>"])
      (auto simp: handle_push_request_def no_nodes_def waiting_def waiting_on_def)
next
  case (Some it)
  show ?thesis
  proof (cases "poping_nodes it = []")
    case True
    then show ?thesis
      using assms Some
      by (intro moves_update[where topic = "req_topic pkg"
            and it = "it\<lparr>pushing_nodes := pushing_nodes it @ [s]\<rparr>"])
        (auto simp: handle_push_request_def waiting_def waiting_on_def)
  next
    case False
    then show ?thesis
      using assms Some one_sidedD[of "datas st", OF _ Some] mset_last[OF False]
      by (intro moves_update[where topic = "req_topic pkg"
            and it = "it\<lparr>poping_nodes := butlast (poping_nodes it)\<rparr>"])
        (auto simp: handle_push_request_def waiting_def waiting_on_def)
  qed
qed

lemma handle_pop_request_moves:
  assumes "handle_pop_request s pkg st = (st', ts)"
  shows "moves {#s#} st st' ts"
proof (cases "datas st (req_topic pkg)")
  case None
  then show ?thesis
    using assms
    by (intro moves_update[where topic = "req_topic pkg" and it = "no_nodes\<lparr>poping_nodes := [s]\<rparr>"])
      (auto simp: handle_pop_request_def no_nodes_def waiting_def waiting_on_def)
next
  case (Some it)
  show ?thesis
  proof (cases "pushing_nodes it = []")
    case True
    then show ?thesis
      using assms Some
      by (intro moves_update[where topic = "req_topic pkg"
            and it = "it\<lparr>poping_nodes := poping_nodes it @ [s]\<rparr>"])
        (auto simp: handle_pop_request_def waiting_def waiting_on_def)
  next
    case False
    then show ?thesis
      using assms Some one_sidedD[of "datas st", OF _ Some] mset_last[OF False]
      by (intro moves_update[where topic = "req_topic pkg"
            and it = "it\<lparr>pushing_nodes := butlast (pushing_nodes it)\<rparr>"])
        (auto simp: handle_pop_request_def waiting_def waiting_on_def)
  qed
qed

lemma handle_close_topic_request_moves:
  assumes "handle_close_topic_request s pkg st = (st', ts)"
  shows "moves {#s#} st st' ts"
proof -
  have "parked ((datas st)(req_topic pkg := None)) \<subseteq># parked (datas st)"
    if "finite (dom (datas st))"
    using parked_erase[OF that, of "req_topic pkg"] by (metis mset_subset_eq_add_left)
  then show ?thesis
    using assms one_sided_erase[of "datas st" "req_topic pkg"]
    by (auto simp: handle_close_topic_request_def moves_def)
qed

lemma handle_request_moves:
  assumes "handle_request net s pkg st = Ran st' ts"
  shows "moves {#s#} st st' ts"
  using assms handle_push_request_moves[of s pkg st st' ts]
    handle_pop_request_moves[of s pkg st st' ts] handle_close_topic_request_moves[of s pkg st st' ts]
  by (auto simp: handle_request_def handle_check_topic_exist_def Let_def
      split: if_splits option.splits prod.splits)

lemma run_task_moves:
  assumes "run_task net host t st = Ran st' ts"
  shows "moves (mset (task_socks t)) st st' ts"
proof (cases t)
  case (Handle s rd)
  then show ?thesis
    using assms
    by (auto simp: handle_def split: prod.splits reads.splits dest: handle_request_moves)
qed (use assms in \<open>auto simp: reply_def transfer_start_def transfer_read_def transfer_data_def
    transfer_push_def transfer_pop_def Let_def
    split: prod.splits reads.splits written.splits option.splits\<close>)

text \<open>Every step of the server keeps the invariant.\<close>

lemma sw_inv_Switcher: "sw_inv (Switcher unused)"
  by (simp add: sw_inv_def Switcher_def one_sided_def parked_def)

lemma sw_inv_accept:
  assumes "sw_inv st"
  shows "sw_inv (accept_client net ec k st)"
proof -
  let ?st = "accept_client net ec k st"
  have "count (held (tasks ?st) + parked (datas ?st)) s \<le> (if s < next_sock ?st then 1 else 0)" for s
  proof -
    have "count (held (tasks st) + parked (datas st)) s \<le> (if s < next_sock st then 1 else 0)"
      using assms by (simp add: sw_inv_def)
    then show ?thesis by (auto simp: accept_client_def split: if_splits)
  qed
  moreover have "finite (dom (datas ?st))" "one_sided (datas ?st)"
    using assms by (simp_all add: sw_inv_def accept_client_def)
  ultimately show ?thesis unfolding sw_inv_def by blast
qed

lemma sw_inv_run:
  assumes "sw_inv st" "i < length (tasks st)" "run_nth net host i st = Inr st'"
  shows "sw_inv st'"
proof -
  obtain st1 ts where run: "run_task net host (tasks st ! i) st = Ran st1 ts"
    and st': "st' = st1\<lparr>tasks := take i (tasks st) @ drop (Suc i) (tasks st) @ ts\<rparr>"
    using assms(3) by (auto simp: run_nth_def split: ran.splits)
  have split: "held (tasks st) =
      held (take i (tasks st)) + mset (task_socks (tasks st ! i)) + held (drop (Suc i) (tasks st))"
    using arg_cong[OF id_take_nth_drop[OF assms(2)], of held] by simp
  have fin: "finite (dom (datas st))" "one_sided (datas st)"
    and cnt: "\<And>s. count (held (tasks st) + parked (datas st)) s \<le> (if s < next_sock st then 1 else 0)"
    using assms(1) by (auto simp: sw_inv_def)
  have new: "next_sock st1 = next_sock st" "finite (dom (datas st1))" "one_sided (datas st1)"
    and sub: "held ts + parked (datas st1) \<subseteq># mset (task_socks (tasks st ! i)) + parked (datas st)"
    using run_task_moves[OF run] fin by (auto simp: moves_def)
  have "count (held (tasks st') + parked (datas st')) s \<le>
      count (held (tasks st) + parked (datas st)) s" for s
    using mset_subset_eq_count[OF sub, of s] by (simp add: st' split)
  then have "count (held (tasks st') + parked (datas st')) s \<le> (if s < next_sock st then 1 else 0)"
    for s using cnt[of s] by (rule order_trans)
  then show ?thesis
    using new unfolding sw_inv_def st' by simp
qed

lemma sw_inv_bind: "sw_inv st \<Longrightarrow> sw_inv (start_accept can_bind st)"
  by (simp add: sw_inv_def start_accept_def)

lemma sw_inv_deliver: "sw_inv st \<Longrightarrow> sw_inv (st\<lparr>socks := f\<rparr>)"
  by (simp add: sw_inv_def)

lemma sw_inv_step: "sw_step net host st st' \<Longrightarrow> sw_inv st \<Longrightarrow> sw_inv st'"
  by (induction rule: sw_step.induct) (blast intro: sw_inv_bind sw_inv_accept sw_inv_deliver sw_inv_run)+

lemma sw_inv_reach: "sw_reach net host st st' \<Longrightarrow> sw_inv st \<Longrightarrow> sw_inv st'"
  by (induction rule: sw_reach.induct) (auto intro: sw_inv_step)

text \<open>
  C21: ownership.  In every state the server can reach, whatever the clients and the network do,
  every socket is held by at most one coroutine or waits in at most one place of the map (so no
  two coroutines ever read or write the same socket), and no topic has both a waiting pusher and
  a waiting popper.
\<close>

theorem switcher_ownership:
  assumes "sw_reach net host (Switcher unused) st"
  shows "count (held (tasks st) + parked (datas st)) s \<le> 1 \<and>
    (case datas st topic of
       None \<Rightarrow> True
     | Some it \<Rightarrow> pushing_nodes it = [] \<or> poping_nodes it = [])"
proof -
  have inv: "sw_inv st" using sw_inv_reach[OF assms sw_inv_Switcher] .
  then have "count (held (tasks st) + parked (datas st)) s \<le> (if s < next_sock st then 1 else 0)"
    by (simp add: sw_inv_def)
  also have "\<dots> \<le> 1" by simp
  finally show ?thesis
    using inv by (auto simp: sw_inv_def one_sided_def split: option.split)
qed

text \<open>A client connects and sends a request to push that is then parked.\<close>

definition demo_client :: connection where
  "demo_client = opened (frame (enc_request \<lparr>req_topic = [116], req_type = 0, timeout_ms = 0\<rparr>))"

definition demo_bound :: "connection switcher" where
  "demo_bound = start_accept True (Switcher (\<lambda>_. opened []))"

definition demo_accepted :: "connection switcher" where
  "demo_accepted = accept_client plain_asio No_error demo_client demo_bound"

definition demo_parked :: "connection switcher" where
  "demo_parked = projr (run_nth plain_asio Little 0 (projr (run_nth plain_asio Little 0 demo_accepted)))"

lemma demo_runs:
  "\<not> isl (run_nth plain_asio Little 0 demo_accepted)"
  "\<not> isl (run_nth plain_asio Little 0 (projr (run_nth plain_asio Little 0 demo_accepted)))"
  "length (tasks demo_accepted) = 1"
  "length (tasks (projr (run_nth plain_asio Little 0 demo_accepted))) = 1"
  by code_simp+

lemma demo_reach: "sw_reach plain_asio Little (Switcher (\<lambda>_. opened [])) demo_parked"
proof -
  have "sw_step plain_asio Little demo_accepted (projr (run_nth plain_asio Little 0 demo_accepted))"
    by (rule run[of 0]) (use demo_runs in auto)
  moreover have "sw_step plain_asio Little (projr (run_nth plain_asio Little 0 demo_accepted)) demo_parked"
    unfolding demo_parked_def by (rule run[of 0]) (use demo_runs in auto)
  moreover have "sw_step plain_asio Little (Switcher (\<lambda>_. opened [])) demo_bound"
    unfolding demo_bound_def by (rule bind) (simp add: Switcher_def)
  moreover have "sw_step plain_asio Little demo_bound demo_accepted"
    unfolding demo_accepted_def by (rule accept) (simp add: demo_bound_def start_accept_def)
  ultimately show ?thesis by (meson sw_reach.intros)
qed

theorem switcher_ownership_witness:
  "count (held (tasks demo_parked) + parked (datas demo_parked)) 0 \<le> 1 \<and>
    (case datas demo_parked [116] of
       None \<Rightarrow> True
     | Some it \<Rightarrow> pushing_nodes it = [] \<or> poping_nodes it = [])"
  by (rule switcher_ownership[OF demo_reach])

text \<open>
  C31: matching.  A request to pop that finds nobody pushing is parked; the next request to push to
  the topic is matched with exactly this socket (the one parked last), and leaves the waiting
  lists of the topic as they were before the pop request.
\<close>

theorem switcher_matches_last_parked:
  assumes "handle_pop_request q pkg st = (st1, [])" "req_topic pkg' = req_topic pkg"
  shows "\<exists>st2. handle_push_request p pkg' st1 = (st2, [Transfer_start p q (req_topic pkg)]) \<and>
     datas st2 = (datas st)(req_topic pkg \<mapsto>
       (case datas st (req_topic pkg) of None \<Rightarrow> no_nodes | Some it \<Rightarrow> it))"
  using assms
  by (auto simp: handle_pop_request_def handle_push_request_def no_nodes_def
      split: option.splits if_splits)

theorem switcher_matches_last_parked_witness:
  "\<exists>st2. handle_push_request 1 \<lparr>req_topic = [116], req_type = 0, timeout_ms = 0\<rparr>
       (fst (handle_pop_request 0 \<lparr>req_topic = [116], req_type = 1, timeout_ms = 0\<rparr>
          (Switcher (\<lambda>_. opened [])))) =
       (st2, [Transfer_start 1 0 [116]]) \<and>
     datas st2 = Map.empty([116] \<mapsto> no_nodes)"
  using switcher_matches_last_parked[of 0 "\<lparr>req_topic = [116], req_type = 1, timeout_ms = 0\<rparr>"
      "Switcher (\<lambda>_. opened [])" "fst (handle_pop_request 0
          \<lparr>req_topic = [116], req_type = 1, timeout_ms = 0\<rparr> (Switcher (\<lambda>_. opened [])))"
      "\<lparr>req_topic = [116], req_type = 0, timeout_ms = 0\<rparr>" 1]
  by (simp add: handle_pop_request_def Switcher_def)

text \<open>
  C32: life of a topic.  A topic exists from the first push or pop request on (even when nobody
  waits any more), until it is closed: the answer to a check right after a close is
  \<^verbatim>\<open>response_topic_not_exist\<close>, right after a push or a pop it is \<^verbatim>\<open>response_ok\<close>, and the other
  topics are not affected.
\<close>

theorem switcher_topic_exists:
  "snd (handle_check_topic_exist s pkg (fst (handle_close_topic_request s' pkg' st))) =
     (if req_topic pkg = req_topic pkg'
      then [Reply s \<lparr>resp_topic = req_topic pkg, wait_ms = 0, peer_addr = [],
              response_code = response_topic_not_exist\<rparr>]
      else snd (handle_check_topic_exist s pkg st)) \<and>
   snd (handle_check_topic_exist s pkg (fst (handle_push_request s' pkg' st))) =
     (if req_topic pkg = req_topic pkg'
      then [Reply s \<lparr>resp_topic = req_topic pkg, wait_ms = 0, peer_addr = [],
              response_code = response_ok\<rparr>]
      else snd (handle_check_topic_exist s pkg st)) \<and>
   snd (handle_check_topic_exist s pkg (fst (handle_pop_request s' pkg' st))) =
     (if req_topic pkg = req_topic pkg'
      then [Reply s \<lparr>resp_topic = req_topic pkg, wait_ms = 0, peer_addr = [],
              response_code = response_ok\<rparr>]
      else snd (handle_check_topic_exist s pkg st))"
  by (auto simp: handle_check_topic_exist_def handle_close_topic_request_def
      handle_push_request_def handle_pop_request_def Let_def split: option.splits)

text \<open>
  C33: a request type outside the four known ones makes the server read \<^verbatim>\<open>request_type_str\<close> out of
  bounds, and only such a type does; so the check that throws the invalid request exception is
  never reached.
\<close>

theorem switcher_bad_type_out_of_bounds:
  "handle_request net s pkg st = Reads_oob \<longleftrightarrow>
     req_type pkg \<notin> {request_type_push, request_type_pop, request_type_check_topic_exist,
       request_type_close_topic}"
proof -
  have "0 \<le> sint (req_type pkg) \<and> nat (sint (req_type pkg)) < 4 \<longleftrightarrow>
      req_type pkg \<in> {0, 1, 2, 3}"
  proof
    assume "0 \<le> sint (req_type pkg) \<and> nat (sint (req_type pkg)) < 4"
    then have "sint (req_type pkg) \<in> {0, 1, 2, 3}" by auto
    from imageI[OF this, of "word_of_int :: int \<Rightarrow> cint"]
    show "req_type pkg \<in> {0, 1, 2, 3}" by simp
  qed auto
  then show ?thesis
    by (auto simp: handle_request_def request_type_str_def request_type_defs
        handle_push_request_def handle_pop_request_def handle_close_topic_request_def
        handle_check_topic_exist_def Let_def split: option.splits)
qed

end
