(* ===== verification/Switcher_Client.thy ===== *)
theory Switcher_Client
  imports Switcher
begin

text \<open>
  The client of the switcher (\<^verbatim>\<open>switcher/switcher_client.h\<close>).  A client method writes one or two
  packages and then waits for the answer of the server, so \<^verbatim>\<open>Push\<close>, \<^verbatim>\<open>Pop\<close>, \<^verbatim>\<open>CloseTopic\<close> and
  \<^verbatim>\<open>CheckTopicExist\<close> are each modelled by the part before and the part after that wait.  The
  last section composes two clients with the server.
\<close>

section \<open>Frames over the socket awaiters\<close>

fun client_read_package ::
  "'k asio \<Rightarrow> endian \<Rightarrow> (bytes \<Rightarrow> nat \<Rightarrow> 'a parse) \<Rightarrow> reading \<Rightarrow> 'k \<Rightarrow> 'a reads \<times> 'k" where
  "client_read_package net host des Length s =
     (case async_read net s 4 of
        None \<Rightarrow> (Suspended, s)
      | Some (ec, buf, s) \<Rightarrow>
          (case SocketReadAwaiter True ec (length buf) of
             Inl e \<Rightarrow> (Read_throws e, s)
           | Inr _ \<Rightarrow> (read_length host buf, s)))"
| "client_read_package net host des (Body len) s =
     (case async_read net s (unat len) of
        None \<Rightarrow> (Suspended, s)
      | Some (ec, buf, s) \<Rightarrow>
          (case SocketReadAwaiter True ec (length buf) of
             Inl e \<Rightarrow> (Read_throws e, s)
           | Inr _ \<Rightarrow> (reads_of_parse (Deserialize_view des buf), s)))"

fun client_read_package_eof ::
  "'k asio \<Rightarrow> endian \<Rightarrow> (bytes \<Rightarrow> nat \<Rightarrow> 'a parse) \<Rightarrow> reading \<Rightarrow> 'k \<Rightarrow> 'a reads \<times> 'k" where
  "client_read_package_eof net host des Length s =
     (case async_read net s 4 of
        None \<Rightarrow> (Suspended, s)
      | Some (ec, buf, s) \<Rightarrow>
          (case SocketReadAwaiter False ec (length buf) of
             Inl e \<Rightarrow> (Read_throws e, s)
           | Inr n \<Rightarrow> if n \<noteq> 4 then (Got_eof, s) else (read_length host buf, s)))"
| "client_read_package_eof net host des (Body len) s =
     client_read_package net host des (Body len) s"

definition client_write_package ::
  "'k asio \<Rightarrow> endian \<Rightarrow> ('a \<Rightarrow> bytes \<Rightarrow> bytes option) \<Rightarrow> 'k \<Rightarrow> 'a \<Rightarrow> 'k written" where
  "client_write_package net host ser s pkg =
     (case ser pkg [] of
        None \<Rightarrow> Write_assert
      | Some buf \<Rightarrow>
          if \<not> length buf \<le> uint32_max then Write_assert
          else case Serialize_integral host (of_nat (length buf) :: uint32) [] of
            None \<Rightarrow> Write_assert
          | Some length_buf \<Rightarrow>
              (case async_write net s length_buf of
                 (ec, s) \<Rightarrow>
                   (case SocketWriteAwaiter ec (length length_buf) of
                      Inl e \<Rightarrow> Write_throws e
                    | Inr _ \<Rightarrow>
                        (case async_write net s buf of
                           (ec, s) \<Rightarrow>
                             (case SocketWriteAwaiter ec (length buf) of
                                Inl e \<Rightarrow> Write_throws e
                              | Inr _ \<Rightarrow> Written s)))))"

text \<open>Waiting for a package: both reads in a row.\<close>

definition receive ::
  "'k asio \<Rightarrow> endian \<Rightarrow> (bytes \<Rightarrow> nat \<Rightarrow> 'a parse) \<Rightarrow> 'k \<Rightarrow> 'a reads \<times> 'k" where
  "receive net host des s =
     (case client_read_package net host des Length s of
        (Continue rd, s) \<Rightarrow> client_read_package net host des rd s
      | other \<Rightarrow> other)"

fun bind_reads :: "'a reads \<times> 'k \<Rightarrow> ('a \<Rightarrow> 'k \<Rightarrow> 'b reads \<times> 'k) \<Rightarrow> 'b reads \<times> 'k" where
  "bind_reads (Got v, s) f = f v s"
| "bind_reads (Suspended, s) f = (Suspended, s)"
| "bind_reads (Continue rd, s) f = (Continue rd, s)"
| "bind_reads (Got_eof, s) f = (Got_eof, s)"
| "bind_reads (Read_throws e, s) f = (Read_throws e, s)"
| "bind_reads (Read_assert, s) f = (Read_assert, s)"
| "bind_reads (Read_oob, s) f = (Read_oob, s)"

fun and_write :: "'k written \<Rightarrow> ('k \<Rightarrow> 'k written) \<Rightarrow> 'k written" where
  "and_write (Written s) f = f s"
| "and_write (Write_throws e) f = Write_throws e"
| "and_write Write_assert f = Write_assert"

section \<open>The client\<close>

record 'k switcher_client =
  connected :: bool
  client_socket :: 'k

definition SwitcherClient :: "'k \<Rightarrow> 'k switcher_client" where
  "SwitcherClient s = \<lparr>connected = False, client_socket = s\<rparr>"

definition Connect ::
  "('k \<Rightarrow> error_code \<times> 'k) \<Rightarrow> 'k switcher_client \<Rightarrow> 'k switcher_client result" where
  "Connect async_connect c =
     (if connected c = False
      then (case async_connect (client_socket c) of
              (ec, s) \<Rightarrow>
                if SocketConnectAwaiter ec = False
                then Inl (StdException ''connect to switcher failed'')
                else Inr (c\<lparr>connected := True, client_socket := s\<rparr>))
      else Inr c)"

text \<open>
  The field \<^verbatim>\<open>timeout_ms\<close> of a request is not initialised by the client: its item is an
  argument of the model.
\<close>

definition request :: "bytes \<Rightarrow> cint \<Rightarrow> cint \<Rightarrow> request_package" where
  "request topic type indeterminate =
     \<lparr>req_topic = topic, req_type = type, timeout_ms = indeterminate\<rparr>"

definition Push_send ::
  "'k asio \<Rightarrow> endian \<Rightarrow> ('a \<Rightarrow> bytes \<Rightarrow> bytes option) \<Rightarrow> cint \<Rightarrow> bytes \<Rightarrow> 'a option \<Rightarrow> 'k \<Rightarrow> 'k written"
  where
  "Push_send net host ser indeterminate topic item s =
     and_write
       (client_write_package net host (Serialize_request host) s
          (request topic request_type_push indeterminate))
       (\<lambda>s. case item of
          Some v \<Rightarrow>
            (case ser v [] of
               None \<Rightarrow> Write_assert
             | Some d \<Rightarrow>
                 client_write_package net host (Serialize_data host) s
                   \<lparr>data = d, meta_info = [], data_eof = False\<rparr>)
        | None \<Rightarrow>
            client_write_package net host (Serialize_data host) s
              \<lparr>data = [], meta_info = [], data_eof = True\<rparr>)"

definition Push_wait :: "'k asio \<Rightarrow> endian \<Rightarrow> 'k \<Rightarrow> unit reads \<times> 'k" where
  "Push_wait net host s =
     bind_reads (receive net host (Deserialize_response host) s) (\<lambda>resp s. (Got (), s))"

definition Pop_send :: "'k asio \<Rightarrow> endian \<Rightarrow> cint \<Rightarrow> bytes \<Rightarrow> 'k \<Rightarrow> 'k written" where
  "Pop_send net host indeterminate topic s =
     client_write_package net host (Serialize_request host) s
       (request topic request_type_pop indeterminate)"

definition Pop_wait ::
  "'k asio \<Rightarrow> endian \<Rightarrow> (bytes \<Rightarrow> nat \<Rightarrow> 'a parse) \<Rightarrow> 'k \<Rightarrow> 'a option reads \<times> 'k" where
  "Pop_wait net host des s =
     bind_reads (receive net host (Deserialize_data host) s) (\<lambda>dp s.
     bind_reads (receive net host (Deserialize_response host) s) (\<lambda>resp s.
       if data_eof dp then (Got None, s)
       else bind_reads (reads_of_parse (Deserialize_view des (data dp)), s)
              (\<lambda>v s. (Got (Some v), s))))"

definition CloseTopic_send :: "'k asio \<Rightarrow> endian \<Rightarrow> cint \<Rightarrow> bytes \<Rightarrow> 'k \<Rightarrow> 'k written" where
  "CloseTopic_send net host indeterminate topic s =
     client_write_package net host (Serialize_request host) s
       (request topic request_type_close_topic indeterminate)"

definition CloseTopic_wait :: "'k asio \<Rightarrow> endian \<Rightarrow> 'k \<Rightarrow> cint reads \<times> 'k" where
  "CloseTopic_wait net host s =
     bind_reads (receive net host (Deserialize_response host) s)
       (\<lambda>dp s. (Got (response_code dp), s))"

definition CheckTopicExist_send :: "'k asio \<Rightarrow> endian \<Rightarrow> cint \<Rightarrow> bytes \<Rightarrow> 'k \<Rightarrow> 'k written" where
  "CheckTopicExist_send net host indeterminate topic s =
     client_write_package net host (Serialize_request host) s
       (request topic request_type_check_topic_exist indeterminate)"

definition CheckTopicExist_wait :: "'k asio \<Rightarrow> endian \<Rightarrow> 'k \<Rightarrow> bool reads \<times> 'k" where
  "CheckTopicExist_wait net host s =
     bind_reads (receive net host (Deserialize_response host) s)
       (\<lambda>dp s. (Got (response_code dp = response_ok), s))"

text \<open>The destructor, with \<^verbatim>\<open>shutdown_send\<close> and \<^verbatim>\<open>close\<close> of the socket as a parameter.\<close>

definition SwitcherClient_destroy ::
  "('k \<Rightarrow> 'k) \<Rightarrow> 'k switcher_client \<Rightarrow> 'k switcher_client" where
  "SwitcherClient_destroy shutdown_and_close c =
     (if connected c
      then c\<lparr>client_socket := shutdown_and_close (client_socket c), connected := False\<rparr>
      else c)"

section \<open>Client and server speak the same protocol\<close>

lemma client_write_package_same: "client_write_package net host ser s v = write_package net host ser s v"
  by (auto simp: client_write_package_def write_package_def
      split: option.splits prod.splits error_code.splits)

lemma client_read_package_same:
  "client_read_package net host des rd s = read_package net host des rd s"
  by (cases rd) (auto simp: SocketReadAwaiter_cases split: option.splits prod.splits)

context codec
begin

lemma receive_framed:
  assumes "asio_streams net incoming outgoing" "frames fits enc v"
    "incoming s = frame (enc v) @ rest"
  obtains s' where "receive net host des s = (Got v, s')" "incoming s' = rest"
    "outgoing s' = outgoing s"
proof -
  from assms obtain s1 s2 where
    "read_package net host des Length s = (Continue (Body (of_nat (length (enc v)))), s1)"
    "read_package net host des (Body (of_nat (length (enc v)))) s1 = (Got v, s2)"
    "incoming s2 = rest" "outgoing s2 = outgoing s"
    by (rule read_framed)
  then show ?thesis
    by (intro that[of s2])
      (simp_all add: receive_def client_read_package_same del: read_package.simps
        client_read_package.simps)
qed

end

section \<open>Two clients and the server\<close>

text \<open>
  The server while two clients talk to it, \<^verbatim>\<open>way s\<close> being the bytes that the client of socket \<^verbatim>\<open>s\<close> has written and that
  have not arrived yet. In a step either some of these bytes arrive, in the order in which they were written and without
  touching what the server has written, or a coroutine whose operation has completed is resumed.
\<close>

type_synonym 'k wired = "'k switcher \<times> (nat \<Rightarrow> bytes)"

definition idle_task :: "'k asio \<Rightarrow> endian \<Rightarrow> 'k switcher \<Rightarrow> task \<Rightarrow> bool" where
  "idle_task net host st t \<longleftrightarrow> run_task net host t st = Ran st [t]"

inductive wire_step :: "'k asio \<Rightarrow> ('k \<Rightarrow> bytes) \<Rightarrow> ('k \<Rightarrow> bytes) \<Rightarrow> ('k \<Rightarrow> bool) \<Rightarrow> endian \<Rightarrow> 'k wired \<Rightarrow> 'k wired \<Rightarrow> bool"
  for net incoming outgoing live host where
  arrive: "way s = bs @ rest \<Longrightarrow> bs \<noteq> [] \<Longrightarrow> incoming k = incoming (socks st s) @ bs \<Longrightarrow>
    outgoing k = outgoing (socks st s) \<Longrightarrow> live k = live (socks st s) \<Longrightarrow>
    wire_step net incoming outgoing live host (st, way) (set_sock s k st, way(s := rest))"
| resume: "i < length (tasks st) \<Longrightarrow> \<not> idle_task net host st (tasks st ! i) \<Longrightarrow> run_nth net host i st = Inr st' \<Longrightarrow>
    wire_step net incoming outgoing live host (st, way) (st', way)"

inductive wire_steps ::
  "'k asio \<Rightarrow> ('k \<Rightarrow> bytes) \<Rightarrow> ('k \<Rightarrow> bytes) \<Rightarrow> ('k \<Rightarrow> bool) \<Rightarrow> endian \<Rightarrow> 'k wired \<Rightarrow> nat \<Rightarrow> 'k wired \<Rightarrow> bool"
  for net incoming outgoing live host x where
  none: "wire_steps net incoming outgoing live host x 0 x"
| more: "wire_steps net incoming outgoing live host x n y \<Longrightarrow> wire_step net incoming outgoing live host y z \<Longrightarrow>
    wire_steps net incoming outgoing live host x (Suc n) z"

definition at_rest :: "'k asio \<Rightarrow> endian \<Rightarrow> 'k wired \<Rightarrow> bool" where
  "at_rest net host x \<longleftrightarrow> (\<forall>s. snd x s = []) \<and> (\<forall>t\<in>set (tasks (fst x)). idle_task net host (fst x) t)"

text \<open>A read from a connection where not everything may have arrived: \<^verbatim>\<open>w\<close> is still on its way.\<close>

lemma partial_read:
  assumes "asio_streams net incoming outgoing" "asio_waits net incoming live" "live s" "incoming s @ w = xs @ ys"
  obtains "async_read net s (length xs) = None" "w \<noteq> []"
  | s' where "async_read net s (length xs) = Some (No_error, xs, s')" "incoming s' @ w = ys"
    "outgoing s' = outgoing s" "live s'"
proof (cases "length xs \<le> length (incoming s)")
  case True
  then obtain zs where z: "incoming s = xs @ zs" "zs @ w = ys"
    using assms(4) by (metis append_eq_append_conv_if append_take_drop_id)
  obtain s' where s': "async_read net s (length xs) = Some (No_error, xs, s')" "incoming s' = zs" "outgoing s' = outgoing s"
    using asio_read[OF assms(1) z(1)] by metis
  moreover have "live s'" using assms(2,3) s'(1) unfolding asio_waits_def by blast
  ultimately show ?thesis using that(2) z(2) by blast
next
  case False
  then have "async_read net s (length xs) = None" using assms(2,3) unfolding asio_waits_def by simp
  moreover have "w \<noteq> []" using assms(4) False by auto
  ultimately show ?thesis by (rule that(1))
qed

text \<open>How far a reader has got: it reads the length, or the length has been read.\<close>

definition stage :: "bytes \<Rightarrow> bool \<Rightarrow> reading" where
  "stage buf half = (if half then Body (of_nat (length buf)) else Length)"

definition ahead :: "bytes \<Rightarrow> bool \<Rightarrow> bytes" where
  "ahead buf half = (if half then buf else frame buf)"

context codec
begin

lemma read_stage:
  assumes net: "asio_streams net incoming outgoing" "asio_waits net incoming live" and v: "frames fits enc v"
    and s: "live s" "incoming s @ w = ahead (enc v) half @ rest"
  obtains "read_package net host des (stage (enc v) half) s = (Suspended, s)"
      "read_package_eof net host des (stage (enc v) half) s = (Suspended, s)" "w \<noteq> []"
  | s' where "\<not> half" "read_package net host des (stage (enc v) half) s = (Continue (stage (enc v) True), s')"
      "read_package_eof net host des (stage (enc v) half) s = (Continue (stage (enc v) True), s')"
      "incoming s' @ w = ahead (enc v) True @ rest" "outgoing s' = outgoing s" "live s'"
  | s' where "half" "read_package net host des (stage (enc v) half) s = (Got v, s')"
      "read_package_eof net host des (stage (enc v) half) s = (Got v, s')"
      "incoming s' @ w = rest" "outgoing s' = outgoing s" "live s'"
proof (cases half)
  case False
  have "incoming s @ w = be_bytes (of_nat (length (enc v)) :: uint32) @ enc v @ rest"
    using s(2) False by (simp add: ahead_def frame_def)
  from net s(1) this show ?thesis
  proof (cases rule: partial_read)
    case 1
    then show ?thesis using that(1) False by (simp add: stage_def)
  next
    case (2 s')
    then show ?thesis using that(2)[of s'] False by (simp add: stage_def ahead_def)
  qed
next
  case True
  have "incoming s @ w = enc v @ rest" using s(2) True by (simp add: ahead_def)
  moreover have "unat (of_nat (length (enc v)) :: uint32) = length (enc v)"
    using v by (simp add: frames_def)
  moreover have "reads_of_parse (Deserialize_view des (enc v)) = Got v"
    using v view_iff[of "enc v" v "length (enc v)"] by (simp add: frames_def)
  ultimately show ?thesis
    using that(1,3) True by (cases rule: partial_read[OF net s(1), of w "enc v" rest]) (auto simp: stage_def)
qed

lemma write_live:
  assumes "asio_streams net incoming outgoing" "asio_reliable net" "asio_waits net incoming live" "frames fits enc v" "live s"
  obtains s' where "write_package net host ser s v = Written s'" "incoming s' = incoming s"
    "outgoing s' = outgoing s @ frame (enc v)" "live s'"
proof -
  have ok: "\<exists>s'. async_write net s bs = (No_error, s')" for s bs
    using assms(2) by (metis asio_reliable_def prod.collapse)
  have live: "live s'" if "live s" "async_write net s bs = (ec, s')" for s bs ec s'
    using assms(3) that unfolding asio_waits_def by (metis snd_conv)
  obtain s1 where s1: "async_write net s (be_bytes (of_nat (length (enc v)) :: uint32)) = (No_error, s1)"
    using ok by blast
  obtain s2 where s2: "async_write net s1 (enc v) = (No_error, s2)"
    using ok by blast
  have w: "write_package net host ser s v = Written s2"
    using assms(4) s1 s2 by (simp add: write_package_def ser_enc u32.ser_enc frames_def)
  show ?thesis
    using that[OF w] write_package_written[OF assms(1) w] live[OF live[OF assms(5) s1] s2] by simp
qed

end

text \<open>A request that is being read.\<close>

lemma handle_stage:
  assumes net: "asio_streams net incoming outgoing" "asio_waits net incoming live" and r: "frames fits_request enc_request r"
    and s: "live (socks st s)" "incoming (socks st s) @ w = ahead (enc_request r) half @ rest"
  obtains (waits) "run_task net host (Handle s (stage (enc_request r) half)) st = Ran st [Handle s (stage (enc_request r) half)]"
      "w \<noteq> []"
  | (length_read) k where "\<not> half"
      "run_task net host (Handle s (stage (enc_request r) half)) st = Ran (set_sock s k st) [Handle s (stage (enc_request r) True)]"
      "incoming k @ w = ahead (enc_request r) True @ rest" "outgoing k = outgoing (socks st s)" "live k"
  | (request_read) k where "half"
      "run_task net host (Handle s (stage (enc_request r) half)) st = handle_request net s r (set_sock s k st)"
      "incoming k @ w = rest" "outgoing k = outgoing (socks st s)" "live k"
  by (rule req.read_stage[OF net r s, where host = host and h' = host])
    (auto simp: handle_def simp del: read_package_eof.simps intro: that)

text \<open>
  The request that comes first is parked on a topic on which nobody waits; the other one, whichever it is, starts the
  transfer from the pushing to the popping socket.
\<close>

abbreviation parked_push :: "nat \<Rightarrow> pending_nodes" where
  "parked_push p \<equiv> no_nodes\<lparr>pushing_nodes := [p]\<rparr>"

abbreviation parked_pop :: "nat \<Rightarrow> pending_nodes" where
  "parked_pop q \<equiv> no_nodes\<lparr>poping_nodes := [q]\<rparr>"

lemma handle_request_first:
  assumes "asio_reliable net" "datas st (req_topic r) \<in> {None, Some no_nodes}"
  shows "req_type r = request_type_push \<Longrightarrow>
      handle_request net s r st = Ran (st\<lparr>datas := (datas st)(req_topic r \<mapsto> parked_push s)\<rparr>) []"
    "req_type r = request_type_pop \<Longrightarrow>
      handle_request net s r st = Ran (st\<lparr>datas := (datas st)(req_topic r \<mapsto> parked_pop s)\<rparr>) []"
proof -
  obtain a where "remote_ipport net (socks st s) = Some a"
    using assms(1) unfolding asio_reliable_def by blast
  then show "req_type r = request_type_push \<Longrightarrow>
      handle_request net s r st = Ran (st\<lparr>datas := (datas st)(req_topic r \<mapsto> parked_push s)\<rparr>) []"
    "req_type r = request_type_pop \<Longrightarrow>
      handle_request net s r st = Ran (st\<lparr>datas := (datas st)(req_topic r \<mapsto> parked_pop s)\<rparr>) []"
    using assms(2)
    by (auto simp: handle_request_def request_type_defs request_type_str_def handle_push_request_def
        handle_pop_request_def no_nodes_def)
qed

lemma handle_request_second:
  assumes "asio_reliable net"
  shows "req_type r = request_type_pop \<Longrightarrow> datas st (req_topic r) = Some (parked_push s') \<Longrightarrow>
      handle_request net s r st = Ran (st\<lparr>datas := (datas st)(req_topic r \<mapsto> no_nodes)\<rparr>) [Transfer_start s' s (req_topic r)]"
    "req_type r = request_type_push \<Longrightarrow> datas st (req_topic r) = Some (parked_pop s') \<Longrightarrow>
      handle_request net s r st = Ran (st\<lparr>datas := (datas st)(req_topic r \<mapsto> no_nodes)\<rparr>) [Transfer_start s s' (req_topic r)]"
proof -
  obtain a where "remote_ipport net (socks st s) = Some a"
    using assms(1) unfolding asio_reliable_def by blast
  then show "req_type r = request_type_pop \<Longrightarrow> datas st (req_topic r) = Some (parked_push s') \<Longrightarrow>
      handle_request net s r st = Ran (st\<lparr>datas := (datas st)(req_topic r \<mapsto> no_nodes)\<rparr>) [Transfer_start s' s (req_topic r)]"
    "req_type r = request_type_push \<Longrightarrow> datas st (req_topic r) = Some (parked_pop s') \<Longrightarrow>
      handle_request net s r st = Ran (st\<lparr>datas := (datas st)(req_topic r \<mapsto> no_nodes)\<rparr>) [Transfer_start s s' (req_topic r)]"
    by (auto simp: handle_request_def request_type_defs request_type_str_def handle_push_request_def
        handle_pop_request_def no_nodes_def)
qed

section \<open>The phases of a delivery\<close>

text \<open>What the two clients ask for.\<close>

record delivery =
  pusher :: nat
  popper :: nat
  topics :: "bytes \<rightharpoonup> pending_nodes"
  on_topic :: bytes
  push_req :: request_package
  pop_req :: request_package
  sent :: data_package

definition delivery_ok :: "delivery \<Rightarrow> bool" where
  "delivery_ok c \<longleftrightarrow>
     pusher c \<noteq> popper c \<and> topics c (on_topic c) \<in> {None, Some no_nodes} \<and> length (on_topic c) + 116 \<le> uint32_max \<and>
     req_topic (push_req c) = on_topic c \<and> req_type (push_req c) = request_type_push \<and>
     req_topic (pop_req c) = on_topic c \<and> req_type (pop_req c) = request_type_pop \<and>
     frames fits_request enc_request (push_req c) \<and> frames fits_request enc_request (pop_req c) \<and>
     frames fits_data enc_data (sent c)"

definition answer :: "bytes \<Rightarrow> bytes \<Rightarrow> response_package" where
  "answer topic addr = \<lparr>resp_topic = topic, wait_ms = 0, peer_addr = addr, response_code = response_ok\<rparr>"

text \<open>What is still to be read from the two sockets, and what has been written to them.\<close>

definition wires ::
  "('k \<Rightarrow> bytes) \<Rightarrow> ('k \<Rightarrow> bytes) \<Rightarrow> ('k \<Rightarrow> bool) \<Rightarrow> delivery \<Rightarrow> 'k wired \<Rightarrow> bytes \<Rightarrow> bytes \<Rightarrow> bytes \<Rightarrow> bytes \<Rightarrow> bool" where
  "wires incoming outgoing live c x inp inq outp outq \<longleftrightarrow>
     live (socks (fst x) (pusher c)) \<and> live (socks (fst x) (popper c)) \<and>
     incoming (socks (fst x) (pusher c)) @ snd x (pusher c) = inp \<and>
     incoming (socks (fst x) (popper c)) @ snd x (popper c) = inq \<and>
     outgoing (socks (fst x) (pusher c)) = outp \<and> outgoing (socks (fst x) (popper c)) = outq \<and>
     (\<forall>s. s \<noteq> pusher c \<and> s \<noteq> popper c \<longrightarrow> snd x s = [])"

text \<open>The phases, with the number of coroutine steps that are still to come.\<close>

abbreviation reading_push :: "delivery \<Rightarrow> bool \<Rightarrow> task" where
  "reading_push c half \<equiv> Handle (pusher c) (stage (enc_request (push_req c)) half)"

abbreviation reading_pop :: "delivery \<Rightarrow> bool \<Rightarrow> task" where
  "reading_pop c half \<equiv> Handle (popper c) (stage (enc_request (pop_req c)) half)"

abbreviation left_push :: "delivery \<Rightarrow> bool \<Rightarrow> bytes" where
  "left_push c half \<equiv> ahead (enc_request (push_req c)) half @ frame (enc_data (sent c))"

abbreviation left_pop :: "delivery \<Rightarrow> bool \<Rightarrow> bytes" where
  "left_pop c half \<equiv> ahead (enc_request (pop_req c)) half"

definition cost :: "bool \<Rightarrow> nat" where
  "cost half = (if half then 1 else 2)"

inductive phase :: "('k \<Rightarrow> bytes) \<Rightarrow> ('k \<Rightarrow> bytes) \<Rightarrow> ('k \<Rightarrow> bool) \<Rightarrow> delivery \<Rightarrow> nat \<Rightarrow> 'k wired \<Rightarrow> bool"
  for incoming outgoing live c where
  both: "tasks st = [reading_push c a, reading_pop c b] \<or> tasks st = [reading_pop c b, reading_push c a] \<Longrightarrow>
    datas st = topics c \<Longrightarrow> wires incoming outgoing live c (st, way) (left_push c a) (left_pop c b) [] [] \<Longrightarrow>
    phase incoming outgoing live c (6 + cost a + cost b) (st, way)"
| push_parked: "tasks st = [reading_pop c b] \<Longrightarrow> datas st = (topics c)(on_topic c \<mapsto> parked_push (pusher c)) \<Longrightarrow>
    wires incoming outgoing live c (st, way) (frame (enc_data (sent c))) (left_pop c b) [] [] \<Longrightarrow>
    phase incoming outgoing live c (6 + cost b) (st, way)"
| pop_parked: "tasks st = [reading_push c a] \<Longrightarrow> datas st = (topics c)(on_topic c \<mapsto> parked_pop (popper c)) \<Longrightarrow>
    wires incoming outgoing live c (st, way) (left_push c a) [] [] [] \<Longrightarrow>
    phase incoming outgoing live c (6 + cost a) (st, way)"
| matched: "tasks st = [Transfer_start (pusher c) (popper c) (on_topic c)] \<Longrightarrow> datas st = (topics c)(on_topic c \<mapsto> no_nodes) \<Longrightarrow>
    wires incoming outgoing live c (st, way) (frame (enc_data (sent c))) [] [] [] \<Longrightarrow>
    phase incoming outgoing live c 6 (st, way)"
| reading_data: "tasks st = [Transfer_read (pusher c) (popper c) (on_topic c) (stage (enc_data (sent c)) a)] \<Longrightarrow>
    datas st = (topics c)(on_topic c \<mapsto> no_nodes) \<Longrightarrow>
    wires incoming outgoing live c (st, way) (ahead (enc_data (sent c)) a) [] [] [] \<Longrightarrow>
    phase incoming outgoing live c (3 + cost a) (st, way)"
| data_read: "tasks st = [Transfer_data (pusher c) (popper c) (on_topic c) (sent c)] \<Longrightarrow> datas st = (topics c)(on_topic c \<mapsto> no_nodes) \<Longrightarrow>
    wires incoming outgoing live c (st, way) [] [] [] [] \<Longrightarrow> phase incoming outgoing live c 3 (st, way)"
| data_written: "tasks st = [Transfer_push (pusher c) (popper c) (answer (on_topic c) addr)] \<Longrightarrow> length addr \<le> 100 \<Longrightarrow>
    datas st = (topics c)(on_topic c \<mapsto> no_nodes) \<Longrightarrow>
    wires incoming outgoing live c (st, way) [] [] [] (frame (enc_data (sent c))) \<Longrightarrow> phase incoming outgoing live c 2 (st, way)"
| push_answered: "tasks st = [Transfer_pop (pusher c) (popper c) (answer (on_topic c) addr)] \<Longrightarrow>
    length addr \<le> 100 \<Longrightarrow> length addr' \<le> 100 \<Longrightarrow> datas st = (topics c)(on_topic c \<mapsto> no_nodes) \<Longrightarrow>
    wires incoming outgoing live c (st, way) [] [] (frame (enc_response (answer (on_topic c) addr'))) (frame (enc_data (sent c))) \<Longrightarrow>
    phase incoming outgoing live c (Suc 0) (st, way)"
| delivered: "tasks st = [Handle (pusher c) Length, Handle (popper c) Length] \<Longrightarrow>
    length addr \<le> 100 \<Longrightarrow> length addr' \<le> 100 \<Longrightarrow> datas st = (topics c)(on_topic c \<mapsto> no_nodes) \<Longrightarrow>
    wires incoming outgoing live c (st, way) [] [] (frame (enc_response (answer (on_topic c) addr')))
      (frame (enc_data (sent c)) @ frame (enc_response (answer (on_topic c) addr))) \<Longrightarrow>
    phase incoming outgoing live c 0 (st, way)"

lemma wires_push:
  assumes "wires incoming outgoing live c (st, way) a b u v" "pusher c \<noteq> popper c" "live k"
    "incoming k @ way (pusher c) = a'" "outgoing k = u'" "socks st' = (socks st)(pusher c := k)"
  shows "wires incoming outgoing live c (st', way) a' b u' v"
  using assms by (simp add: wires_def)

lemma wires_pop:
  assumes "wires incoming outgoing live c (st, way) a b u v" "pusher c \<noteq> popper c" "live k"
    "incoming k @ way (popper c) = b'" "outgoing k = v'" "socks st' = (socks st)(popper c := k)"
  shows "wires incoming outgoing live c (st', way) a b' u v'"
  using assms by (simp add: wires_def)

lemma wires_same:
  "wires incoming outgoing live c (st, way) a b u v \<Longrightarrow> socks st' = socks st \<Longrightarrow>
     wires incoming outgoing live c (st', way) a b u v"
  by (simp add: wires_def)

lemma wires_arrive:
  assumes "wires incoming outgoing live c (st, way) a b u v" "pusher c \<noteq> popper c" "way s = bs @ rest" "bs \<noteq> []"
    "incoming k = incoming (socks st s) @ bs" "outgoing k = outgoing (socks st s)" "live k = live (socks st s)"
  shows "wires incoming outgoing live c (set_sock s k st, way(s := rest)) a b u v"
proof -
  have "s = pusher c \<or> s = popper c" using assms(1,3,4) by (auto simp: wires_def)
  then show ?thesis using assms by (auto simp: wires_def)
qed

lemma phase_arrive:
  assumes "phase incoming outgoing live c n (st, way)" "pusher c \<noteq> popper c" "way s = bs @ rest" "bs \<noteq> []"
    "incoming k = incoming (socks st s) @ bs" "outgoing k = outgoing (socks st s)" "live k = live (socks st s)"
  shows "phase incoming outgoing live c n (set_sock s k st, way(s := rest))"
proof -
  have w: "wires incoming outgoing live c (set_sock s k st, way(s := rest)) a b u v"
    if "wires incoming outgoing live c (st, way) a b u v" for a b u v
    using that assms(2-7) by (rule wires_arrive)
  have same: "tasks (set_sock s k st) = tasks st" "datas (set_sock s k st) = datas st" by (simp_all add: set_sock_def)
  from assms(1) show ?thesis
  proof cases
    case both
    then show ?thesis by (auto simp: same intro!: phase.both w)
  next
    case push_parked
    then show ?thesis by (auto simp: same intro!: phase.push_parked w)
  next
    case pop_parked
    then show ?thesis by (auto simp: same intro!: phase.pop_parked w)
  next
    case matched
    then show ?thesis by (auto simp: same intro!: phase.matched w)
  next
    case reading_data
    then show ?thesis by (auto simp: same intro!: phase.reading_data w)
  next
    case data_read
    then show ?thesis by (auto simp: same intro!: phase.data_read w)
  next
    case data_written
    then show ?thesis by (auto simp: same intro!: phase.data_written w)
  next
    case push_answered
    then show ?thesis using phase.push_answered[OF _ _ _ _ w] by (simp add: same)
  next
    case delivered
    then show ?thesis using phase.delivered[OF _ _ _ _ w] by (simp add: same)
  qed
qed

text \<open>Resuming coroutine \<^verbatim>\<open>i\<close> does not end the process; if it does anything, one step less is to come.\<close>

definition proceeds ::
  "'k asio \<Rightarrow> ('k \<Rightarrow> bytes) \<Rightarrow> ('k \<Rightarrow> bytes) \<Rightarrow> ('k \<Rightarrow> bool) \<Rightarrow> endian \<Rightarrow> delivery \<Rightarrow> nat \<Rightarrow> 'k wired \<Rightarrow> nat \<Rightarrow> bool" where
  "proceeds net incoming outgoing live host c n x i \<longleftrightarrow>
     (\<exists>st'. run_nth net host i (fst x) = Inr st' \<and>
        (if idle_task net host (fst x) (tasks (fst x) ! i) then n = 0 \<or> snd x (pusher c) \<noteq> [] \<or> snd x (popper c) \<noteq> []
         else \<exists>m. n = Suc m \<and> phase incoming outgoing live c m (st', snd x)))"

lemma proceeds_idle:
  assumes "run_task net host (tasks st ! i) st = Ran st [tasks st ! i]" "n = 0 \<or> way (pusher c) \<noteq> [] \<or> way (popper c) \<noteq> []"
  shows "proceeds net incoming outgoing live host c n (st, way) i"
  using assms by (simp add: proceeds_def idle_task_def run_nth_def)

lemma proceeds_step:
  assumes "tasks st ! i = t" "take i (tasks st) @ drop (Suc i) (tasks st) = others" "run_task net host t st = Ran st' ts"
    "ts \<noteq> [t]" "n = Suc m" "phase incoming outgoing live c m (st'\<lparr>tasks := others @ ts\<rparr>, way)"
  shows "proceeds net incoming outgoing live host c n (st, way) i"
proof -
  have "take i (tasks st) @ drop (Suc i) (tasks st) @ ts = others @ ts" using assms(2) by simp
  then show ?thesis using assms(1,3-6) by (auto simp: proceeds_def idle_task_def run_nth_def)
qed

lemma half_read: "\<not> a \<Longrightarrow> cost a = Suc (cost True)" "\<not> a \<Longrightarrow> stage buf True \<noteq> stage buf a"
  by (simp_all add: cost_def stage_def)

lemma other_tasks:
  assumes "tasks st = [t, u] \<or> tasks st = [u, t]" "i < length (tasks st)"
  obtains "tasks st ! i = t" "take i (tasks st) @ drop (Suc i) (tasks st) = [u]"
    | "tasks st ! i = u" "take i (tasks st) @ drop (Suc i) (tasks st) = [t]"
proof -
  have "i = 0 \<or> i = 1" using assms by auto
  then show ?thesis using assms(1) that by auto
qed

lemma push_both_proceeds:
  assumes net: "asio_streams net incoming outgoing" "asio_waits net incoming live" "asio_reliable net" and ok: "delivery_ok c"
    and t: "tasks st ! i = reading_push c a" "take i (tasks st) @ drop (Suc i) (tasks st) = [reading_pop c b]"
    and d: "datas st = topics c" and w: "wires incoming outgoing live c (st, way) (left_push c a) (left_pop c b) [] []"
  shows "proceeds net incoming outgoing live host c (6 + cost a + cost b) (st, way) i"
proof -
  have c: "pusher c \<noteq> popper c" and r: "frames fits_request enc_request (push_req c)"
    and k: "topics c (req_topic (push_req c)) \<in> {None, Some no_nodes}" "req_topic (push_req c) = on_topic c"
      "req_type (push_req c) = request_type_push"
    using ok by (auto simp: delivery_ok_def)
  have s: "live (socks st (pusher c))" "incoming (socks st (pusher c)) @ way (pusher c) = left_push c a"
    using w by (simp_all add: wires_def)
  from net(1,2) r s show ?thesis
  proof (cases rule: handle_stage[where host = host])
    case waits
    then show ?thesis by (intro proceeds_idle) (simp_all add: t)
  next
    case (length_read k)
    from wires_push[OF w c length_read(5,3) refl, of "set_sock (pusher c) k st\<lparr>tasks := [reading_pop c b, reading_push c True]\<rparr>"]
    have "phase incoming outgoing live c (6 + cost True + cost b)
        (set_sock (pusher c) k st\<lparr>tasks := [reading_pop c b] @ [reading_push c True]\<rparr>, way)"
      using length_read(4) w d by (intro phase.both) (simp_all add: set_sock_def wires_def)
    then show ?thesis
      by (rule proceeds_step[OF t length_read(2), rotated 2]) (simp_all add: half_read[OF length_read(1)])
  next
    case (request_read k')
    let ?st = "set_sock (pusher c) k' st\<lparr>datas := (topics c)(on_topic c \<mapsto> parked_push (pusher c))\<rparr>"
    have run: "run_task net host (reading_push c a) st = Ran ?st []"
      using handle_request_first(1)[OF net(3), of "set_sock (pusher c) k' st" "push_req c"] k d
      unfolding request_read(2) by (simp add: set_sock_def)
    have "phase incoming outgoing live c (6 + cost b) (?st\<lparr>tasks := [reading_pop c b] @ []\<rparr>, way)"
      using w request_read(4) by (intro phase.push_parked wires_push[OF w c request_read(5,3)]) (simp_all add: set_sock_def wires_def)
    then show ?thesis
      by (rule proceeds_step[OF t run, rotated 2]) (use request_read(1) in \<open>simp_all add: cost_def\<close>)
  qed
qed

lemma pop_both_proceeds:
  assumes net: "asio_streams net incoming outgoing" "asio_waits net incoming live" "asio_reliable net" and ok: "delivery_ok c"
    and t: "tasks st ! i = reading_pop c b" "take i (tasks st) @ drop (Suc i) (tasks st) = [reading_push c a]"
    and d: "datas st = topics c" and w: "wires incoming outgoing live c (st, way) (left_push c a) (left_pop c b) [] []"
  shows "proceeds net incoming outgoing live host c (6 + cost a + cost b) (st, way) i"
proof -
  have c: "pusher c \<noteq> popper c" and r: "frames fits_request enc_request (pop_req c)"
    and k: "topics c (req_topic (pop_req c)) \<in> {None, Some no_nodes}" "req_topic (pop_req c) = on_topic c"
      "req_type (pop_req c) = request_type_pop"
    using ok by (auto simp: delivery_ok_def)
  have s: "live (socks st (popper c))" "incoming (socks st (popper c)) @ way (popper c) = left_pop c b @ []"
    using w by (simp_all add: wires_def)
  from net(1,2) r s show ?thesis
  proof (cases rule: handle_stage[where host = host])
    case waits
    then show ?thesis by (intro proceeds_idle) (simp_all add: t)
  next
    case (length_read k)
    from wires_pop[OF w c length_read(5,3) refl, of "set_sock (popper c) k st\<lparr>tasks := [reading_push c a, reading_pop c True]\<rparr>"]
    have "phase incoming outgoing live c (6 + cost a + cost True)
        (set_sock (popper c) k st\<lparr>tasks := [reading_push c a] @ [reading_pop c True]\<rparr>, way)"
      using length_read(4) w d by (intro phase.both) (simp_all add: set_sock_def wires_def)
    then show ?thesis
      by (rule proceeds_step[OF t length_read(2), rotated 2]) (simp_all add: half_read[OF length_read(1)])
  next
    case (request_read k')
    let ?st = "set_sock (popper c) k' st\<lparr>datas := (topics c)(on_topic c \<mapsto> parked_pop (popper c))\<rparr>"
    have run: "run_task net host (reading_pop c b) st = Ran ?st []"
      using handle_request_first(2)[OF net(3), of "set_sock (popper c) k' st" "pop_req c"] k d
      unfolding request_read(2) by (simp add: set_sock_def)
    have "phase incoming outgoing live c (6 + cost a) (?st\<lparr>tasks := [reading_push c a] @ []\<rparr>, way)"
      using w request_read(4) by (intro phase.pop_parked wires_pop[OF w c request_read(5,3)]) (simp_all add: set_sock_def wires_def)
    then show ?thesis
      by (rule proceeds_step[OF t run, rotated 2]) (use request_read(1) in \<open>simp_all add: cost_def\<close>)
  qed
qed

lemma push_parked_proceeds:
  assumes net: "asio_streams net incoming outgoing" "asio_waits net incoming live" "asio_reliable net" and ok: "delivery_ok c"
    and t: "tasks st ! i = reading_pop c b" "take i (tasks st) @ drop (Suc i) (tasks st) = []"
    and d: "datas st = (topics c)(on_topic c \<mapsto> parked_push (pusher c))"
    and w: "wires incoming outgoing live c (st, way) (frame (enc_data (sent c))) (left_pop c b) [] []"
  shows "proceeds net incoming outgoing live host c (6 + cost b) (st, way) i"
proof -
  have c: "pusher c \<noteq> popper c" and r: "frames fits_request enc_request (pop_req c)"
    and k: "req_topic (pop_req c) = on_topic c" "req_type (pop_req c) = request_type_pop"
    using ok by (auto simp: delivery_ok_def)
  have s: "live (socks st (popper c))" "incoming (socks st (popper c)) @ way (popper c) = left_pop c b @ []"
    using w by (simp_all add: wires_def)
  from net(1,2) r s show ?thesis
  proof (cases rule: handle_stage[where host = host])
    case waits
    then show ?thesis by (intro proceeds_idle) (simp_all add: t)
  next
    case (length_read k)
    from wires_pop[OF w c length_read(5,3) refl, of "set_sock (popper c) k st\<lparr>tasks := [reading_pop c True]\<rparr>"]
    have "phase incoming outgoing live c (6 + cost True) (set_sock (popper c) k st\<lparr>tasks := [] @ [reading_pop c True]\<rparr>, way)"
      using length_read(4) w d by (intro phase.push_parked) (simp_all add: set_sock_def wires_def)
    then show ?thesis
      by (rule proceeds_step[OF t length_read(2), rotated 2]) (simp_all add: half_read[OF length_read(1)])
  next
    case (request_read k')
    let ?st = "set_sock (popper c) k' st\<lparr>datas := (topics c)(on_topic c \<mapsto> no_nodes)\<rparr>"
    have run: "run_task net host (reading_pop c b) st = Ran ?st [Transfer_start (pusher c) (popper c) (on_topic c)]"
      using handle_request_second(1)[OF net(3), of "pop_req c" "set_sock (popper c) k' st"] k d
      unfolding request_read(2) by (simp add: set_sock_def)
    have "phase incoming outgoing live c 6 (?st\<lparr>tasks := [] @ [Transfer_start (pusher c) (popper c) (on_topic c)]\<rparr>, way)"
      using w request_read(4) by (intro phase.matched wires_pop[OF w c request_read(5,3)]) (simp_all add: set_sock_def wires_def)
    then show ?thesis
      by (rule proceeds_step[OF t run, rotated 2]) (use request_read(1) in \<open>simp_all add: cost_def\<close>)
  qed
qed

lemma pop_parked_proceeds:
  assumes net: "asio_streams net incoming outgoing" "asio_waits net incoming live" "asio_reliable net" and ok: "delivery_ok c"
    and t: "tasks st ! i = reading_push c a" "take i (tasks st) @ drop (Suc i) (tasks st) = []"
    and d: "datas st = (topics c)(on_topic c \<mapsto> parked_pop (popper c))"
    and w: "wires incoming outgoing live c (st, way) (left_push c a) [] [] []"
  shows "proceeds net incoming outgoing live host c (6 + cost a) (st, way) i"
proof -
  have c: "pusher c \<noteq> popper c" and r: "frames fits_request enc_request (push_req c)"
    and k: "req_topic (push_req c) = on_topic c" "req_type (push_req c) = request_type_push"
    using ok by (auto simp: delivery_ok_def)
  have s: "live (socks st (pusher c))" "incoming (socks st (pusher c)) @ way (pusher c) = left_push c a"
    using w by (simp_all add: wires_def)
  from net(1,2) r s show ?thesis
  proof (cases rule: handle_stage[where host = host])
    case waits
    then show ?thesis by (intro proceeds_idle) (simp_all add: t)
  next
    case (length_read k)
    from wires_push[OF w c length_read(5,3) refl, of "set_sock (pusher c) k st\<lparr>tasks := [reading_push c True]\<rparr>"]
    have "phase incoming outgoing live c (6 + cost True) (set_sock (pusher c) k st\<lparr>tasks := [] @ [reading_push c True]\<rparr>, way)"
      using length_read(4) w d by (intro phase.pop_parked) (simp_all add: set_sock_def wires_def)
    then show ?thesis
      by (rule proceeds_step[OF t length_read(2), rotated 2]) (simp_all add: half_read[OF length_read(1)])
  next
    case (request_read k')
    let ?st = "set_sock (pusher c) k' st\<lparr>datas := (topics c)(on_topic c \<mapsto> no_nodes)\<rparr>"
    have run: "run_task net host (reading_push c a) st = Ran ?st [Transfer_start (pusher c) (popper c) (on_topic c)]"
      using handle_request_second(2)[OF net(3), of "push_req c" "set_sock (pusher c) k' st"] k d
      unfolding request_read(2) by (simp add: set_sock_def)
    have "phase incoming outgoing live c 6 (?st\<lparr>tasks := [] @ [Transfer_start (pusher c) (popper c) (on_topic c)]\<rparr>, way)"
      using w request_read(4) by (intro phase.matched wires_push[OF w c request_read(5,3)]) (simp_all add: set_sock_def wires_def)
    then show ?thesis
      by (rule proceeds_step[OF t run, rotated 2]) (use request_read(1) in \<open>simp_all add: cost_def\<close>)
  qed
qed

text \<open>The steps of the transfer.\<close>

lemma one_task: "tasks st = [t] \<Longrightarrow> i < length (tasks st) \<Longrightarrow> tasks st ! i = t \<and> take i (tasks st) @ drop (Suc i) (tasks st) = []"
  by simp

lemma proceeds_one:
  assumes "tasks st = [t]" "i < length (tasks st)" "run_task net host t st = Ran st' ts" "ts \<noteq> [t]"
    "phase incoming outgoing live c m (st'\<lparr>tasks := ts\<rparr>, way)"
  shows "proceeds net incoming outgoing live host c (Suc m) (st, way) i"
  using one_task[OF assms(1,2)] assms(3-5) by (auto intro: proceeds_step)

lemma answer_frames:
  "delivery_ok c \<Longrightarrow> length addr \<le> 100 \<Longrightarrow> frames fits_response enc_response (answer (on_topic c) addr)"
  by (simp add: delivery_ok_def answer_def frames_def enc_response_def enc_string_def)

lemma some_ipport:
  assumes "asio_reliable net"
  obtains addr where "remote_ipport net s = Some addr" "length addr \<le> 100"
  using assms unfolding asio_reliable_def by blast

lemma matched_proceeds:
  assumes net: "asio_reliable net" and t: "tasks st = [Transfer_start (pusher c) (popper c) (on_topic c)]" "i < length (tasks st)"
    and d: "datas st = (topics c)(on_topic c \<mapsto> no_nodes)"
    and w: "wires incoming outgoing live c (st, way) (frame (enc_data (sent c))) [] [] []"
  shows "proceeds net incoming outgoing live host c 6 (st, way) i"
proof -
  have "run_task net host (Transfer_start (pusher c) (popper c) (on_topic c)) st =
      Ran st [Transfer_read (pusher c) (popper c) (on_topic c) (stage (enc_data (sent c)) False)]"
    by (rule some_ipport[OF net, of "socks st (pusher c)"], rule some_ipport[OF net, of "socks st (popper c)"])
      (simp add: transfer_start_def stage_def)
  moreover have "phase incoming outgoing live c (3 + cost False)
      (st\<lparr>tasks := [Transfer_read (pusher c) (popper c) (on_topic c) (stage (enc_data (sent c)) False)]\<rparr>, way)"
    using d w by (intro phase.reading_data) (simp_all add: ahead_def wires_same)
  ultimately have "proceeds net incoming outgoing live host c (Suc (3 + cost False)) (st, way) i"
    by (intro proceeds_one[OF t]) simp_all
  then show ?thesis by (simp add: cost_def)
qed

lemma reading_data_proceeds:
  assumes net: "asio_streams net incoming outgoing" "asio_waits net incoming live" and ok: "delivery_ok c"
    and t: "tasks st = [Transfer_read (pusher c) (popper c) (on_topic c) (stage (enc_data (sent c)) a)]" "i < length (tasks st)"
    and d: "datas st = (topics c)(on_topic c \<mapsto> no_nodes)"
    and w: "wires incoming outgoing live c (st, way) (ahead (enc_data (sent c)) a) [] [] []"
  shows "proceeds net incoming outgoing live host c (3 + cost a) (st, way) i"
proof -
  let ?read = "\<lambda>a. Transfer_read (pusher c) (popper c) (on_topic c) (stage (enc_data (sent c)) a)"
  have c: "pusher c \<noteq> popper c" and r: "frames fits_data enc_data (sent c)"
    using ok by (auto simp: delivery_ok_def)
  have s: "live (socks st (pusher c))" "incoming (socks st (pusher c)) @ way (pusher c) = ahead (enc_data (sent c)) a @ []"
    using w by (simp_all add: wires_def)
  show ?thesis
  proof (rule dat.read_stage[OF net r s, where host = host and h' = host])
    assume "read_package net host (Deserialize_data host) (stage (enc_data (sent c)) a) (socks st (pusher c)) =
        (Suspended, socks st (pusher c))" "way (pusher c) \<noteq> []"
    then show ?thesis using one_task[OF t] by (intro proceeds_idle) (simp_all add: transfer_read_def)
  next
    fix k
    assume k: "\<not> a" "read_package net host (Deserialize_data host) (stage (enc_data (sent c)) a) (socks st (pusher c)) =
        (Continue (stage (enc_data (sent c)) True), k)"
      "incoming k @ way (pusher c) = ahead (enc_data (sent c)) True @ []" "outgoing k = outgoing (socks st (pusher c))" "live k"
    then have run: "run_task net host (?read a) st = Ran (set_sock (pusher c) k st) [?read True]"
      by (simp add: transfer_read_def)
    have "phase incoming outgoing live c (3 + cost True) (set_sock (pusher c) k st\<lparr>tasks := [?read True]\<rparr>, way)"
      using w k(3,4) d by (intro phase.reading_data wires_push[OF w c k(5)]) (simp_all add: set_sock_def wires_def)
    from proceeds_one[OF t run _ this] show ?thesis by (simp add: half_read[OF k(1)])
  next
    fix k
    assume k: "a" "read_package net host (Deserialize_data host) (stage (enc_data (sent c)) a) (socks st (pusher c)) = (Got (sent c), k)"
      "incoming k @ way (pusher c) = []" "outgoing k = outgoing (socks st (pusher c))" "live k"
    then have run: "run_task net host (?read a) st =
        Ran (set_sock (pusher c) k st) [Transfer_data (pusher c) (popper c) (on_topic c) (sent c)]"
      by (simp add: transfer_read_def)
    have "phase incoming outgoing live c 3
        (set_sock (pusher c) k st\<lparr>tasks := [Transfer_data (pusher c) (popper c) (on_topic c) (sent c)]\<rparr>, way)"
      using w k(4) d by (intro phase.data_read wires_push[OF w c k(5,3)]) (simp_all add: set_sock_def wires_def)
    from proceeds_one[OF t run _ this] show ?thesis using k(1) by (simp add: cost_def)
  qed
qed

lemma data_read_proceeds:
  assumes net: "asio_streams net incoming outgoing" "asio_reliable net" "asio_waits net incoming live" and ok: "delivery_ok c"
    and t: "tasks st = [Transfer_data (pusher c) (popper c) (on_topic c) (sent c)]" "i < length (tasks st)"
    and d: "datas st = (topics c)(on_topic c \<mapsto> no_nodes)" and w: "wires incoming outgoing live c (st, way) [] [] [] []"
  shows "proceeds net incoming outgoing live host c 3 (st, way) i"
proof -
  have c: "pusher c \<noteq> popper c" and r: "frames fits_data enc_data (sent c)" and s: "live (socks st (popper c))"
    using ok w by (auto simp: delivery_ok_def wires_def)
  obtain k where k: "write_package net host (Serialize_data host) (socks st (popper c)) (sent c) = Written k"
      "incoming k = incoming (socks st (popper c))" "outgoing k = outgoing (socks st (popper c)) @ frame (enc_data (sent c))" "live k"
    by (rule dat.write_live[OF net r s])
  obtain addr where addr: "remote_ipport net k = Some addr" "length addr \<le> 100" by (rule some_ipport[OF net(2)])
  have run: "run_task net host (Transfer_data (pusher c) (popper c) (on_topic c) (sent c)) st =
      Ran (set_sock (popper c) k st) [Transfer_push (pusher c) (popper c) (answer (on_topic c) addr)]"
    using k(1) addr(1) by (simp add: transfer_data_def set_sock_def answer_def)
  have "phase incoming outgoing live c 2
      (set_sock (popper c) k st\<lparr>tasks := [Transfer_push (pusher c) (popper c) (answer (on_topic c) addr)]\<rparr>, way)"
    using w k(2,3) d addr(2) by (intro phase.data_written wires_pop[OF w c k(4)]) (simp_all add: set_sock_def wires_def)
  from proceeds_one[OF t run _ this] show ?thesis by (simp add: numeral_3_eq_3 numeral_2_eq_2)
qed

lemma data_written_proceeds:
  assumes net: "asio_streams net incoming outgoing" "asio_reliable net" "asio_waits net incoming live" and ok: "delivery_ok c"
    and t: "tasks st = [Transfer_push (pusher c) (popper c) (answer (on_topic c) addr)]" "i < length (tasks st)" "length addr \<le> 100"
    and d: "datas st = (topics c)(on_topic c \<mapsto> no_nodes)"
    and w: "wires incoming outgoing live c (st, way) [] [] [] (frame (enc_data (sent c)))"
  shows "proceeds net incoming outgoing live host c 2 (st, way) i"
proof -
  let ?r = "answer (on_topic c) addr"
  have c: "pusher c \<noteq> popper c" and s: "live (socks st (pusher c))"
    using ok w by (auto simp: delivery_ok_def wires_def)
  obtain k where k: "write_package net host (Serialize_response host) (socks st (pusher c)) ?r = Written k"
      "incoming k = incoming (socks st (pusher c))" "outgoing k = outgoing (socks st (pusher c)) @ frame (enc_response ?r)" "live k"
    by (rule resp.write_live[OF net answer_frames[OF ok t(3)] s])
  obtain addr' where addr': "remote_ipport net k = Some addr'" "length addr' \<le> 100" by (rule some_ipport[OF net(2)])
  have run: "run_task net host (Transfer_push (pusher c) (popper c) ?r) st =
      Ran (set_sock (pusher c) k st) [Transfer_pop (pusher c) (popper c) (answer (on_topic c) addr')]"
    using k(1) addr'(1) by (simp add: transfer_push_def set_sock_def answer_def)
  have "phase incoming outgoing live c (Suc 0)
      (set_sock (pusher c) k st\<lparr>tasks := [Transfer_pop (pusher c) (popper c) (answer (on_topic c) addr')]\<rparr>, way)"
    using w k(2,3) d addr'(2) t(3) by (intro phase.push_answered[of _ c addr' addr] wires_push[OF w c k(4)]) (simp_all add: set_sock_def wires_def)
  from proceeds_one[OF t(1,2) run _ this] show ?thesis by (simp add: numeral_2_eq_2)
qed

lemma push_answered_proceeds:
  assumes net: "asio_streams net incoming outgoing" "asio_reliable net" "asio_waits net incoming live" and ok: "delivery_ok c"
    and t: "tasks st = [Transfer_pop (pusher c) (popper c) (answer (on_topic c) addr)]" "i < length (tasks st)" "length addr \<le> 100"
    and d: "datas st = (topics c)(on_topic c \<mapsto> no_nodes)" "length addr' \<le> 100"
    and w: "wires incoming outgoing live c (st, way) [] [] (frame (enc_response (answer (on_topic c) addr'))) (frame (enc_data (sent c)))"
  shows "proceeds net incoming outgoing live host c (Suc 0) (st, way) i"
proof -
  let ?r = "answer (on_topic c) addr"
  have c: "pusher c \<noteq> popper c" and s: "live (socks st (popper c))"
    using ok w by (auto simp: delivery_ok_def wires_def)
  obtain k where k: "write_package net host (Serialize_response host) (socks st (popper c)) ?r = Written k"
      "incoming k = incoming (socks st (popper c))" "outgoing k = outgoing (socks st (popper c)) @ frame (enc_response ?r)" "live k"
    by (rule resp.write_live[OF net answer_frames[OF ok t(3)] s])
  have run: "run_task net host (Transfer_pop (pusher c) (popper c) ?r) st =
      Ran (set_sock (popper c) k st) [Handle (pusher c) Length, Handle (popper c) Length]"
    using k(1) by (simp add: transfer_pop_def)
  have "phase incoming outgoing live c 0 (set_sock (popper c) k st\<lparr>tasks := [Handle (pusher c) Length, Handle (popper c) Length]\<rparr>, way)"
    using w k(2,3) d t(3) by (intro phase.delivered[of _ c addr addr'] wires_pop[OF w c k(4)]) (simp_all add: set_sock_def wires_def)
  from proceeds_one[OF t(1,2) run _ this] show ?thesis by simp
qed

lemma delivered_proceeds:
  assumes net: "asio_waits net incoming live"
    and t: "tasks st = [Handle (pusher c) Length, Handle (popper c) Length]" "i < length (tasks st)"
    and w: "wires incoming outgoing live c (st, way) [] [] u v"
  shows "proceeds net incoming outgoing live host c 0 (st, way) i"
proof -
  have "async_read net (socks st s) 4 = None" if "s = pusher c \<or> s = popper c" for s
    using net w that unfolding asio_waits_def wires_def by auto
  then have idle: "run_task net host (Handle s Length) st = Ran st [Handle s Length]" if "s = pusher c \<or> s = popper c" for s
    using that by (simp add: handle_def)
  have "i = 0 \<or> i = 1" using t by auto
  then have "\<exists>s. tasks st ! i = Handle s Length \<and> (s = pusher c \<or> s = popper c)" using t(1) by auto
  then show ?thesis using idle by (intro proceeds_idle) auto
qed

lemma phase_proceeds:
  assumes net: "asio_streams net incoming outgoing" "asio_reliable net" "asio_waits net incoming live" and ok: "delivery_ok c"
    and x: "phase incoming outgoing live c n (st, way)" and i: "i < length (tasks st)"
  shows "proceeds net incoming outgoing live host c n (st, way) i"
  using x
proof cases
  case (both a b)
  from both(2) i show ?thesis
    by (rule other_tasks)
      (use push_both_proceeds[OF net(1,3,2) ok _ _ both(3,4)] pop_both_proceeds[OF net(1,3,2) ok _ _ both(3,4)] both(1) in auto)
next
  case (push_parked b)
  then show ?thesis using push_parked_proceeds[OF net(1,3,2) ok] one_task[OF push_parked(2) i] by blast
next
  case (pop_parked a)
  then show ?thesis using pop_parked_proceeds[OF net(1,3,2) ok] one_task[OF pop_parked(2) i] by blast
next
  case matched
  then show ?thesis using matched_proceeds[OF net(2) _ i] by blast
next
  case (reading_data a)
  then show ?thesis using reading_data_proceeds[OF net(1,3) ok _ i] by blast
next
  case data_read
  then show ?thesis using data_read_proceeds[OF net ok _ i] by blast
next
  case (data_written addr)
  then show ?thesis using data_written_proceeds[OF net ok _ i] by blast
next
  case (push_answered addr addr')
  then show ?thesis using push_answered_proceeds[OF net ok _ i] by blast
next
  case (delivered addr addr')
  then show ?thesis using delivered_proceeds[OF net(3) _ i] by blast
qed

section \<open>End to end\<close>

definition net_arrives :: "('k \<Rightarrow> bytes) \<Rightarrow> ('k \<Rightarrow> bytes) \<Rightarrow> ('k \<Rightarrow> bool) \<Rightarrow> bool" where
  "net_arrives incoming outgoing live \<longleftrightarrow>
     (\<forall>s bs. \<exists>k. incoming k = incoming s @ bs \<and> outgoing k = outgoing s \<and> live k = live s)"

lemma plain_arrives: "net_arrives conn_in conn_out (\<lambda>s. conn_end s = None)"
proof -
  have "conn_in (s\<lparr>conn_in := conn_in s @ bs\<rparr>) = conn_in s @ bs \<and> conn_out (s\<lparr>conn_in := conn_in s @ bs\<rparr>) = conn_out s \<and>
      (conn_end (s\<lparr>conn_in := conn_in s @ bs\<rparr>) = None) = (conn_end s = None)" for s bs
    by simp
  then show ?thesis unfolding net_arrives_def by blast
qed

text \<open>Every step uses up a step of the coroutines that is still to come, or bytes that are on their way.\<close>

lemma phase_step:
  assumes net: "asio_streams net incoming outgoing" "asio_reliable net" "asio_waits net incoming live" and ok: "delivery_ok c"
    and x: "phase incoming outgoing live c n (st, way)"
    and step: "wire_step net incoming outgoing live host (st, way) (st', way')"
  shows "\<exists>m. phase incoming outgoing live c m (st', way') \<and>
     Suc (m + length (way' (pusher c)) + length (way' (popper c))) \<le> n + length (way (pusher c)) + length (way (popper c))"
  using step
proof cases
  case (arrive s bs rest k)
  have c: "pusher c \<noteq> popper c" using ok by (simp add: delivery_ok_def)
  have "phase incoming outgoing live c n (st', way')"
    unfolding arrive(1,2) using x c arrive(3-7) by (rule phase_arrive)
  moreover have "s = pusher c \<or> s = popper c"
    using x arrive(3,4) by cases (auto simp: wires_def)
  ultimately show ?thesis
    using c arrive(2-4) by (intro exI[of _ n]) (auto simp: Suc_le_eq)
next
  case (resume i)
  then show ?thesis
    using phase_proceeds[OF net ok x resume(2), of host] by (auto simp: proceeds_def)
qed

lemma phase_steps:
  assumes net: "asio_streams net incoming outgoing" "asio_reliable net" "asio_waits net incoming live" and ok: "delivery_ok c"
    and run: "wire_steps net incoming outgoing live host x k y" and x: "phase incoming outgoing live c n x"
  shows "\<exists>m. phase incoming outgoing live c m y \<and>
     k + m + length (snd y (pusher c)) + length (snd y (popper c)) \<le> n + length (snd x (pusher c)) + length (snd x (popper c))"
  using run
proof induction
  case none
  then show ?case using x by auto
next
  case (more k y z)
  then obtain m where m: "phase incoming outgoing live c m y"
      "k + m + length (snd y (pusher c)) + length (snd y (popper c)) \<le> n + length (snd x (pusher c)) + length (snd x (popper c))"
    by blast
  obtain m' where "phase incoming outgoing live c m' z"
      "Suc (m' + length (snd z (pusher c)) + length (snd z (popper c))) \<le> m + length (snd y (pusher c)) + length (snd y (popper c))"
    using phase_step[OF net ok, of m "fst y" "snd y" host "fst z" "snd z"] m(1) more(2) by auto
  then show ?case using m(2) by (intro exI[of _ m']) simp
qed

lemma phase_at_rest:
  assumes net: "asio_streams net incoming outgoing" "asio_reliable net" "asio_waits net incoming live" and ok: "delivery_ok c"
    and x: "phase incoming outgoing live c n (st, way)" and rest: "at_rest net host (st, way)"
  obtains addr addr' where "tasks st = [Handle (pusher c) Length, Handle (popper c) Length]" "length addr \<le> 100" "length addr' \<le> 100"
    "datas st = (topics c)(on_topic c \<mapsto> no_nodes)"
    "outgoing (socks st (pusher c)) = frame (enc_response (answer (on_topic c) addr'))"
    "outgoing (socks st (popper c)) = frame (enc_data (sent c)) @ frame (enc_response (answer (on_topic c) addr))"
proof -
  have t: "0 < length (tasks st)" using x by cases auto
  then have "idle_task net host st (tasks st ! 0)" using rest by (simp add: at_rest_def)
  then have "n = 0"
    using phase_proceeds[OF net ok x t, of host] rest by (auto simp: proceeds_def at_rest_def)
  with x have "phase incoming outgoing live c 0 (st, way)" by simp
  then show ?thesis
    by cases (auto simp: wires_def cost_def split: if_splits intro: that)
qed

lemma phase_goes_on:
  assumes net: "asio_streams net incoming outgoing" "asio_reliable net" "asio_waits net incoming live" "net_arrives incoming outgoing live"
    and ok: "delivery_ok c" and x: "phase incoming outgoing live c n (st, way)" and rest: "\<not> at_rest net host (st, way)"
  shows "\<exists>y. wire_step net incoming outgoing live host (st, way) y"
proof (cases "\<forall>s. way s = []")
  case True
  then obtain i where i: "i < length (tasks st)" "\<not> idle_task net host st (tasks st ! i)"
    using rest by (auto simp: at_rest_def in_set_conv_nth)
  then show ?thesis
    using phase_proceeds[OF net(1-3) ok x i(1), of host] wire_step.resume[OF i] by (fastforce simp: proceeds_def)
next
  case False
  then obtain s where s: "way s \<noteq> []" by blast
  obtain k where "incoming k = incoming (socks st s) @ way s" "outgoing k = outgoing (socks st s)" "live k = live (socks st s)"
    using net(4) unfolding net_arrives_def by blast
  then show ?thesis using wire_step.arrive[of way s "way s" "[]" incoming k st outgoing live] s by auto
qed

text \<open>What the clients write, and how they read the answers.\<close>

abbreviation data_of :: "('a \<Rightarrow> bytes) \<Rightarrow> 'a option \<Rightarrow> data_package" where
  "data_of enc item \<equiv>
     (case item of
        Some v \<Rightarrow> \<lparr>data = enc v, meta_info = [], data_eof = False\<rparr>
      | None \<Rightarrow> \<lparr>data = [], meta_info = [], data_eof = True\<rparr>)"

lemma Pop_send_written:
  assumes "asio_streams net incoming outgoing" "Pop_send net host x topic s = Written s'"
  shows "frames fits_request enc_request (request topic request_type_pop x)"
    "outgoing s' = outgoing s @ frame (enc_request (request topic request_type_pop x))"
  using assms req.write_package_written[OF assms(1)]
  by (auto simp: Pop_send_def client_write_package_same)

lemma and_write_Written: "and_write w f = Written s' \<longleftrightarrow> (\<exists>s. w = Written s \<and> f s = Written s')"
  by (cases w) auto

lemma Push_wait_response:
  assumes "asio_streams net incoming outgoing" "frames fits_response enc_response r"
    "incoming s = frame (enc_response r)"
  shows "fst (Push_wait net host s) = Got ()"
proof -
  have "incoming s = frame (enc_response r) @ []" using assms(3) by simp
  then obtain s' where "receive net host (Deserialize_response host) s = (Got r, s')"
    by (rule resp.receive_framed[OF assms(1,2)])
  then show ?thesis by (simp add: Push_wait_def)
qed

context codec
begin

lemma Push_send_written:
  assumes net: "asio_streams net incoming outgoing"
    and sent: "Push_send net host ser x topic item s = Written s'"
  shows "frames fits_request enc_request (request topic request_type_push x)"
    "frames fits_data enc_data (data_of enc item)" "\<And>v. item = Some v \<Longrightarrow> fits v"
    "outgoing s' = outgoing s @ frame (enc_request (request topic request_type_push x)) @
       frame (enc_data (data_of enc item))"
proof -
  obtain s1 where s1: "write_package net host (Serialize_request host) s
      (request topic request_type_push x) = Written s1"
    and s2: "write_package net host (Serialize_data host) s1 (data_of enc item) = Written s'"
    and fits: "\<And>v. item = Some v \<Longrightarrow> fits v"
    using sent
    by (cases item) (auto simp: Push_send_def and_write_Written client_write_package_same ser_enc
        split: if_splits)
  show "frames fits_request enc_request (request topic request_type_push x)"
    "frames fits_data enc_data (data_of enc item)" "\<And>v. item = Some v \<Longrightarrow> fits v"
    "outgoing s' = outgoing s @ frame (enc_request (request topic request_type_push x)) @
       frame (enc_data (data_of enc item))"
    using req.write_package_written[OF net s1] dat.write_package_written[OF net s2] fits by simp_all
qed

lemma Pop_wait_value:
  assumes net: "asio_streams net incoming outgoing"
    and dp: "frames fits_data enc_data (data_of enc item)" "\<And>v. item = Some v \<Longrightarrow> fits v"
    and r: "frames fits_response enc_response r"
    and inp: "incoming s = frame (enc_data (data_of enc item)) @ frame (enc_response r)"
  shows "fst (Pop_wait net host des s) = Got item"
proof -
  obtain s1 where s1: "receive net host (Deserialize_data host) s = (Got (data_of enc item), s1)"
      "incoming s1 = frame (enc_response r) @ []"
    using dat.receive_framed[OF net dp(1) inp] by (metis append_Nil2)
  obtain s2 where s2: "receive net host (Deserialize_response host) s1 = (Got r, s2)"
    by (rule resp.receive_framed[OF net r s1(2)])
  show ?thesis
  proof (cases item)
    case None
    then show ?thesis using s1 s2 by (simp add: Pop_wait_def)
  next
    case (Some v)
    then have "Deserialize_view des (enc v) = Parsed v (length (enc v))"
      using dp(2) by (simp add: view_iff)
    then show ?thesis using s1 s2 Some by (simp add: Pop_wait_def)
  qed
qed

end

text \<open>
  C10: end-to-end delivery through the switcher.  The server serves two clients with different sockets, and nobody waits on
  the topic. One client has pushed a value (or the end of the stream) to the topic and the other one has popped from it, and what
  they wrote has arrived in part, at most, the rest being on its way; both connections stay open, no write fails, and the topic
  has at least 116 bytes less than the longest frame. Then in whatever portions the
  bytes arrive and in whatever order the coroutines of the server run, none of them ends the process, the server
  goes on until everything has arrived and all of them wait, which takes at most ten steps of coroutines and one for each byte on its way, and in the end it serves
  both clients again, nobody waits on the topic, the pushing client that reads what the server has sent it returns,
  and the popping client returns exactly the value pushed.  The three machines may
  have different byte orders, and the type of the value any serialisation that satisfies the
  contract.
\<close>

theorem switcher_delivers:
  assumes T: "codec ser des fits enc"
    and net: "asio_streams net incoming outgoing" "asio_reliable net" "asio_waits net incoming live" "net_arrives incoming outgoing live"
    and topic: "length topic + 116 \<le> uint32_max" "d topic \<in> {None, Some no_nodes}"
    and server: "p \<noteq> q" "tasks st = [Handle p Length, Handle q Length]" "datas st = d"
    and push: "Push_send net hostp ser x topic item cp = Written cp'"
    and pop: "Pop_send net hostq y topic cq = Written cq'"
    and wire: "outgoing cp = []" "outgoing cq = []" "outgoing (socks st p) = []" "outgoing (socks st q) = []"
      "live (socks st p)" "live (socks st q)"
      "incoming (socks st p) @ way p = outgoing cp'" "incoming (socks st q) @ way q = outgoing cq'"
      "\<forall>s. s \<noteq> p \<and> s \<noteq> q \<longrightarrow> way s = []"
    and run: "wire_steps net incoming outgoing live host (st, way) n (st', way')"
  shows "(\<forall>i<length (tasks st'). \<exists>st''. run_nth net host i st' = Inr st'') \<and>
    n \<le> 10 + length (way p) + length (way q) \<and>
    (at_rest net host (st', way') \<or> (\<exists>y. wire_step net incoming outgoing live host (st', way') y)) \<and>
    (at_rest net host (st', way') \<longrightarrow>
      tasks st' = [Handle p Length, Handle q Length] \<and> datas st' = d(topic \<mapsto> no_nodes) \<and>
      (\<forall>c. incoming c = outgoing (socks st' p) \<longrightarrow> fst (Push_wait net hostp c) = Got ()) \<and>
      (\<forall>c. incoming c = outgoing (socks st' q) \<longrightarrow> fst (Pop_wait net hostq des c) = Got item))"
proof -
  note pushed = codec.Push_send_written[OF T net(1) push]
  note popped = Pop_send_written[OF net(1) pop]
  let ?c = "\<lparr>pusher = p, popper = q, topics = d, on_topic = topic, push_req = request topic request_type_push x,
    pop_req = request topic request_type_pop y, sent = data_of enc item\<rparr>"
  have ok: "delivery_ok ?c"
    using topic server(1) pushed popped by (simp add: delivery_ok_def request_def)
  have "wires incoming outgoing live ?c (st, way) (left_push ?c False) (left_pop ?c False) [] []"
    using wire pushed(4) popped(2) by (simp add: wires_def ahead_def)
  then have "phase incoming outgoing live ?c (6 + cost False + cost False) (st, way)"
    using server by (intro phase.both) (simp_all add: stage_def)
  from phase_steps[OF net(1-3) ok run this] obtain m where m: "phase incoming outgoing live ?c m (st', way')"
      "n + m + length (way' p) + length (way' q) \<le> 10 + length (way p) + length (way q)"
    by (auto simp: cost_def)
  show ?thesis
  proof (intro conjI impI)
    show "\<forall>i<length (tasks st'). \<exists>st''. run_nth net host i st' = Inr st''"
      using phase_proceeds[OF net(1-3) ok m(1)] by (auto simp: proceeds_def)
    show "n \<le> 10 + length (way p) + length (way q)" using m(2) by simp
    show "at_rest net host (st', way') \<or> (\<exists>y. wire_step net incoming outgoing live host (st', way') y)"
      using phase_goes_on[OF net ok m(1)] by blast
    assume rest: "at_rest net host (st', way')"
    from phase_at_rest[OF net(1-3) ok m(1) rest, simplified] obtain addr addr' where
      "tasks st' = [Handle p Length, Handle q Length]" and addr: "length addr \<le> 100" "length addr' \<le> 100"
      and "datas st' = d(topic \<mapsto> no_nodes)"
      and out: "outgoing (socks st' p) = frame (enc_response (answer topic addr'))"
        "outgoing (socks st' q) = frame (enc_data (data_of enc item)) @ frame (enc_response (answer topic addr))"
      by blast
    then show "tasks st' = [Handle p Length, Handle q Length]" "datas st' = d(topic \<mapsto> no_nodes)" by simp_all
    have "frames fits_response enc_response (answer topic addr)" "frames fits_response enc_response (answer topic addr')"
      using answer_frames[OF ok] addr by simp_all
    then show "\<forall>c. incoming c = outgoing (socks st' p) \<longrightarrow> fst (Push_wait net hostp c) = Got ()"
      "\<forall>c. incoming c = outgoing (socks st' q) \<longrightarrow> fst (Pop_wait net hostq des c) = Got item"
      using Push_wait_response[OF net(1)] codec.Pop_wait_value[OF T net(1) pushed(2,3)] out by auto
  qed
qed

definition demo_value :: "uint32 option" where
  "demo_value = Some 305419896"

definition demo_push :: connection where
  "demo_push = (case Push_send plain_asio Little (Serialize_integral Little) 0 [116] demo_value
     (opened []) of Written c \<Rightarrow> c | _ \<Rightarrow> opened [])"

definition demo_pop :: connection where
  "demo_pop = (case Pop_send plain_asio Big 7 [116] (opened []) of Written c \<Rightarrow> c | _ \<Rightarrow> opened [])"

definition demo_server :: "connection switcher" where
  "demo_server =
     \<lparr>acceptor = Accepting, datas = Map.empty,
      socks = (\<lambda>s. if s = 0 then opened (take 3 (conn_out demo_push)) else opened (conn_out demo_pop)),
      next_sock = 2, tasks = [Handle 0 Length, Handle 1 Length]\<rparr>"

definition demo_way :: "nat \<Rightarrow> bytes" where
  "demo_way s = (if s = 0 then drop 3 (conn_out demo_push) else [])"

lemma demo_sent:
  "Push_send plain_asio Little (Serialize_integral Little) 0 [116] demo_value (opened []) =
     Written demo_push"
  "Pop_send plain_asio Big 7 [116] (opened []) = Written demo_pop"
  by (simp_all add: demo_push_def demo_pop_def Push_send_def Pop_send_def
      client_write_package_same write_package_def req.ser_enc dat.ser_enc u32.ser_enc
      demo_value_def plain_asio_def opened_def request_def enc_request_def enc_data_def
      enc_string_def enc_bool_def uint32_max_def)

lemma wire_steps_end:
  assumes bound: "\<And>n y. wire_steps net incoming outgoing live host x n y \<Longrightarrow> n \<le> b"
    and on: "\<And>n y. wire_steps net incoming outgoing live host x n y \<Longrightarrow> at_rest net host y \<or> (\<exists>z. wire_step net incoming outgoing live host y z)"
  obtains n y where "wire_steps net incoming outgoing live host x n y" "at_rest net host y"
proof (rule ccontr)
  assume "\<not> thesis"
  have "\<exists>y. wire_steps net incoming outgoing live host x n y" for n
  proof (induction n)
    case 0
    show ?case using wire_steps.none by blast
  next
    case (Suc n)
    then obtain y where y: "wire_steps net incoming outgoing live host x n y" by blast
    then show ?case using on[OF y] that[OF y] \<open>\<not> thesis\<close> wire_steps.more[OF y] by blast
  qed
  from this[of "Suc b"] show False using bound by fastforce
qed

theorem switcher_delivers_witness:
  "\<exists>n st' way'. wire_steps plain_asio conn_in conn_out (\<lambda>s. conn_end s = None) Little (demo_server, demo_way) n (st', way') \<and>
     at_rest plain_asio Little (st', way') \<and>
     tasks st' = [Handle 0 Length, Handle 1 Length] \<and> datas st' = Map.empty([116] \<mapsto> no_nodes) \<and>
     (\<forall>c. conn_in c = conn_out (socks st' 0) \<longrightarrow> fst (Push_wait plain_asio Little c) = Got ()) \<and>
     (\<forall>c. conn_in c = conn_out (socks st' 1) \<longrightarrow>
        fst (Pop_wait plain_asio Big (Deserialize_integral Big) c) = Got demo_value)"
proof -
  have server: "tasks demo_server = [Handle 0 Length, Handle 1 Length]" "datas demo_server = Map.empty"
    "conn_out (opened []) = []" "conn_out (socks demo_server 0) = []" "conn_out (socks demo_server 1) = []"
    "conn_end (socks demo_server 0) = None" "conn_end (socks demo_server 1) = None"
    "conn_in (socks demo_server 0) @ demo_way 0 = conn_out demo_push" "conn_in (socks demo_server 1) @ demo_way 1 = conn_out demo_pop"
    "\<forall>s. s \<noteq> 0 \<and> s \<noteq> 1 \<longrightarrow> demo_way s = []"
    by (simp_all add: demo_server_def demo_way_def opened_def)
  have topic: "length [116 :: 8 word] + 116 \<le> uint32_max" "Map.empty [116 :: 8 word] \<in> {None, Some no_nodes}" "(0 :: nat) \<noteq> 1"
    by (simp_all add: uint32_max_def)
  note D = switcher_delivers[OF u32.codec_axioms plain_asio_streams plain_asio_reliable plain_asio_waits plain_arrives
      topic server(1,2) demo_sent server(3,3-10)]
  have "n \<le> 10 + length (demo_way 0) + length (demo_way 1)"
      "at_rest plain_asio Little y \<or> (\<exists>z. wire_step plain_asio conn_in conn_out (\<lambda>s. conn_end s = None) Little y z)"
    if "wire_steps plain_asio conn_in conn_out (\<lambda>s. conn_end s = None) Little (demo_server, demo_way) n y" for n y
    using D[of Little n "fst y" "snd y"] that by simp_all
  then obtain n y where "wire_steps plain_asio conn_in conn_out (\<lambda>s. conn_end s = None) Little (demo_server, demo_way) n y"
      "at_rest plain_asio Little y"
    by (rule wire_steps_end)
  then show ?thesis using D[of Little n "fst y" "snd y"] by (intro exI[of _ n] exI[of _ "fst y"] exI[of _ "snd y"]) simp
qed

end
