(* ===== verification/Event_Count.thy ===== *)
theory Event_Count
  imports Tunnel_Prelude "HOL-Library.Word"
begin

text \<open>
  Two small classes: \<^verbatim>\<open>EventCount\<close> (\<^verbatim>\<open>tunnel/event_count.h\<close>), on which the switcher's \<^verbatim>\<open>main\<close> waits
  for a signal, with the threads on its condition variable, and \<^verbatim>\<open>TimerManager\<close> (\<^verbatim>\<open>executor/timer.h\<close>), which
  owns the timer thread of the executor.  The mutex makes one critical section one step.
\<close>

section \<open>EventCount\<close>

type_synonym size_t = "64 word"

text \<open>
  The counters, and the condition variable: how many threads sleep on it, and how many have been notified and
  will evaluate the predicate of \<^verbatim>\<open>Wait\<close> again.
\<close>

record event_count =
  event_total :: size_t
  succ_count :: size_t
  fail_count :: size_t
  sleepers :: nat
  notified :: nat

definition EventCount :: "size_t \<Rightarrow> event_count option" where
  "EventCount ec =
     (if ec > 0 then Some \<lparr>event_total = ec, succ_count = 0, fail_count = 0, sleepers = 0, notified = 0\<rparr> else None)"

definition cv_notify_one :: "event_count \<Rightarrow> event_count" where
  "cv_notify_one c =
     (if sleepers c = 0 then c else c\<lparr>sleepers := sleepers c - 1, notified := notified c + 1\<rparr>)"

definition Succ :: "event_count \<Rightarrow> event_count" where
  "Succ c = cv_notify_one (c\<lparr>succ_count := succ_count c + 1\<rparr>)"

definition Fail :: "event_count \<Rightarrow> event_count" where
  "Fail c = cv_notify_one (c\<lparr>fail_count := fail_count c + 1\<rparr>)"

text \<open>
  \<^verbatim>\<open>Wait\<close>: its predicate; the call, which returns at once or goes to sleep; and what a notified thread does when it has
  the mutex again.
\<close>

definition Wait_returns :: "event_count \<Rightarrow> bool" where
  "Wait_returns c \<longleftrightarrow> event_total c = succ_count c + fail_count c"

definition Wait :: "event_count \<Rightarrow> bool \<times> event_count" where
  "Wait c = (if Wait_returns c then (True, c) else (False, c\<lparr>sleepers := sleepers c + 1\<rparr>))"

definition Wait_resume :: "event_count \<Rightarrow> bool \<times> event_count" where
  "Wait_resume c = Wait (c\<lparr>notified := notified c - 1\<rparr>)"

definition allSucc :: "event_count \<Rightarrow> bool" where
  "allSucc c \<longleftrightarrow> succ_count c = event_total c"

definition allFail :: "event_count \<Rightarrow> bool" where
  "allFail c \<longleftrightarrow> succ_count c = 0"

text \<open>A sequence of events, each a success or a failure.\<close>

primrec events :: "bool list \<Rightarrow> event_count \<Rightarrow> event_count" where
  "events [] c = c"
| "events (b # bs) c = events bs (if b then Succ c else Fail c)"

lemma cv_notify_one_counts [simp]:
  "succ_count (cv_notify_one c) = succ_count c" "fail_count (cv_notify_one c) = fail_count c"
  "event_total (cv_notify_one c) = event_total c"
  by (simp_all add: cv_notify_one_def)

lemma events_counts:
  "succ_count (events bs c) = succ_count c + of_nat (length (filter (\<lambda>b. b) bs)) \<and>
   fail_count (events bs c) = fail_count c + of_nat (length (filter Not bs)) \<and>
   event_total (events bs c) = event_total c"
  by (induction bs arbitrary: c) (auto simp: Succ_def Fail_def)

lemma filter_lengths: "length (filter (\<lambda>b. b) bs) + length (filter Not bs) = length bs"
  by (induction bs) auto

lemma events_notify:
  "sleepers c + notified c = 1 \<Longrightarrow> bs \<noteq> [] \<or> sleepers c = 0 \<Longrightarrow>
     sleepers (events bs c) = 0 \<and> notified (events bs c) = 1"
proof (induction bs arbitrary: c)
  case (Cons b bs)
  have "sleepers (if b then Succ c else Fail c) = 0" "notified (if b then Succ c else Fail c) = 1"
    using Cons.prems(1) by (auto simp: Succ_def Fail_def cv_notify_one_def)
  then show ?case using Cons.IH[of "if b then Succ c else Fail c"] by simp
qed simp

text \<open>
  C39: an \<^verbatim>\<open>EventCount\<close> for \<^verbatim>\<open>n\<close> events lets its waiter go after exactly \<^verbatim>\<open>n\<close> events, whether they
  succeeded or failed (as long as the 64-bit counters do not wrap); then \<^verbatim>\<open>allSucc\<close> says that all
  of them succeeded, and \<^verbatim>\<open>allFail\<close> that none did. A thread that called \<^verbatim>\<open>Wait\<close> before the events went to sleep, and from the
  first event on it is notified and will look at the counters again.
\<close>

theorem event_count_waits:
  assumes "EventCount n = Some c" "length bs < 2 ^ 64"
  shows "(Wait_returns (events bs c) = (length bs = unat n)) \<and>
    (length bs = unat n \<longrightarrow>
       allSucc (events bs c) = (\<forall>b\<in>set bs. b) \<and> allFail (events bs c) = (\<forall>b\<in>set bs. \<not> b)) \<and>
    \<not> fst (Wait c) \<and> sleepers (snd (Wait c)) = 1 \<and>
    (bs \<noteq> [] \<longrightarrow> sleepers (events bs (snd (Wait c))) = 0 \<and> notified (events bs (snd (Wait c))) = 1)"
proof -
  let ?s = "length (filter (\<lambda>b. b) bs)" and ?f = "length (filter Not bs)"
  have c: "succ_count c = 0" "fail_count c = 0" "event_total c = n"
    using assms(1) by (auto simp: EventCount_def split: if_splits)
  have "n \<noteq> 0" "sleepers c = 0" "notified c = 0" using assms(1) by (auto simp: EventCount_def split: if_splits)
  with c have "Wait c = (False, c\<lparr>sleepers := 1\<rparr>)" by (simp add: Wait_def Wait_returns_def)
  then have asleep: "\<not> fst (Wait c) \<and> sleepers (snd (Wait c)) = 1 \<and>
      (bs \<noteq> [] \<longrightarrow> sleepers (events bs (snd (Wait c))) = 0 \<and> notified (events bs (snd (Wait c))) = 1)"
    using events_notify[of "snd (Wait c)" bs] \<open>notified c = 0\<close> by simp
  have sum: "?s + ?f = length bs" by (rule filter_lengths)
  have inj: "of_nat k = (of_nat m :: size_t) \<longleftrightarrow> k = m" if "k < 2 ^ 64" "m < 2 ^ 64" for k m
    using that by (simp add: word_of_nat_eq_iff take_bit_nat_eq_self)
  have n: "n = of_nat (unat n)" "unat n < 2 ^ 64" using unsigned_less[of n, where 'a = nat] by simp_all
  have wait: "Wait_returns (events bs c) \<longleftrightarrow> n = of_nat (?s + ?f)"
    using events_counts[of bs c] c by (simp add: Wait_returns_def)
  also have "\<dots> \<longleftrightarrow> length bs = unat n"
    unfolding sum using inj[OF n(2) assms(2)] n(1) by metis
  finally have w: "Wait_returns (events bs c) = (length bs = unat n)" .
  have s: "succ_count (events bs c) = of_nat ?s" "event_total (events bs c) = n"
    using events_counts[of bs c] c by simp_all
  have small: "?s < 2 ^ 64" using sum assms(2) by linarith
  have "allSucc (events bs c) = (?s = unat n)"
    using inj[OF small n(2)] n(1) s by (metis allSucc_def)
  moreover have "allFail (events bs c) = (?s = 0)"
    using inj[OF small, of 0] s by (simp add: allFail_def)
  moreover have "(?s = length bs) = (\<forall>b\<in>set bs. b)" "(?s = 0) = (\<forall>b\<in>set bs. \<not> b)"
    using length_filter_less[of _ bs "\<lambda>b. b"] by (fastforce simp: filter_empty_conv)+
  ultimately show ?thesis using w asleep by metis
qed

theorem event_count_waits_witness:
  "Wait_returns (events [True, False] \<lparr>event_total = 2, succ_count = 0, fail_count = 0, sleepers = 0, notified = 0\<rparr>) \<and>
   \<not> allSucc (events [True, False] \<lparr>event_total = 2, succ_count = 0, fail_count = 0, sleepers = 0, notified = 0\<rparr>)"
  using event_count_waits[of 2 "\<lparr>event_total = 2, succ_count = 0, fail_count = 0, sleepers = 0, notified = 0\<rparr>" "[True, False]"]
  by (simp add: EventCount_def)

section \<open>TimerManager\<close>

text \<open>\<^verbatim>\<open>started\<close> and \<^verbatim>\<open>joined\<close> count, for the theorem, how often the timer thread was created and
  joined.\<close>

record timer_manager =
  start :: bool
  stop :: bool
  started :: nat
  joined :: nat

definition TimerManager :: timer_manager where
  "TimerManager = \<lparr>start = False, stop = False, started = 0, joined = 0\<rparr>"

definition Timer_Run :: "timer_manager \<Rightarrow> timer_manager" where
  "Timer_Run t = (if start t = False then t\<lparr>start := True, started := started t + 1\<rparr> else t)"

definition Timer_Stop :: "timer_manager \<Rightarrow> timer_manager" where
  "Timer_Stop t =
     (if start t = True \<and> stop t = False then t\<lparr>stop := True, joined := joined t + 1\<rparr> else t)"

text \<open>The handler that \<^verbatim>\<open>PushTimer\<close> gives to the timer: it throws in the timer thread when the
  wait failed or when the executor did not accept the function.\<close>

definition timer_fires :: "string option \<Rightarrow> ('f \<Rightarrow> bool \<times> 'e) \<Rightarrow> 'f \<Rightarrow> 'e result" where
  "timer_fires ec schedule func =
     (case ec of
        Some msg \<Rightarrow> Inl (StdException msg)
      | None \<Rightarrow>
          (case schedule func of
             (succ, e) \<Rightarrow>
               if succ = False then Inl (StdException ''schedule timer failed'') else Inr e))"

primrec timer_calls :: "bool list \<Rightarrow> timer_manager \<Rightarrow> timer_manager" where
  "timer_calls [] t = t"
| "timer_calls (r # rs) t = timer_calls rs (if r then Timer_Run t else Timer_Stop t)"

text \<open>
  C40: the timer thread is created at most once and joined at most once, whatever the order in
  which \<^verbatim>\<open>Run\<close> and \<^verbatim>\<open>Stop\<close> are called and repeated, and the destructor (which calls \<^verbatim>\<open>Stop\<close>) leaves
  no created thread unjoined.
\<close>

theorem timer_thread_joined_once:
  "let t = timer_calls rs TimerManager in
   started t \<le> 1 \<and> joined t \<le> started t \<and> joined (Timer_Stop t) = started t"
proof -
  have "started (timer_calls rs t) = (if start (timer_calls rs t) then 1 else 0) \<and>
      joined (timer_calls rs t) = (if stop (timer_calls rs t) then 1 else 0) \<and>
      (stop (timer_calls rs t) \<longrightarrow> start (timer_calls rs t))"
    if "started t = (if start t then 1 else 0)" "joined t = (if stop t then 1 else 0)"
      "stop t \<longrightarrow> start t" for t
    using that
  proof (induction rs arbitrary: t)
    case (Cons r rs)
    then show ?case by (auto simp: Timer_Run_def Timer_Stop_def)
  qed simp
  from this[of TimerManager] show ?thesis
    by (auto simp: TimerManager_def Timer_Stop_def Let_def)
qed

end
