(* ===== verification/Switcher_Server.thy ===== *)
theory Switcher_Server
  imports Event_Count Switcher
begin

text \<open>
  The program \<^verbatim>\<open>src/switcher_server.cc\<close>: the flags, the logger, the endpoint, and \<^verbatim>\<open>main\<close>, which starts a
  switcher and waits for a signal, with the thread of the switcher beside it. The parser of the command line,
  the parser of addresses and the socket that listens belong to gflags and asio and are parameters.
\<close>

section \<open>Flags and endpoint\<close>

record server_flags =
  FLAGS_ip :: string
  FLAGS_port :: "32 word"
  FLAGS_logfile :: string

definition DEFINE_flags :: server_flags where
  "DEFINE_flags = \<lparr>FLAGS_ip = ''127.0.0.1'', FLAGS_port = 12345, FLAGS_logfile = ''switcher.log''\<rparr>"

text \<open>The parameter \<^verbatim>\<open>port\<close> has 16 bits: the caller's \<^verbatim>\<open>int32\<close> is converted.\<close>

definition CreateEndPoint :: "(string \<Rightarrow> 'a result) \<Rightarrow> string \<Rightarrow> 16 word \<Rightarrow> ('a \<times> 16 word) result" where
  "CreateEndPoint from_string ip port =
     (case from_string ip of Inl e \<Rightarrow> Inl e | Inr address \<Rightarrow> Inr (address, port))"

section \<open>The process\<close>

text \<open>
  \<^verbatim>\<open>main\<close> is about to call \<^verbatim>\<open>Wait\<close>, is inside it, has returned, or the process has been ended by a coroutine of the switcher.
  \<open>armed\<close>: the handler of the signals has not run yet.
\<close>

datatype main_at = To_Wait | In_Wait | Main_Returned | Killed death

record ('a, 'k) server =
  log_path :: string
  ep :: "'a \<times> 16 word"
  ec :: event_count
  armed :: bool
  sw :: "'k switcher"
  main_at :: main_at

definition running :: "('a, 'k) server \<Rightarrow> bool" where
  "running m \<longleftrightarrow> main_at m = To_Wait \<or> main_at m = In_Wait"

definition server_main :: "('argv \<Rightarrow> server_flags \<Rightarrow> server_flags) \<Rightarrow> (string \<Rightarrow> 'a result) \<Rightarrow> (nat \<Rightarrow> 'k) \<Rightarrow> 'argv \<Rightarrow>
    ('a, 'k) server result" where
  "server_main ParseCommandLineFlags from_string unused argv =
     (let flags = DEFINE_flags;
          path = ''logs/'' @ FLAGS_logfile flags;
          flags = ParseCommandLineFlags argv flags
      in case CreateEndPoint from_string (FLAGS_ip flags) (ucast (FLAGS_port flags)) of
           Inl e \<Rightarrow> Inl e
         | Inr endpoint \<Rightarrow>
             (case EventCount 1 of
                None \<Rightarrow> Inl (StdException ''assert'')
              | Some c \<Rightarrow>
                  Inr \<lparr>log_path = path, ep = endpoint, ec = c, armed = True, sw = Switcher unused, main_at = To_Wait\<rparr>))"

text \<open>
  \<^verbatim>\<open>Start\<close> spawns \<^verbatim>\<open>start_accept\<close> on the thread of the switcher. The coroutine is detached, so an acceptor that cannot bind
  ends the coroutine and nothing else: the exception does not reach the handler around \<^verbatim>\<open>ctx_.run()\<close>.
\<close>

definition Switcher_Start :: "('a \<times> 16 word \<Rightarrow> bool) \<Rightarrow> ('a, 'k) server \<Rightarrow> ('a, 'k) server" where
  "Switcher_Start can_bind m = m\<lparr>sw := start_accept (can_bind (ep m)) (sw m)\<rparr>"

text \<open>The handler of \<^verbatim>\<open>signals.async_wait\<close>, called once.\<close>

definition on_signal :: "('a, 'k) server \<Rightarrow> ('a, 'k) server" where
  "on_signal m = m\<lparr>armed := False, ec := Succ (ec m)\<rparr>"

text \<open>\<^verbatim>\<open>Stop\<close>, after which the thread of the switcher has ended, and the return of \<^verbatim>\<open>main\<close>.\<close>

definition Switcher_Stop :: "('a, 'k) server \<Rightarrow> ('a, 'k) server" where
  "Switcher_Stop m = m\<lparr>main_at := Main_Returned\<rparr>"

text \<open>\<^verbatim>\<open>main\<close> from a call or a wake-up of \<^verbatim>\<open>Wait\<close> on.\<close>

definition after_wait :: "bool \<times> event_count \<Rightarrow> ('a, 'k) server \<Rightarrow> ('a, 'k) server" where
  "after_wait w m =
     (if fst w then Switcher_Stop (m\<lparr>ec := snd w\<rparr>) else m\<lparr>ec := snd w, main_at := In_Wait\<rparr>)"

text \<open>The last rule is a spurious wake-up of the condition variable.\<close>

inductive server_step :: "('a \<times> 16 word \<Rightarrow> bool) \<Rightarrow> 'k asio \<Rightarrow> endian \<Rightarrow> ('a, 'k) server \<Rightarrow> ('a, 'k) server \<Rightarrow> bool"
  for can_bind net host where
  accepting: "running m \<Longrightarrow> acceptor (sw m) = Unbound \<Longrightarrow> server_step can_bind net host m (Switcher_Start can_bind m)"
| serving: "running m \<Longrightarrow> acceptor (sw m) \<noteq> Unbound \<Longrightarrow> sw_step net host (sw m) st \<Longrightarrow>
    server_step can_bind net host m (m\<lparr>sw := st\<rparr>)"
| dying: "running m \<Longrightarrow> sw_dies net host (sw m) d \<Longrightarrow> server_step can_bind net host m (m\<lparr>main_at := Killed d\<rparr>)"
| signalled: "running m \<Longrightarrow> armed m \<Longrightarrow> server_step can_bind net host m (on_signal m)"
| waits: "main_at m = To_Wait \<Longrightarrow> server_step can_bind net host m (after_wait (Wait (ec m)) m)"
| woken: "main_at m = In_Wait \<Longrightarrow> 0 < notified (ec m) \<Longrightarrow> server_step can_bind net host m (after_wait (Wait_resume (ec m)) m)"
| spurious: "main_at m = In_Wait \<Longrightarrow> server_step can_bind net host m (m\<lparr>ec := cv_notify_one (ec m)\<rparr>)"

inductive server_reach :: "('a \<times> 16 word \<Rightarrow> bool) \<Rightarrow> 'k asio \<Rightarrow> endian \<Rightarrow> ('a, 'k) server \<Rightarrow> ('a, 'k) server \<Rightarrow> bool"
  for can_bind net host m0 where
  here: "server_reach can_bind net host m0 m0"
| step: "server_reach can_bind net host m0 m \<Longrightarrow> server_step can_bind net host m m' \<Longrightarrow>
    server_reach can_bind net host m0 m'"

section \<open>Waiting for the signal\<close>

text \<open>
  The counter is 1 exactly if the handler has run. \<^verbatim>\<open>main\<close> sleeps only as long as it has not: the wake-up is not lost.
\<close>

definition wait_inv :: "event_count \<Rightarrow> bool \<Rightarrow> main_at \<Rightarrow> bool" where
  "wait_inv c a at \<longleftrightarrow>
     event_total c = 1 \<and> succ_count c = (if a then 0 else 1) \<and> fail_count c = 0 \<and>
     (at = To_Wait \<longrightarrow> sleepers c = 0 \<and> notified c = 0) \<and>
     (at = In_Wait \<longrightarrow> sleepers c + notified c = 1 \<and> (0 < sleepers c \<longrightarrow> a)) \<and>
     (at = Main_Returned \<longrightarrow> \<not> a)"

text \<open>A switcher whose endpoint cannot be bound serves nobody.\<close>

definition bind_inv :: "bool \<Rightarrow> 'k switcher \<Rightarrow> bool" where
  "bind_inv can_bind st \<longleftrightarrow> can_bind \<or> acceptor st \<noteq> Accepting \<and> tasks st = []"

definition server_inv ::
  "('a \<times> 16 word \<Rightarrow> bool) \<Rightarrow> 'k asio \<Rightarrow> endian \<Rightarrow> ('a, 'k) server \<Rightarrow> ('a, 'k) server \<Rightarrow> bool" where
  "server_inv can_bind net host m0 m \<longleftrightarrow>
     log_path m = log_path m0 \<and> ep m = ep m0 \<and> wait_inv (ec m) (armed m) (main_at m) \<and>
     bind_inv (can_bind (ep m)) (sw m) \<and> (\<forall>d. main_at m = Killed d \<longrightarrow> sw_dies net host (sw m) d) \<and> sw_inv (sw m)"

lemma bind_inv_step:
  "sw_step net host st st' \<Longrightarrow> acceptor st \<noteq> Unbound \<Longrightarrow> bind_inv can_bind st \<Longrightarrow> bind_inv can_bind st'"
  by (cases rule: sw_step.cases) (auto simp: bind_inv_def)

lemma wait_inv_signal: "wait_inv c True at \<Longrightarrow> wait_inv (Succ c) False at"
  by (auto simp: wait_inv_def Succ_def cv_notify_one_def)

lemma wait_inv_Wait:
  "wait_inv c a To_Wait \<Longrightarrow> wait_inv (snd (Wait c)) a (if fst (Wait c) then Main_Returned else In_Wait)"
  by (auto simp: wait_inv_def Wait_def Wait_returns_def)

lemma wait_inv_resume:
  "wait_inv c a In_Wait \<Longrightarrow> 0 < notified c \<Longrightarrow>
     wait_inv (snd (Wait_resume c)) a (if fst (Wait_resume c) then Main_Returned else In_Wait)"
  by (auto simp: wait_inv_def Wait_resume_def Wait_def Wait_returns_def)

lemma wait_inv_spurious: "wait_inv c a In_Wait \<Longrightarrow> wait_inv (cv_notify_one c) a In_Wait"
  by (auto simp: wait_inv_def cv_notify_one_def)

lemma wait_inv_killed: "wait_inv c a at \<Longrightarrow> wait_inv c a (Killed d)"
  by (simp add: wait_inv_def)

lemma server_inv_after_wait:
  assumes "server_inv can_bind net host m0 m" "running m" "wait_inv (snd w) (armed m) (if fst w then Main_Returned else In_Wait)"
  shows "server_inv can_bind net host m0 (after_wait w m)"
  using assms by (auto simp: server_inv_def after_wait_def Switcher_Stop_def running_def)

lemma server_inv_step:
  assumes "server_step can_bind net host m m'" "server_inv can_bind net host m0 m"
  shows "server_inv can_bind net host m0 m'"
  using assms
proof (cases rule: server_step.cases)
  case accepting
  then show ?thesis
    using assms(2) by (auto simp: server_inv_def Switcher_Start_def running_def bind_inv_def start_accept_def sw_inv_bind[unfolded start_accept_def])
next
  case (serving st)
  then show ?thesis
    using assms(2) by (auto simp: server_inv_def running_def intro: bind_inv_step sw_inv_step)
next
  case (dying d)
  then show ?thesis using assms(2) by (auto simp: server_inv_def intro: wait_inv_killed)
next
  case signalled
  then show ?thesis using assms(2) by (auto simp: server_inv_def running_def on_signal_def intro: wait_inv_signal)
next
  case waits
  then show ?thesis
    using server_inv_after_wait[OF assms(2)] wait_inv_Wait[of "ec m" "armed m"] assms(2) by (simp add: server_inv_def[of _ _ _ _ m] running_def)
next
  case woken
  then show ?thesis
    using server_inv_after_wait[OF assms(2)] wait_inv_resume[of "ec m" "armed m"] assms(2) by (simp add: server_inv_def[of _ _ _ _ m] running_def)
next
  case spurious
  then show ?thesis using assms(2) by (auto simp: server_inv_def intro: wait_inv_spurious)
qed

lemma server_inv_reach:
  assumes "server_reach can_bind net host m0 m" "server_inv can_bind net host m0 m0"
  shows "server_inv can_bind net host m0 m"
  using assms by (induction rule: server_reach.induct) (auto intro: server_inv_step)

lemma server_main_state:
  assumes "server_main parse from_string unused argv = Inr m"
  shows "server_inv can_bind net host m m" "log_path m = ''logs/switcher.log''"
    "snd (ep m) = ucast (FLAGS_port (parse argv DEFINE_flags))"
  using assms
  by (auto simp: server_main_def Let_def CreateEndPoint_def EventCount_def server_inv_def DEFINE_flags_def sw_inv_Switcher
      wait_inv_def bind_inv_def split: sum.splits) (simp_all add: Switcher_def)

text \<open>After the signal \<^verbatim>\<open>main\<close> is one step from its return.\<close>

lemma server_returns:
  assumes "server_inv can_bind net host m0 m" "running m" "\<not> armed m"
  shows "\<exists>m'. server_step can_bind net host m m' \<and> main_at m' = Main_Returned"
proof (cases "main_at m = To_Wait")
  case True
  then have "fst (Wait (ec m))" using assms(1,3) by (simp add: server_inv_def wait_inv_def Wait_def Wait_returns_def)
  then show ?thesis
    using server_step.waits[OF True] by (intro exI[of _ "after_wait (Wait (ec m)) m"]) (simp add: after_wait_def Switcher_Stop_def)
next
  case False
  then have at: "main_at m = In_Wait" using assms(2) by (simp add: running_def)
  then have n: "0 < notified (ec m)" and "fst (Wait_resume (ec m))"
    using assms(1,3) by (auto simp: server_inv_def wait_inv_def Wait_resume_def Wait_def Wait_returns_def)
  then show ?thesis
    using server_step.woken[OF at n]
    by (intro exI[of _ "after_wait (Wait_resume (ec m)) m"]) (simp add: after_wait_def Switcher_Stop_def)
qed

lemma ucast_port: "uint (ucast (p :: 32 word) :: 16 word) = sint p \<longleftrightarrow> 0 \<le> sint p \<and> sint p < 2 ^ 16"
proof -
  have "uint (ucast p :: 16 word) = take_bit 16 (sint p)" by transfer (simp add: take_bit_signed_take_bit)
  then have "uint (ucast p :: 16 word) = sint p mod 2 ^ 16" by (simp add: take_bit_eq_mod)
  then show ?thesis by (metis mod_pos_pos_trivial pos_mod_bound pos_mod_sign zero_less_numeral zero_less_power)
qed

section \<open>Properties\<close>

text \<open>
  C23: the server. Whatever flags are given, the port it is to listen on is the one of the flag exactly if that is
  between 0 and 65535, and the log file is the default one: the logger is created before the flags are parsed. \<^verbatim>\<open>main\<close>
  returns only after a signal, and once the handler has run, \<^verbatim>\<open>main\<close> is one step from its return wherever it is: the
  wake-up is never lost, be it that the signal came before \<^verbatim>\<open>Wait\<close>. The process ends otherwise only by a coroutine that fails
  an assertion or reads out of bounds. If the endpoint cannot be bound no client is ever accepted, no
  coroutine exists that could end the process, and the server still waits for its signal. In every state the switcher is in order.
\<close>

theorem server_runs_until_signal:
  assumes "server_main parse from_string unused argv = Inr m0" "server_reach can_bind net host m0 m"
  shows "log_path m = ''logs/switcher.log'' \<and>
    (let port = sint (FLAGS_port (parse argv DEFINE_flags))
     in uint (snd (ep m)) = port \<longleftrightarrow> 0 \<le> port \<and> port < 2 ^ 16) \<and>
    (main_at m = Main_Returned \<longrightarrow> \<not> armed m) \<and>
    (\<forall>d. main_at m = Killed d \<longrightarrow> (\<exists>i<length (tasks (sw m)). run_nth net host i (sw m) = Inl d)) \<and>
    (running m \<longrightarrow>
      (if armed m then server_step can_bind net host m (on_signal m)
       else \<exists>m'. server_step can_bind net host m m' \<and> main_at m' = Main_Returned)) \<and>
    (\<not> can_bind (ep m) \<longrightarrow>
      acceptor (sw m) \<noteq> Accepting \<and> tasks (sw m) = [] \<and> (running m \<or> main_at m = Main_Returned)) \<and>
    sw_inv (sw m)"
proof -
  note m0 = server_main_state[OF assms(1)]
  have inv: "server_inv can_bind net host m0 m" by (rule server_inv_reach[OF assms(2) m0(1)])
  have "uint (snd (ep m)) = sint (FLAGS_port (parse argv DEFINE_flags)) \<longleftrightarrow>
      0 \<le> sint (FLAGS_port (parse argv DEFINE_flags)) \<and> sint (FLAGS_port (parse argv DEFINE_flags)) < 2 ^ 16"
    using inv m0(3) ucast_port[of "FLAGS_port (parse argv DEFINE_flags)"] by (simp add: server_inv_def)
  moreover have "running m \<Longrightarrow> armed m \<Longrightarrow> server_step can_bind net host m (on_signal m)"
    by (rule server_step.signalled)
  moreover have "running m \<or> main_at m = Main_Returned \<or> (\<exists>d. main_at m = Killed d)"
    by (cases "main_at m") (simp_all add: running_def)
  ultimately show ?thesis
    using inv m0(2) server_returns[OF inv]
    by (auto simp: server_inv_def wait_inv_def bind_inv_def sw_dies_def Let_def)
qed

definition demo_parse :: "string \<Rightarrow> server_flags \<Rightarrow> server_flags" where
  "demo_parse arg flags = flags\<lparr>FLAGS_port := 80000, FLAGS_logfile := arg\<rparr>"

definition demo_start :: "(nat, connection) server" where
  "demo_start = \<lparr>log_path = ''logs/switcher.log'', ep = (0, ucast (80000 :: 32 word)),
     ec = \<lparr>event_total = 1, succ_count = 0, fail_count = 0, sleepers = 0, notified = 0\<rparr>, armed = True,
     sw = Switcher (\<lambda>_. opened []), main_at = To_Wait\<rparr>"

text \<open>The signal comes while \<^verbatim>\<open>main\<close> sleeps in \<^verbatim>\<open>Wait\<close>.\<close>

definition demo_signalled :: "(nat, connection) server" where
  "demo_signalled = on_signal (after_wait (Wait (ec demo_start)) demo_start)"

theorem server_runs_until_signal_witness:
  "server_main demo_parse (\<lambda>_. Inr 0) (\<lambda>_. opened []) ''other.log'' = Inr demo_start \<and>
   FLAGS_logfile (demo_parse ''other.log'' DEFINE_flags) = ''other.log'' \<and> log_path demo_signalled = ''logs/switcher.log'' \<and>
   uint (snd (ep demo_signalled)) \<noteq> sint (FLAGS_port (demo_parse ''other.log'' DEFINE_flags)) \<and>
   main_at demo_signalled = In_Wait \<and>
   (\<exists>m'. server_step (\<lambda>_. True) plain_asio Little demo_signalled m' \<and> main_at m' = Main_Returned)"
proof -
  have main: "server_main demo_parse (\<lambda>_. Inr 0) (\<lambda>_. opened []) ''other.log'' = Inr demo_start"
    by (simp add: server_main_def DEFINE_flags_def demo_parse_def CreateEndPoint_def EventCount_def demo_start_def)
  have port: "sint (FLAGS_port (demo_parse ''other.log'' DEFINE_flags)) = 80000"
    by (simp add: demo_parse_def)
  let ?m = "after_wait (Wait (ec demo_start)) demo_start"
  have at: "main_at demo_start = To_Wait" "running ?m" "armed ?m" "main_at demo_signalled = In_Wait" "\<not> armed demo_signalled"
    by (simp_all add: demo_start_def demo_signalled_def after_wait_def Wait_def Wait_returns_def running_def on_signal_def)
  have "server_reach (\<lambda>_. True) plain_asio Little demo_start demo_signalled"
    unfolding demo_signalled_def
    by (rule server_reach.step[OF server_reach.step[OF server_reach.here server_step.waits] server_step.signalled])
      (use at in simp_all)
  from server_runs_until_signal[OF main this] show ?thesis
    using main port at(4,5) by (simp add: running_def demo_parse_def DEFINE_flags_def)
qed

end
