(* ===== verification/Socket_Nodes.thy ===== *)
theory Socket_Nodes
  imports Switcher_Protocol Nodes
begin

text \<open>
  The socket nodes \<^verbatim>\<open>SocketSink\<close> and \<^verbatim>\<open>SocketSource\<close> (\<^verbatim>\<open>tunnel/socket_sink.h\<close>,
  \<^verbatim>\<open>tunnel/socket_source.h\<close>): the connection with its retries, the packages they exchange, and
  what happens to the socket when the node ends.  Connecting, accepting and closing are
  parameters; the queue side of the nodes is that of \<^verbatim>\<open>Sink\<close> and \<^verbatim>\<open>Source\<close>.
\<close>

section \<open>SocketSink\<close>

record 'k socket_node =
  node_socket :: 'k
  node_connected :: bool

definition SocketNode :: "'k \<Rightarrow> 'k socket_node" where
  "SocketNode s = \<lparr>node_socket = s, node_connected = False\<rparr>"

definition wait_list :: "nat list" where
  "wait_list = [10, 200, 1000, 5000, 30000]"

text \<open>
  The connection loop: \<^verbatim>\<open>async_connect i\<close> is the \<^verbatim>\<open>i\<close>-th attempt, \<^verbatim>\<open>new_socket\<close> the fresh socket
  that replaces the one that failed.  The result is whether an attempt succeeded, the socket, and
  the milliseconds slept after each failure.
\<close>

function connect_loop ::
  "(nat \<Rightarrow> 'k \<Rightarrow> error_code \<times> 'k) \<Rightarrow> ('k \<Rightarrow> 'k) \<Rightarrow> nat \<Rightarrow> 'k \<Rightarrow> bool \<times> 'k \<times> nat list" where
  "connect_loop async_connect new_socket retry_count s =
     (if retry_count < 5
      then case async_connect retry_count s of
             (ec, s) \<Rightarrow>
               if SocketConnectAwaiter ec then (True, s, [])
               else case connect_loop async_connect new_socket (retry_count + 1) (new_socket s) of
                      (ok, s, slept) \<Rightarrow> (ok, s, wait_list ! retry_count # slept)
      else (False, s, []))"
  by auto
termination
  by (relation "measure (\<lambda>(_, _, retry_count, _). 5 - retry_count)") auto

declare connect_loop.simps [simp del]

definition SocketSink_frame ::
  "'k asio \<Rightarrow> endian \<Rightarrow> package \<Rightarrow> 'k \<Rightarrow> 'k written" where
  "SocketSink_frame net host pkg s =
     (case Serialize_package host pkg [] of
        None \<Rightarrow> Write_assert
      | Some buf \<Rightarrow>
          let len = (of_nat (length buf) :: uint32)
          in case Serialize_integral host len [] of
            None \<Rightarrow> Write_assert
          | Some length_buf \<Rightarrow>
              (case async_write net s length_buf of
                 (ec, s) \<Rightarrow>
                   (case SocketWriteAwaiter ec (length length_buf) of
                      Inl e \<Rightarrow> Write_throws e
                    | Inr _ \<Rightarrow>
                        (case async_write net s buf of
                           (ec, s) \<Rightarrow>
                             (case SocketWriteAwaiter ec (length buf) of
                                Inl e \<Rightarrow> Write_throws e
                              | Inr _ \<Rightarrow> Written s)))))"

definition SocketSink_Write ::
  "'k asio \<Rightarrow> endian \<Rightarrow> ('a \<Rightarrow> bytes \<Rightarrow> bytes option) \<Rightarrow> 'a \<Rightarrow> 'k \<Rightarrow> 'k written" where
  "SocketSink_Write net host ser v s =
     (case ser v [] of
        None \<Rightarrow> Write_assert
      | Some d \<Rightarrow> SocketSink_frame net host \<lparr>pkg_eof = False, bin_data = d\<rparr> s)"

definition SocketSink_WriteEof :: "'k asio \<Rightarrow> endian \<Rightarrow> 'k \<Rightarrow> 'k written" where
  "SocketSink_WriteEof net host s =
     SocketSink_frame net host \<lparr>pkg_eof = True, bin_data = []\<rparr> s"

datatype 'k node_result = Node_ok "'k socket_node" | Node_throws exn "'k socket_node" | Node_assert

fun node_written :: "'k socket_node \<Rightarrow> 'k written \<Rightarrow> 'k node_result" where
  "node_written c (Written s) = Node_ok (c\<lparr>node_socket := s\<rparr>)"
| "node_written c (Write_throws e) = Node_throws e c"
| "node_written c Write_assert = Node_assert"

definition SocketSink_consume ::
  "'k asio \<Rightarrow> endian \<Rightarrow> ('a \<Rightarrow> bytes \<Rightarrow> bytes option) \<Rightarrow> (nat \<Rightarrow> 'k \<Rightarrow> error_code \<times> 'k) \<Rightarrow>
   ('k \<Rightarrow> 'k) \<Rightarrow> 'a \<Rightarrow> 'k socket_node \<Rightarrow> 'k node_result" where
  "SocketSink_consume net host ser async_connect new_socket v c =
     (if node_connected c = False
      then case connect_loop async_connect new_socket 0 (node_socket c) of
             (ok, s, _) \<Rightarrow>
               if ok = False
               then Node_throws (StdException ''socket sink connect error'') (c\<lparr>node_socket := s\<rparr>)
               else let c = c\<lparr>node_socket := s, node_connected := True\<rparr>
                    in node_written c (SocketSink_Write net host ser v (node_socket c))
      else node_written c (SocketSink_Write net host ser v (node_socket c)))"

text \<open>\<^verbatim>\<open>after_work\<close> announces the end of the stream and closes, \<^verbatim>\<open>hosted_mode\<close> only closes.\<close>

definition SocketSink_close ::
  "('k \<Rightarrow> bool) \<Rightarrow> ('k \<Rightarrow> 'k) \<Rightarrow> 'k socket_node \<Rightarrow> 'k node_result" where
  "SocketSink_close is_open close_socket c =
     (if node_connected c
      then if \<not> is_open (node_socket c) then Node_assert
           else Node_ok (c\<lparr>node_socket := close_socket (node_socket c), node_connected := False\<rparr>)
      else Node_ok c)"

definition SocketSink_after_work ::
  "'k asio \<Rightarrow> endian \<Rightarrow> ('k \<Rightarrow> bool) \<Rightarrow> ('k \<Rightarrow> 'k) \<Rightarrow> 'k socket_node \<Rightarrow> 'k node_result" where
  "SocketSink_after_work net host is_open close_socket c =
     (if node_connected c
      then case node_written c (SocketSink_WriteEof net host (node_socket c)) of
             Node_ok c \<Rightarrow> SocketSink_close is_open close_socket c
           | other \<Rightarrow> other
      else Node_ok c)"

text \<open>After the socket is closed, the input is read to its end as in every sink.\<close>

definition SocketSink_hosted_mode ::
  "('k \<Rightarrow> bool) \<Rightarrow> ('k \<Rightarrow> 'k) \<Rightarrow> 'k socket_node \<Rightarrow> 'k node_result \<times> hosted_cmd list" where
  "SocketSink_hosted_mode is_open close_socket c =
     (SocketSink_close is_open close_socket c, [CloseInput InPort InputCount])"

section \<open>SocketSource\<close>

definition SocketSource_accept ::
  "error_code \<Rightarrow> 'k \<Rightarrow> 'k socket_node \<Rightarrow> 'k node_result" where
  "SocketSource_accept ec accepted c =
     (if node_connected c = False
      then case SocketAcceptAwaiter ec (node_socket c) accepted of
             Inl e \<Rightarrow> Node_throws e c
           | Inr s \<Rightarrow> Node_ok (c\<lparr>node_socket := s, node_connected := True\<rparr>)
      else Node_ok c)"

definition read_error :: exn where
  "read_error = StdException ''socket source read package error''"

fun SocketSource_Read ::
  "'k asio \<Rightarrow> endian \<Rightarrow> (bytes \<Rightarrow> nat \<Rightarrow> 'a parse) \<Rightarrow> reading \<Rightarrow> 'k \<Rightarrow> 'a option reads \<times> 'k" where
  "SocketSource_Read net host des Length s =
     (case async_read net s 4 of
        None \<Rightarrow> (Suspended, s)
      | Some (ec, buf, s) \<Rightarrow>
          (case SocketReadAwaiter True ec (length buf) of
             Inl e \<Rightarrow> (Read_throws e, s)
           | Inr n \<Rightarrow> if n \<noteq> 4 then (Read_throws read_error, s) else (read_length host buf, s)))"
| "SocketSource_Read net host des (Body len) s =
     (case async_read net s (unat len) of
        None \<Rightarrow> (Suspended, s)
      | Some (ec, buf, s) \<Rightarrow>
          (case SocketReadAwaiter True ec (length buf) of
             Inl e \<Rightarrow> (Read_throws e, s)
           | Inr n \<Rightarrow>
               if n \<noteq> unat len then (Read_throws read_error, s)
               else case Deserialize_view (Deserialize_package host) buf of
                 Parsed pkg _ \<Rightarrow>
                   if pkg_eof pkg then (Got None, s)
                   else (reads_of_parse (case Deserialize_view des (bin_data pkg) of
                           Parsed v off \<Rightarrow> Parsed (Some v) off
                         | Parse_throws e \<Rightarrow> Parse_throws e
                         | Parse_assert \<Rightarrow> Parse_assert
                         | Parse_oob \<Rightarrow> Parse_oob), s)
               | Parse_throws e \<Rightarrow> (Read_throws e, s)
               | Parse_assert \<Rightarrow> (Read_assert, s)
               | Parse_oob \<Rightarrow> (Read_oob, s)))"

text \<open>Both reads in a row, when the network has the bytes.\<close>

definition SocketSource_receive ::
  "'k asio \<Rightarrow> endian \<Rightarrow> (bytes \<Rightarrow> nat \<Rightarrow> 'a parse) \<Rightarrow> 'k \<Rightarrow> 'a option reads \<times> 'k" where
  "SocketSource_receive net host des s =
     (case SocketSource_Read net host des Length s of
        (Continue rd, s) \<Rightarrow> SocketSource_Read net host des rd s
      | other \<Rightarrow> other)"

text \<open>\<^verbatim>\<open>generate\<close>: the first call accepts a connection; \<^verbatim>\<open>ec\<close> and \<^verbatim>\<open>accepted\<close> are what the acceptor gives.\<close>

definition SocketSource_generate ::
  "'k asio \<Rightarrow> endian \<Rightarrow> (bytes \<Rightarrow> nat \<Rightarrow> 'a parse) \<Rightarrow> error_code \<Rightarrow> 'k \<Rightarrow> 'k socket_node \<Rightarrow>
   'a option reads \<times> 'k socket_node" where
  "SocketSource_generate net host des ec accepted c =
     (case SocketSource_accept ec accepted c of
        Node_ok c \<Rightarrow>
          (case SocketSource_receive net host des (node_socket c) of (r, s) \<Rightarrow> (r, c\<lparr>node_socket := s\<rparr>))
      | Node_throws e c \<Rightarrow> (Read_throws e, c)
      | Node_assert \<Rightarrow> (Read_assert, c))"

definition SocketSource_CloseSocketIfNot ::
  "('k \<Rightarrow> bool) \<Rightarrow> ('k \<Rightarrow> 'k) \<Rightarrow> 'k socket_node \<Rightarrow> 'k node_result" where
  "SocketSource_CloseSocketIfNot is_open close_socket c =
     (if node_connected c = True
      then if \<not> is_open (node_socket c) then Node_assert
           else Node_ok (c\<lparr>node_socket := close_socket (node_socket c), node_connected := False\<rparr>)
      else Node_ok c)"

definition SocketSource_after_work ::
  "('k \<Rightarrow> bool) \<Rightarrow> ('k \<Rightarrow> 'k) \<Rightarrow> 'k socket_node \<Rightarrow> 'k node_result" where
  "SocketSource_after_work is_open close_socket c = SocketSource_CloseSocketIfNot is_open close_socket c"

definition SocketSource_hosted_mode ::
  "('k \<Rightarrow> bool) \<Rightarrow> ('k \<Rightarrow> 'k) \<Rightarrow> 'k socket_node \<Rightarrow> 'k node_result \<times> hosted_cmd list" where
  "SocketSource_hosted_mode is_open close_socket c =
     (SocketSource_CloseSocketIfNot is_open close_socket c, [CloseOutput OutPort])"

section \<open>The lives of the nodes\<close>

text \<open>The sink consumes a list of values, as \<^verbatim>\<open>Sink::work\<close> does with what it pops, and then ends.\<close>

fun sink_life ::
  "'k asio \<Rightarrow> endian \<Rightarrow> ('a \<Rightarrow> bytes \<Rightarrow> bytes option) \<Rightarrow> (nat \<Rightarrow> 'k \<Rightarrow> error_code \<times> 'k) \<Rightarrow> ('k \<Rightarrow> 'k) \<Rightarrow>
   ('k \<Rightarrow> bool) \<Rightarrow> ('k \<Rightarrow> 'k) \<Rightarrow> 'a list \<Rightarrow> 'k socket_node \<Rightarrow> 'k node_result" where
  "sink_life net host ser conn fresh is_open close_socket [] c = SocketSink_after_work net host is_open close_socket c"
| "sink_life net host ser conn fresh is_open close_socket (v # vs) c =
     (case SocketSink_consume net host ser conn fresh v c of
        Node_ok c \<Rightarrow> sink_life net host ser conn fresh is_open close_socket vs c
      | other \<Rightarrow> other)"

text \<open>The source is asked for values until it returns the end of the stream, at most \<^verbatim>\<open>n\<close> times.\<close>

fun source_life ::
  "'k asio \<Rightarrow> endian \<Rightarrow> (bytes \<Rightarrow> nat \<Rightarrow> 'a parse) \<Rightarrow> ('k \<Rightarrow> bool) \<Rightarrow> ('k \<Rightarrow> 'k) \<Rightarrow> error_code \<Rightarrow> 'k \<Rightarrow> nat \<Rightarrow>
   'k socket_node \<Rightarrow> 'a option list \<times> 'k node_result" where
  "source_life net host des is_open close_socket ec accepted 0 c = ([], Node_ok c)"
| "source_life net host des is_open close_socket ec accepted (Suc n) c =
     (case SocketSource_generate net host des ec accepted c of
        (Got (Some v), c) \<Rightarrow>
          (case source_life net host des is_open close_socket ec accepted n c of (vs, r) \<Rightarrow> (Some v # vs, r))
      | (Got None, c) \<Rightarrow> ([None], SocketSource_after_work is_open close_socket c)
      | (_, c) \<Rightarrow> ([], Node_ok c))"

text \<open>The packages of a life, without the connection.\<close>

fun sink_stream ::
  "'k asio \<Rightarrow> endian \<Rightarrow> ('a \<Rightarrow> bytes \<Rightarrow> bytes option) \<Rightarrow> 'a list \<Rightarrow> 'k \<Rightarrow> 'k written" where
  "sink_stream net host ser [] s = SocketSink_WriteEof net host s"
| "sink_stream net host ser (v # vs) s =
     (case SocketSink_Write net host ser v s of
        Written s \<Rightarrow> sink_stream net host ser vs s
      | other \<Rightarrow> other)"

fun source_stream ::
  "'k asio \<Rightarrow> endian \<Rightarrow> (bytes \<Rightarrow> nat \<Rightarrow> 'a parse) \<Rightarrow> nat \<Rightarrow> 'k \<Rightarrow> 'a option list" where
  "source_stream net host des 0 s = []"
| "source_stream net host des (Suc n) s =
     (case SocketSource_receive net host des s of
        (Got (Some v), s) \<Rightarrow> Some v # source_stream net host des n s
      | (Got None, _) \<Rightarrow> [None]
      | _ \<Rightarrow> [])"

section \<open>Connecting\<close>

lemma connect_loop_sleeps:
  "connect_loop conn fresh n s = (ok, s', slept) \<Longrightarrow> n \<le> 5 \<Longrightarrow>
     slept = take (length slept) (drop n wait_list) \<and> (ok \<longleftrightarrow> length slept < 5 - n) \<and>
     length slept \<le> 5 - n \<and> (ok \<longrightarrow> (\<exists>s0. conn (n + length slept) s0 = (No_error, s')))"
proof (induction conn fresh n s arbitrary: ok s' slept rule: connect_loop.induct)
  case (1 conn fresh n s)
  obtain ec s1 where c: "conn n s = (ec, s1)" by (cases "conn n s")
  show ?case
  proof (cases "n < 5 \<and> ec \<noteq> No_error")
    case True
    obtain ok2 s2 slept2 where r: "connect_loop conn fresh (n + 1) (fresh s1) = (ok2, s2, slept2)"
      by (cases "connect_loop conn fresh (n + 1) (fresh s1)")
    have now: "ok = ok2" "s' = s2" "slept = wait_list ! n # slept2"
      using "1.prems"(1) True c r by (auto simp: connect_loop.simps[of conn fresh n s])
    have "drop n wait_list = wait_list ! n # drop (Suc n) wait_list"
      using True Cons_nth_drop_Suc[of n wait_list] by (simp add: wait_list_def)
    then show ?thesis
      using "1.IH"[OF _ c[symmetric] _ r] True now by auto
  next
    case False
    then show ?thesis
      using "1.prems" c by (auto simp: connect_loop.simps[of conn fresh n s] split: if_splits)
  qed
qed

section \<open>Streams of packages\<close>

lemma SocketSink_frame_written:
  assumes "asio_streams net incoming outgoing" "SocketSink_frame net host pkg s = Written s'"
  shows "fits_package pkg" "outgoing s' = outgoing s @ frame (enc_package pkg)"
proof -
  obtain s1 where
    "async_write net s (be_bytes (of_nat (length (enc_package pkg)) :: uint32)) = (No_error, s1)"
    "async_write net s1 (enc_package pkg) = (No_error, s')" and fits: "fits_package pkg"
    using assms(2)
    by (auto simp: SocketSink_frame_def pkg.ser_enc u32.ser_enc Let_def
        split: if_splits prod.splits)
  then show "outgoing s' = outgoing s @ frame (enc_package pkg)"
    using asio_write(2)[OF assms(1)] by (simp add: frame_def)
  show "fits_package pkg" by (rule fits)
qed

lemma SocketSource_receive_frame:
  assumes "asio_streams net incoming outgoing" "frames fits_package enc_package pkg"
    "incoming s = frame (enc_package pkg) @ rest"
    "if pkg_eof pkg then r = None
     else \<exists>v off. r = Some v \<and> Deserialize_view des (bin_data pkg) = Parsed v off"
  obtains s' where "SocketSource_receive net host des s = (Got r, s')" "incoming s' = rest"
proof -
  let ?len = "be_bytes (of_nat (length (enc_package pkg)) :: uint32)"
  have "incoming s = ?len @ (enc_package pkg @ rest)" using assms(3) by (simp add: frame_def)
  then obtain s1 where s1: "async_read net s (length ?len) = Some (No_error, ?len, s1)"
      "incoming s1 = enc_package pkg @ rest"
    by (rule asio_read[OF assms(1)])
  from s1(2) obtain s2 where
    s2: "async_read net s1 (length (enc_package pkg)) = Some (No_error, enc_package pkg, s2)"
      "incoming s2 = rest"
    by (rule asio_read[OF assms(1)])
  have "Deserialize_view (Deserialize_package host) (enc_package pkg) =
      Parsed pkg (length (enc_package pkg))"
    using assms(2) pkg.view_iff by (simp add: frames_def)
  then have "SocketSource_receive net host des s = (Got r, s2)"
    using s1 s2 assms(2,4)
    by (auto simp: SocketSource_receive_def SocketReadAwaiter_cases frames_def split: if_splits)
  then show ?thesis using that s2(2) by blast
qed

context codec
begin

lemma sink_stream_written:
  assumes "asio_streams net incoming outgoing" "sink_stream net host ser vs s = Written s'"
  shows "(\<forall>v\<in>set vs. fits v) \<and>
    outgoing s' = outgoing s @
      concat (map (\<lambda>v. frame (enc_package \<lparr>pkg_eof = False, bin_data = enc v\<rparr>)) vs) @
      frame (enc_package \<lparr>pkg_eof = True, bin_data = []\<rparr>)"
  using assms(2)
proof (induction vs arbitrary: s)
  case Nil
  then show ?case
    using SocketSink_frame_written[OF assms(1)] by (simp add: SocketSink_WriteEof_def)
next
  case (Cons v vs)
  obtain s1 where s1: "SocketSink_Write net host ser v s = Written s1"
      "sink_stream net host ser vs s1 = Written s'"
    using Cons.prems by (auto split: written.splits)
  then have "fits v" "SocketSink_frame net host \<lparr>pkg_eof = False, bin_data = enc v\<rparr> s = Written s1"
    by (auto simp: SocketSink_Write_def ser_enc split: if_splits)
  then show ?case
    using Cons.IH[OF s1(2)] SocketSink_frame_written[OF assms(1)] by auto
qed

lemma source_stream_values:
  assumes net: "asio_streams net incoming outgoing"
    and vs: "\<forall>v\<in>set vs. fits v \<and> length (enc v) + 5 \<le> uint32_max"
    and inp: "incoming s =
      concat (map (\<lambda>v. frame (enc_package \<lparr>pkg_eof = False, bin_data = enc v\<rparr>)) vs) @
      frame (enc_package \<lparr>pkg_eof = True, bin_data = []\<rparr>) @ rest"
    and n: "length vs < n"
  shows "source_stream net host des n s = map Some vs @ [None]"
  using vs inp n
proof (induction vs arbitrary: s n)
  case Nil
  obtain m where "n = Suc m" using Nil.prems(3) by (cases n) auto
  moreover obtain s' where "SocketSource_receive net host des s = (Got (None :: 'a option), s')"
    by (rule SocketSource_receive_frame[OF net, of "\<lparr>pkg_eof = True, bin_data = []\<rparr>" s rest])
      (use Nil.prems in \<open>auto simp: frames_def enc_package_def enc_string_def uint32_max_def\<close>)
  ultimately show ?case by simp
next
  case (Cons v vs)
  let ?p = "\<lparr>pkg_eof = False, bin_data = enc v\<rparr>"
  let ?rest = "concat (map (\<lambda>v. frame (enc_package \<lparr>pkg_eof = False, bin_data = enc v\<rparr>)) vs) @
      frame (enc_package \<lparr>pkg_eof = True, bin_data = []\<rparr>) @ rest"
  obtain m where m: "n = Suc m" using Cons.prems(3) by (cases n) auto
  have dv: "Deserialize_view des (enc v) = Parsed v (length (enc v))"
    using Cons.prems(1) by (simp add: view_iff)
  obtain s' where s': "SocketSource_receive net host des s = (Got (Some v), s')"
      "incoming s' = ?rest"
    by (rule SocketSource_receive_frame[OF net, of ?p s ?rest "Some v" des host])
      (use Cons.prems dv in \<open>auto simp: frames_def enc_package_def enc_string_def uint32_max_def\<close>)
  then show ?case
    using Cons.IH[of s' m] Cons.prems m by simp
qed

end

section \<open>Properties\<close>

lemma sink_life_connected:
  assumes "sink_life net host ser conn fresh is_open close_socket vs c = Node_ok c'" "node_connected c"
  shows "\<not> node_connected c' \<and> (\<exists>s. sink_stream net host ser vs (node_socket c) = Written s \<and> node_socket c' = close_socket s)"
  using assms
proof (induction vs arbitrary: c)
  case Nil
  then show ?case
    by (cases "SocketSink_WriteEof net host (node_socket c)")
      (auto simp: SocketSink_after_work_def SocketSink_close_def split: if_splits)
next
  case (Cons v vs)
  then obtain c1 where c1: "SocketSink_consume net host ser conn fresh v c = Node_ok c1"
    "sink_life net host ser conn fresh is_open close_socket vs c1 = Node_ok c'"
    by (auto split: node_result.splits)
  then obtain s where "SocketSink_Write net host ser v (node_socket c) = Written s" "c1 = c\<lparr>node_socket := s\<rparr>"
    using Cons.prems(2)
    by (cases "SocketSink_Write net host ser v (node_socket c)") (auto simp: SocketSink_consume_def)
  then show ?case using Cons.IH[OF c1(2)] Cons.prems(2) by simp
qed

text \<open>The first value makes the sink connect.\<close>

lemma sink_life_connects:
  assumes "sink_life net host ser conn fresh is_open close_socket vs (SocketNode s0) = Node_ok c'" "vs \<noteq> []"
  shows "\<not> node_connected c' \<and> (\<exists>i s1 s s'. conn i s1 = (No_error, s) \<and> sink_stream net host ser vs s = Written s' \<and>
    node_socket c' = close_socket s')"
proof -
  obtain v ws where vs: "vs = v # ws" using assms(2) by (cases vs) auto
  obtain ok s slept where c: "connect_loop conn fresh 0 s0 = (ok, s, slept)" by (cases "connect_loop conn fresh 0 s0")
  obtain c1 where c1: "SocketSink_consume net host ser conn fresh v (SocketNode s0) = Node_ok c1"
    "sink_life net host ser conn fresh is_open close_socket ws c1 = Node_ok c'"
    using assms(1) vs by (auto split: node_result.splits)
  let ?c = "\<lparr>node_socket = s, node_connected = True\<rparr>"
  have ok: ok "node_written ?c (SocketSink_Write net host ser v s) = Node_ok c1"
    using c1(1) c by (auto simp: SocketSink_consume_def SocketNode_def split: if_splits)
  then obtain i s1 where i: "conn i s1 = (No_error, s)" using connect_loop_sleeps[OF c] by auto
  have "sink_life net host ser conn fresh is_open close_socket vs ?c = Node_ok c'"
    using ok(2) c1(2) vs by (simp add: SocketSink_consume_def)
  from sink_life_connected[OF this] i show ?thesis by auto
qed

text \<open>A read does not close a socket.\<close>

definition reads_keep_open :: "'k asio \<Rightarrow> ('k \<Rightarrow> bool) \<Rightarrow> bool" where
  "reads_keep_open net is_open \<longleftrightarrow>
     (\<forall>s n ec bs s'. async_read net s n = Some (ec, bs, s') \<longrightarrow> is_open s' = is_open s)"

lemma Read_keeps_open:
  assumes "reads_keep_open net is_open" "SocketSource_Read net host des rd s = (r, s')"
  shows "is_open s' = is_open s"
  using assms unfolding reads_keep_open_def
  by (cases rd) (auto split: option.splits prod.splits sum.splits if_splits parse.splits)

lemma receive_keeps_open:
  assumes "reads_keep_open net is_open" "SocketSource_receive net host des s = (r, s')"
  shows "is_open s' = is_open s"
proof -
  obtain r1 s1 where r1: "SocketSource_Read net host des Length s = (r1, s1)" by (cases "SocketSource_Read net host des Length s")
  have "s' = s1 \<or> (\<exists>rd. SocketSource_Read net host des rd s1 = (r, s'))"
    using assms(2) r1 by (cases r1) (auto simp: SocketSource_receive_def)
  then show ?thesis using Read_keeps_open[OF assms(1)] r1 by metis
qed

lemma source_life_stream:
  assumes "node_connected c" "source_stream net host des n (node_socket c) = map Some vs @ [None]" "length vs < n"
    "is_open (node_socket c)" "reads_keep_open net is_open"
  shows "\<exists>c' s. source_life net host des is_open close_socket ec accepted n c = (map Some vs @ [None], Node_ok c') \<and>
    \<not> node_connected c' \<and> node_socket c' = close_socket s"
  using assms(1-4)
proof (induction vs arbitrary: c n)
  case Nil
  then obtain m where m: "n = Suc m" by (cases n) auto
  obtain r s where r: "SocketSource_receive net host des (node_socket c) = (r, s)" by (cases "SocketSource_receive net host des (node_socket c)")
  have "r = Got None" using Nil.prems(2) m r by (auto split: reads.splits option.splits)
  then show ?case
    using m r Nil.prems(1,4) receive_keeps_open[OF assms(5) r]
    by (auto simp: SocketSource_generate_def SocketSource_accept_def SocketSource_after_work_def SocketSource_CloseSocketIfNot_def)
next
  case (Cons v vs)
  then obtain m where m: "n = Suc m" by (cases n) auto
  obtain r s where r: "SocketSource_receive net host des (node_socket c) = (r, s)" by (cases "SocketSource_receive net host des (node_socket c)")
  have "r = Got (Some v)" "source_stream net host des m s = map Some vs @ [None]"
    using Cons.prems(2) m r by (auto split: reads.splits option.splits)
  then show ?case
    using Cons.IH[of "c\<lparr>node_socket := s\<rparr>" m] m r Cons.prems(1,3,4) receive_keeps_open[OF assms(5) r]
    by (auto simp: SocketSource_generate_def SocketSource_accept_def)
qed

lemma stream_round_trip:
  assumes "codec ser des fits enc" "asio_streams net incoming outgoing"
    and "sink_stream net host ser vs s = Written s'" "outgoing s = []"
    and "\<forall>v\<in>set vs. length (enc v) + 5 \<le> uint32_max"
    and "incoming r = outgoing s'"
  shows "source_stream net host' des (Suc (length vs)) r = map Some vs @ [None]"
proof -
  note sent = codec.sink_stream_written[OF assms(1-3)]
  show ?thesis
    by (rule codec.source_stream_values[OF assms(1,2), where rest = "[]"])
      (use sent assms(4-6) in auto)
qed

text \<open>
  C22: from a \<^verbatim>\<open>SocketSink\<close> to the \<^verbatim>\<open>SocketSource\<close> at the other end. If the sink lives to its end, connecting, consuming
  its values and announcing the end, then its socket is not open any more, and the source that accepted the connection generates
  exactly these values in order, then the end of the stream, and its socket is not open any more either; whatever the
  byte orders of the two machines, for every type with a lawful serialisation, provided that every serialised
  value leaves room for the 5 bytes that a package adds below \<^verbatim>\<open>2^32\<close>. A closed socket is not open and
  keeps what was written; reading does not close a socket. A sink without a value is the exception: it never connects, so
  there is nothing for the source to accept.
\<close>

theorem socket_nodes_round_trip:
  assumes "codec ser des fits enc" "asio_streams net incoming outgoing"
    and connecting: "\<forall>i s s'. conn i s = (No_error, s') \<longrightarrow> outgoing s' = []"
    and closing: "\<forall>s. outgoing (close_socket s) = outgoing s \<and> \<not> is_open (close_socket s)" and reading: "reads_keep_open net is_open" "is_open accepted"
    and "sink_life net host ser conn fresh is_open close_socket vs (SocketNode s0) = Node_ok c"
    and "\<forall>v\<in>set vs. length (enc v) + 5 \<le> uint32_max"
    and "incoming accepted = outgoing (node_socket c)"
  shows "\<not> node_connected c \<and>
    (if vs = [] then c = SocketNode s0
     else \<not> is_open (node_socket c) \<and>
       (\<exists>d. source_life net host' des is_open close_socket No_error accepted (Suc (length vs)) (SocketNode r) =
         (map Some vs @ [None], Node_ok d) \<and> \<not> node_connected d \<and> \<not> is_open (node_socket d)))"
proof (cases "vs = []")
  case True
  then have "c = SocketNode s0" using assms(7) by (simp add: SocketSink_after_work_def SocketNode_def)
  then show ?thesis using True by (simp add: SocketNode_def)
next
  case False
  obtain i s1 s s' where c: "\<not> node_connected c" "conn i s1 = (No_error, s)" "sink_stream net host ser vs s = Written s'"
    "node_socket c = close_socket s'"
    using sink_life_connects[OF assms(7) False] by blast
  let ?a = "\<lparr>node_socket = accepted, node_connected = True\<rparr>"
  have "source_stream net host' des (Suc (length vs)) accepted = map Some vs @ [None]"
    using connecting c(2,4) closing assms(9) by (intro stream_round_trip[OF assms(1,2) c(3) _ assms(8)]) auto
  then obtain d where "source_life net host' des is_open close_socket No_error accepted (Suc (length vs)) ?a =
      (map Some vs @ [None], Node_ok d)" "\<not> node_connected d" "\<not> is_open (node_socket d)"
    using source_life_stream[of ?a net host' des "Suc (length vs)" vs is_open close_socket No_error accepted] reading closing
    by auto
  moreover have "source_life net host' des is_open close_socket No_error accepted (Suc (length vs)) (SocketNode r) =
      source_life net host' des is_open close_socket No_error accepted (Suc (length vs)) ?a"
    by (simp add: SocketSource_generate_def SocketSource_accept_def SocketNode_def)
  ultimately show ?thesis using False c(1,4) closing by auto
qed

definition demo_connect :: "nat \<Rightarrow> connection \<Rightarrow> error_code \<times> connection" where
  "demo_connect i s = (if i = 2 then (No_error, opened []) else (Other_error ''refused'', s))"

definition demo_open :: "connection \<Rightarrow> bool" where
  "demo_open s \<longleftrightarrow> conn_end s \<noteq> Some (Other_error ''closed'')"

definition demo_close :: "connection \<Rightarrow> connection" where
  "demo_close s = s\<lparr>conn_end := Some (Other_error ''closed'')\<rparr>"

definition demo_life :: "connection socket_node" where
  "demo_life =
     (case sink_life plain_asio Big (Serialize_integral Big) demo_connect (\<lambda>s. s) demo_open demo_close
        [1 :: uint32, 2, 4294967295] (SocketNode (opened [])) of Node_ok c \<Rightarrow> c | _ \<Rightarrow> SocketNode (opened []))"

theorem socket_nodes_round_trip_witness:
  "\<not> demo_open (node_socket demo_life) \<and>
   (\<exists>d. source_life plain_asio Little (Deserialize_integral Little) demo_open demo_close No_error
     (opened (conn_out (node_socket demo_life))) 4 (SocketNode (opened [])) =
       ([Some (1 :: uint32), Some 2, Some 4294967295, None], Node_ok d) \<and> \<not> node_connected d \<and> \<not> demo_open (node_socket d))"
proof -
  have life: "sink_life plain_asio Big (Serialize_integral Big) demo_connect (\<lambda>s. s) demo_open demo_close
      [1 :: uint32, 2, 4294967295] (SocketNode (opened [])) = Node_ok demo_life"
    by (simp add: demo_life_def SocketSink_consume_def SocketSink_after_work_def SocketSink_close_def SocketNode_def
        connect_loop.simps demo_connect_def SocketSink_Write_def SocketSink_WriteEof_def demo_open_def opened_def
        SocketSink_frame_def u32.ser_enc pkg.ser_enc plain_asio_def Let_def uint32_max_def)
  have pre: "\<forall>i s s'. demo_connect i s = (No_error, s') \<longrightarrow> conn_out s' = []"
    "\<forall>s. conn_out (demo_close s) = conn_out s \<and> \<not> demo_open (demo_close s)" "reads_keep_open plain_asio demo_open"
    "demo_open (opened (conn_out (node_socket demo_life)))"
    "\<forall>v\<in>set [1 :: uint32, 2, 4294967295]. length (be_bytes v) + 5 \<le> uint32_max"
    "conn_in (opened (conn_out (node_socket demo_life))) = conn_out (node_socket demo_life)"
    by (auto simp: demo_connect_def reads_keep_open_def opened_def uint32_max_def demo_open_def demo_close_def plain_asio_def
        split: if_splits option.splits)
  have "\<not> demo_open (node_socket demo_life) \<and>
      (\<exists>d. source_life plain_asio Little (Deserialize_integral Little) demo_open demo_close No_error
      (opened (conn_out (node_socket demo_life))) (Suc (length [1 :: uint32, 2, 4294967295])) (SocketNode (opened [])) =
       (map Some [1 :: uint32, 2, 4294967295] @ [None], Node_ok d) \<and> \<not> node_connected d \<and> \<not> demo_open (node_socket d))"
    using socket_nodes_round_trip[OF u32.codec_axioms plain_asio_streams pre(1-4) life pre(5,6), of Little Little "opened []"]
    by (simp only: list.distinct if_False simp_thms)
  moreover have "Suc (length [1 :: uint32, 2, 4294967295]) = 4"
    "map Some [1 :: uint32, 2, 4294967295] @ [None] = [Some 1, Some 2, Some 4294967295, None]"
    by simp_all
  ultimately show ?thesis by (simp only: simp_thms)
qed

text \<open>
  C35: the bytes a \<^verbatim>\<open>SocketSink\<close> puts on the wire for a package are the package after its 32-bit
  length, and the length field holds the size modulo \<^verbatim>\<open>2^32\<close>: unlike \<^verbatim>\<open>write_package\<close> of the
  switcher, the sink does not check that the size fits, so for a value of more than \<^verbatim>\<open>2^32 - 6\<close>
  bytes it is not the size of what follows.
\<close>

theorem socket_sink_length_field:
  assumes "asio_streams net incoming outgoing" "SocketSink_frame net host pkg s = Written s'"
  shows "\<exists>len :: uint32. outgoing s' = outgoing s @ be_bytes len @ enc_package pkg \<and>
     unat len = (length (bin_data pkg) + 5) mod 2 ^ 32"
proof -
  have "length (enc_package pkg) = length (bin_data pkg) + 5"
    by (simp add: enc_package_def enc_string_def)
  then have "unat (of_nat (length (enc_package pkg)) :: uint32) =
      (length (bin_data pkg) + 5) mod 2 ^ 32"
    by (simp only: unat_of_nat) simp
  then show ?thesis
    using SocketSink_frame_written(2)[OF assms] unfolding frame_def by blast
qed

definition demo_eof :: connection where
  "demo_eof =
     (case SocketSink_frame plain_asio Big \<lparr>pkg_eof = True, bin_data = []\<rparr> (opened []) of
        Written c \<Rightarrow> c | _ \<Rightarrow> opened [])"

theorem socket_sink_length_field_witness:
  "\<exists>len :: uint32. conn_out demo_eof = be_bytes len @ enc_package \<lparr>pkg_eof = True, bin_data = []\<rparr> \<and>
     unat len = 5"
proof -
  have "SocketSink_frame plain_asio Big \<lparr>pkg_eof = True, bin_data = []\<rparr> (opened []) = Written demo_eof"
    by (simp add: demo_eof_def SocketSink_frame_def u32.ser_enc pkg.ser_enc plain_asio_def Let_def)
  from socket_sink_length_field[OF plain_asio_streams this]
  show ?thesis by (simp add: opened_def)
qed


end
