(* ===== verification/Executor.thy ===== *)
theory Executor
  imports Tunnel_Prelude "HOL-Library.Multiset"
begin

text \<open>
  The thread pool \<^verbatim>\<open>TunnelExecutor\<close> (\<^verbatim>\<open>executor/tunnel_executor.h\<close>) and its \<^verbatim>\<open>TimerManager\<close>
  (\<^verbatim>\<open>executor/timer.h\<close>) as a transition system: the worker threads, the threads that call
  \<^verbatim>\<open>schedule\<close> and the thread that calls \<^verbatim>\<open>Stop\<close> interleave at every queue operation, lock,
  unlock and notification.  The lock-free queue \<^verbatim>\<open>rigtorp::MPMCQueue\<close> is a parameter.
\<close>

section \<open>State\<close>

text \<open>The queue operations used, and their documented behaviour: \<^verbatim>\<open>contents\<close> is the multiset of
  the elements in a queue.\<close>

record ('q, 'f) mpmc =
  try_push :: "'q \<Rightarrow> 'f \<Rightarrow> bool \<times> 'q"
  try_pop :: "'q \<Rightarrow> 'f option \<times> 'q"

definition mpmc_queue :: "('q, 'f) mpmc \<Rightarrow> ('q \<Rightarrow> 'f multiset) \<Rightarrow> bool" where
  "mpmc_queue mq contents \<longleftrightarrow>
     (\<forall>q f. case try_push mq q f of
        (ok, q') \<Rightarrow> contents q' = (if ok then add_mset f (contents q) else contents q)) \<and>
     (\<forall>q. case try_pop mq q of
        (None, q') \<Rightarrow> contents q = {#} \<and> contents q' = {#}
      | (Some f, q') \<Rightarrow> contents q = add_mset f (contents q'))"

text \<open>
  Where a worker is in \<^verbatim>\<open>WorkerMain\<close>: in the loop of \<^verbatim>\<open>TryPopStartFrom\<close> at index \<^verbatim>\<open>i\<close>, about to wake
  the next worker, running a task, about to lock its mutex, evaluating the predicate of its
  condition variable with the mutex held (at index \<^verbatim>\<open>i\<close> of the inner \<^verbatim>\<open>TryPopStartFrom\<close>), asleep
  on the condition variable, woken and about to lock the mutex again, or returned.
\<close>

datatype 'f worker =
    Scan nat
  | Wake 'f
  | Running 'f
  | Lock
  | Pred nat
  | Sleeping
  | Relock
  | Returned

text \<open>A call of \<^verbatim>\<open>schedule\<close>: at index \<^verbatim>\<open>i\<close> of its loop, or about to notify.\<close>

datatype 'f call = No_call | Try 'f nat nat | Notify nat

text \<open>A call of \<^verbatim>\<open>Stop\<close>: locking the mutexes, unlocking them, joining the workers.\<close>

datatype stopper = Not_stopping | Locking nat | Unlocking nat | Joining

text \<open>
  \<^verbatim>\<open>retiring\<close> is the local variable \<^verbatim>\<open>stop_when_try_pop_failed\<close> of a worker.  \<^verbatim>\<open>accepted\<close> and
  \<^verbatim>\<open>executed\<close> record, for the theorems, the tasks that \<^verbatim>\<open>schedule\<close> pushed and those whose run has
  ended; \<^verbatim>\<open>late\<close> those that a thread other than the workers pushed to a queue after \<^verbatim>\<open>stop_\<close> was set.  Threads are
  numbered, the workers first.
\<close>

record ('q, 'f) executor =
  stop_flag :: bool
  thread_num :: nat
  task_queue :: "nat \<Rightarrow> 'q"
  workers :: "nat \<Rightarrow> 'f worker"
  retiring :: "nat \<Rightarrow> bool"
  calls :: "nat \<Rightarrow> 'f call"
  stopping :: stopper
  accepted :: "'f multiset"
  executed :: "'f multiset"
  late :: "nat \<Rightarrow> 'f multiset"

definition TunnelExecutor :: "nat \<Rightarrow> 'q \<Rightarrow> ('q, 'f) executor option" where
  "TunnelExecutor n empty_queue =
     (if n > 0
      then Some \<lparr>stop_flag = False, thread_num = n, task_queue = (\<lambda>_. empty_queue),
        workers = (\<lambda>_. Scan 0), retiring = (\<lambda>_. False), calls = (\<lambda>_. No_call),
        stopping = Not_stopping, accepted = {#}, executed = {#}, late = (\<lambda>_. {#})\<rparr>
      else None)"

section \<open>Locks and condition variables\<close>

text \<open>The mutex of a worker is held by the worker while it evaluates its predicate, or by
  \<^verbatim>\<open>Stop\<close>.  The other holders of it lock and unlock it within one step.\<close>

definition stop_holds :: "('q, 'f) executor \<Rightarrow> nat \<Rightarrow> bool" where
  "stop_holds ex j \<longleftrightarrow>
     (case stopping ex of
        Not_stopping \<Rightarrow> False
      | Locking i \<Rightarrow> j < i
      | Unlocking i \<Rightarrow> i \<le> j
      | Joining \<Rightarrow> False)"

definition in_pred :: "('q, 'f) executor \<Rightarrow> nat \<Rightarrow> bool" where
  "in_pred ex j = (case workers ex j of Pred _ \<Rightarrow> True | _ \<Rightarrow> False)"

definition mutex_free :: "('q, 'f) executor \<Rightarrow> nat \<Rightarrow> bool" where
  "mutex_free ex j \<longleftrightarrow> \<not> stop_holds ex j \<and> \<not> in_pred ex j"

definition notify_one :: "nat \<Rightarrow> ('q, 'f) executor \<Rightarrow> ('q, 'f) executor" where
  "notify_one j ex =
     (if workers ex j = Sleeping then ex\<lparr>workers := (workers ex)(j := Relock)\<rparr> else ex)"

definition set_worker :: "nat \<Rightarrow> 'f worker \<Rightarrow> ('q, 'f) executor \<Rightarrow> ('q, 'f) executor" where
  "set_worker w s ex = ex\<lparr>workers := (workers ex)(w := s)\<rparr>"

definition set_queue :: "nat \<Rightarrow> 'q \<Rightarrow> ('q, 'f) executor \<Rightarrow> ('q, 'f) executor" where
  "set_queue j q ex = ex\<lparr>task_queue := (task_queue ex)(j := q)\<rparr>"

section \<open>Workers\<close>

text \<open>One iteration of \<^verbatim>\<open>TryPopStartFrom\<close>.\<close>

definition TryPop_at ::
  "('q, 'f) mpmc \<Rightarrow> nat \<Rightarrow> nat \<Rightarrow> ('q, 'f) executor \<Rightarrow> 'f option \<times> ('q, 'f) executor" where
  "TryPop_at mq index i ex =
     (let steal_worker_id = (index + i) mod thread_num ex
      in case try_pop mq (task_queue ex steal_worker_id) of
           (r, q) \<Rightarrow> (r, set_queue steal_worker_id q ex))"

definition WakeUpNextWorker :: "nat \<Rightarrow> ('q, 'f) executor \<Rightarrow> ('q, 'f) executor" where
  "WakeUpNextWorker index ex = notify_one ((index + 1) mod thread_num ex) ex"

text \<open>Entering the wait: the first test of the predicate is \<^verbatim>\<open>stop_ == true\<close>.\<close>

definition enter_wait :: "nat \<Rightarrow> ('q, 'f) executor \<Rightarrow> ('q, 'f) executor option" where
  "enter_wait w ex =
     (if mutex_free ex w
      then Some (if stop_flag ex
                 then set_worker w (Scan 0) (ex\<lparr>retiring := (retiring ex)(w := True)\<rparr>)
                 else set_worker w (Pred 0) ex)
      else None)"

text \<open>One step of \<^verbatim>\<open>WorkerMain\<close>; no result when the worker is blocked or has returned.\<close>

definition WorkerMain ::
  "('q, 'f) mpmc \<Rightarrow> nat \<Rightarrow> ('q, 'f) executor \<Rightarrow> ('q, 'f) executor option" where
  "WorkerMain mq w ex =
     (case workers ex w of
        Scan i \<Rightarrow>
          if i < thread_num ex
          then (case TryPop_at mq w i ex of
                  (Some f, ex) \<Rightarrow> Some (set_worker w (Wake f) ex)
                | (None, ex) \<Rightarrow> Some (set_worker w (Scan (i + 1)) ex))
          else Some (set_worker w (if retiring ex w then Returned else Lock) ex)
      | Wake f \<Rightarrow> Some (set_worker w (Running f) (WakeUpNextWorker w ex))
      | Running f \<Rightarrow>
          if calls ex w = No_call
          then Some (set_worker w (Scan 0) (ex\<lparr>executed := add_mset f (executed ex)\<rparr>))
          else None
      | Lock \<Rightarrow> enter_wait w ex
      | Relock \<Rightarrow> enter_wait w ex
      | Pred i \<Rightarrow>
          if i < thread_num ex
          then (case TryPop_at mq w i ex of
                  (Some f, ex) \<Rightarrow>
                    Some (if stop_flag ex
                          then set_worker w (Scan 0) (ex\<lparr>retiring := (retiring ex)(w := True)\<rparr>)
                          else set_worker w (Running f) ex)
                | (None, ex) \<Rightarrow> Some (set_worker w (Pred (i + 1)) ex))
          else Some (set_worker w Sleeping ex)
      | Sleeping \<Rightarrow> None
      | Returned \<Rightarrow> None)"

section \<open>schedule and Stop\<close>

text \<open>The worker whose queue is tried first: \<^verbatim>\<open>rn\<close> and \<^verbatim>\<open>r\<close> are the random numbers.\<close>

definition worker_index :: "('q, 'f) executor \<Rightarrow> nat \<Rightarrow> nat \<Rightarrow> nat \<Rightarrow> nat" where
  "worker_index ex thread rn r =
     (if thread < thread_num ex
      then if rn = 0 then r else thread
      else r)"

definition schedule_begin ::
  "nat \<Rightarrow> 'f \<Rightarrow> nat \<Rightarrow> nat \<Rightarrow> ('q, 'f) executor \<Rightarrow> ('q, 'f) executor" where
  "schedule_begin thread f rn r ex =
     ex\<lparr>calls := (calls ex)(thread := Try f (worker_index ex thread rn r) 0)\<rparr>"

definition record_late :: "nat \<Rightarrow> nat \<Rightarrow> 'f \<Rightarrow> ('q, 'f) executor \<Rightarrow> ('q, 'f) executor" where
  "record_late thread j f ex =
     (if stop_flag ex \<and> thread_num ex \<le> thread then ex\<lparr>late := (late ex)(j := add_mset f (late ex j))\<rparr> else ex)"

definition schedule_step ::
  "('q, 'f) mpmc \<Rightarrow> nat \<Rightarrow> ('q, 'f) executor \<Rightarrow> ('q, 'f) executor option" where
  "schedule_step mq thread ex =
     (case calls ex thread of
        No_call \<Rightarrow> None
      | Try f index i \<Rightarrow>
          if i < thread_num ex
          then let try_push_id = (index + i) mod thread_num ex
               in if mutex_free ex try_push_id
                  then case try_push mq (task_queue ex try_push_id) f of
                         (succ, q) \<Rightarrow>
                           let ex = set_queue try_push_id q ex
                           in Some (if succ
                                    then record_late thread try_push_id f
                                           (ex\<lparr>calls := (calls ex)(thread := Notify try_push_id),
                                               accepted := add_mset f (accepted ex)\<rparr>)
                                    else ex\<lparr>calls := (calls ex)(thread := Try f index (i + 1))\<rparr>)
                  else None
          else Some (ex\<lparr>calls := (calls ex)(thread := No_call)\<rparr>)
      | Notify j \<Rightarrow> Some (notify_one j (ex\<lparr>calls := (calls ex)(thread := No_call)\<rparr>)))"

definition Stop_step :: "('q, 'f) executor \<Rightarrow> ('q, 'f) executor option" where
  "Stop_step ex =
     (case stopping ex of
        Not_stopping \<Rightarrow> None
      | Locking i \<Rightarrow>
          if i < thread_num ex
          then if \<not> in_pred ex i then Some (ex\<lparr>stopping := Locking (i + 1)\<rparr>) else None
          else Some (ex\<lparr>stop_flag := True, stopping := Unlocking 0\<rparr>)
      | Unlocking i \<Rightarrow>
          if i < thread_num ex
          then Some (notify_one i (ex\<lparr>stopping := Unlocking (i + 1)\<rparr>))
          else Some (ex\<lparr>stopping := Joining\<rparr>)
      | Joining \<Rightarrow> None)"

section \<open>The transition system\<close>

text \<open>
  Every thread may call \<^verbatim>\<open>schedule\<close> at any time, also while and after \<^verbatim>\<open>Stop\<close> runs; a worker does so while it runs a task.
  \<^verbatim>\<open>Stop\<close> is called once.  A condition variable may wake up spuriously.
\<close>

definition may_call :: "('q, 'f) executor \<Rightarrow> nat \<Rightarrow> bool" where
  "may_call ex thread \<longleftrightarrow>
     calls ex thread = No_call \<and> (thread < thread_num ex \<longrightarrow> (\<exists>f. workers ex thread = Running f))"

inductive ex_step ::
  "('q, 'f) mpmc \<Rightarrow> ('q, 'f) executor \<Rightarrow> ('q, 'f) executor \<Rightarrow> bool" for mq :: "('q, 'f) mpmc" where
  worker: "w < thread_num ex \<Longrightarrow> WorkerMain mq w ex = Some ex' \<Longrightarrow> ex_step mq ex ex'"
| spurious: "w < thread_num ex \<Longrightarrow> workers ex w = Sleeping \<Longrightarrow>
    ex_step mq ex (set_worker w Relock ex)"
| call: "may_call ex t \<Longrightarrow> r < thread_num ex \<Longrightarrow> ex_step mq ex (schedule_begin t f rn r ex)"
| schedule: "schedule_step mq t ex = Some ex' \<Longrightarrow> ex_step mq ex ex'"
| stop_call: "stopping ex = Not_stopping \<Longrightarrow> ex_step mq ex (ex\<lparr>stopping := Locking 0\<rparr>)"
| stop: "Stop_step ex = Some ex' \<Longrightarrow> ex_step mq ex ex'"

inductive ex_reach ::
  "('q, 'f) mpmc \<Rightarrow> ('q, 'f) executor \<Rightarrow> ('q, 'f) executor \<Rightarrow> bool" for mq :: "('q, 'f) mpmc" where
  here: "ex_reach mq ex ex"
| step: "ex_reach mq ex ex' \<Longrightarrow> ex_step mq ex' ex'' \<Longrightarrow> ex_reach mq ex ex''"

section \<open>Rules for the steps\<close>

lemma set_worker_simps [simp]:
  "workers (set_worker w s ex) = (workers ex)(w := s)" "task_queue (set_worker w s ex) = task_queue ex"
  "stop_flag (set_worker w s ex) = stop_flag ex" "thread_num (set_worker w s ex) = thread_num ex"
  "retiring (set_worker w s ex) = retiring ex" "calls (set_worker w s ex) = calls ex"
  "stopping (set_worker w s ex) = stopping ex" "accepted (set_worker w s ex) = accepted ex"
  "executed (set_worker w s ex) = executed ex" "late (set_worker w s ex) = late ex"
  by (simp_all add: set_worker_def)

lemma set_queue_simps [simp]:
  "task_queue (set_queue j q ex) = (task_queue ex)(j := q)" "workers (set_queue j q ex) = workers ex"
  "stop_flag (set_queue j q ex) = stop_flag ex" "thread_num (set_queue j q ex) = thread_num ex"
  "retiring (set_queue j q ex) = retiring ex" "calls (set_queue j q ex) = calls ex"
  "stopping (set_queue j q ex) = stopping ex" "accepted (set_queue j q ex) = accepted ex"
  "executed (set_queue j q ex) = executed ex" "late (set_queue j q ex) = late ex"
  by (simp_all add: set_queue_def)

lemma notify_one_simps [simp]:
  "workers (notify_one j ex) w = (if w = j \<and> workers ex w = Sleeping then Relock else workers ex w)"
  "task_queue (notify_one j ex) = task_queue ex"
  "stop_flag (notify_one j ex) = stop_flag ex" "thread_num (notify_one j ex) = thread_num ex"
  "retiring (notify_one j ex) = retiring ex" "calls (notify_one j ex) = calls ex"
  "stopping (notify_one j ex) = stopping ex" "accepted (notify_one j ex) = accepted ex"
  "executed (notify_one j ex) = executed ex" "late (notify_one j ex) = late ex"
  by (auto simp: notify_one_def)

lemma record_late_simps [simp]:
  "workers (record_late t j f ex) = workers ex" "task_queue (record_late t j f ex) = task_queue ex"
  "stop_flag (record_late t j f ex) = stop_flag ex" "thread_num (record_late t j f ex) = thread_num ex"
  "retiring (record_late t j f ex) = retiring ex" "calls (record_late t j f ex) = calls ex"
  "stopping (record_late t j f ex) = stopping ex" "accepted (record_late t j f ex) = accepted ex"
  "executed (record_late t j f ex) = executed ex"
  "late (record_late t j f ex) k =
     (if stop_flag ex \<and> thread_num ex \<le> t \<and> k = j then add_mset f (late ex k) else late ex k)"
  by (simp_all add: record_late_def)

lemma in_pred_simps [simp]:
  "in_pred (set_queue j q ex) w = in_pred ex w"
  "in_pred (notify_one j ex) w = in_pred ex w"
  "in_pred (set_worker v s ex) w = (if w = v then (case s of Pred _ \<Rightarrow> True | _ \<Rightarrow> False) else in_pred ex w)"
  by (auto simp: in_pred_def)

lemma in_pred_iff: "in_pred ex w \<longleftrightarrow> (\<exists>i. workers ex w = Pred i)"
  by (simp add: in_pred_def split: worker.split)

lemma WorkerMain_elim:
  assumes "WorkerMain mq w ex = Some ex'"
  obtains
    (scan_hit) i f q where "workers ex w = Scan i" "i < thread_num ex"
      "try_pop mq (task_queue ex ((w + i) mod thread_num ex)) = (Some f, q)"
      "ex' = set_worker w (Wake f) (set_queue ((w + i) mod thread_num ex) q ex)"
  | (scan_miss) i q where "workers ex w = Scan i" "i < thread_num ex"
      "try_pop mq (task_queue ex ((w + i) mod thread_num ex)) = (None, q)"
      "ex' = set_worker w (Scan (i + 1)) (set_queue ((w + i) mod thread_num ex) q ex)"
  | (scan_end) i where "workers ex w = Scan i" "thread_num ex \<le> i"
      "ex' = set_worker w (if retiring ex w then Returned else Lock) ex"
  | (wake) f where "workers ex w = Wake f"
      "ex' = set_worker w (Running f) (notify_one ((w + 1) mod thread_num ex) ex)"
  | (ended) f where "workers ex w = Running f" "calls ex w = No_call"
      "ex' = set_worker w (Scan 0) (ex\<lparr>executed := add_mset f (executed ex)\<rparr>)"
  | (wait_stop) "workers ex w = Lock \<or> workers ex w = Relock" "mutex_free ex w" "stop_flag ex"
      "ex' = set_worker w (Scan 0) (ex\<lparr>retiring := (retiring ex)(w := True)\<rparr>)"
  | (wait_pred) "workers ex w = Lock \<or> workers ex w = Relock" "mutex_free ex w" "\<not> stop_flag ex"
      "ex' = set_worker w (Pred 0) ex"
  | (pred_hit) i f q where "workers ex w = Pred i" "i < thread_num ex" "\<not> stop_flag ex"
      "try_pop mq (task_queue ex ((w + i) mod thread_num ex)) = (Some f, q)"
      "ex' = set_worker w (Running f) (set_queue ((w + i) mod thread_num ex) q ex)"
  | (pred_stopped) i where "workers ex w = Pred i" "i < thread_num ex" "stop_flag ex"
  | (pred_miss) i q where "workers ex w = Pred i" "i < thread_num ex"
      "try_pop mq (task_queue ex ((w + i) mod thread_num ex)) = (None, q)"
      "ex' = set_worker w (Pred (i + 1)) (set_queue ((w + i) mod thread_num ex) q ex)"
  | (sleep) i where "workers ex w = Pred i" "thread_num ex \<le> i" "ex' = set_worker w Sleeping ex"
  using assms
  by (cases "workers ex w")
    (auto simp: WorkerMain_def TryPop_at_def enter_wait_def WakeUpNextWorker_def Let_def
      split: if_splits prod.splits option.splits)

lemma schedule_elim:
  assumes "schedule_step mq t ex = Some ex'"
  obtains
    (pushed) f index i j q where "calls ex t = Try f index i" "i < thread_num ex"
      "j = (index + i) mod thread_num ex" "mutex_free ex j"
      "try_push mq (task_queue ex j) f = (True, q)"
      "ex' = record_late t j f
         ((set_queue j q ex)\<lparr>calls := (calls ex)(t := Notify j), accepted := add_mset f (accepted ex)\<rparr>)"
  | (full) f index i j q where "calls ex t = Try f index i" "i < thread_num ex"
      "j = (index + i) mod thread_num ex" "mutex_free ex j"
      "try_push mq (task_queue ex j) f = (False, q)"
      "ex' = (set_queue j q ex)\<lparr>calls := (calls ex)(t := Try f index (i + 1))\<rparr>"
  | (failed) f index i where "calls ex t = Try f index i"
      "ex' = ex\<lparr>calls := (calls ex)(t := No_call)\<rparr>"
  | (notified) j where "calls ex t = Notify j"
      "ex' = notify_one j (ex\<lparr>calls := (calls ex)(t := No_call)\<rparr>)"
  using assms
  by (cases "calls ex t") (auto simp: schedule_step_def Let_def split: if_splits prod.splits)

lemma Stop_elim:
  assumes "Stop_step ex = Some ex'"
  obtains
    (locked) i where "stopping ex = Locking i" "i < thread_num ex" "\<not> in_pred ex i"
      "ex' = ex\<lparr>stopping := Locking (i + 1)\<rparr>"
  | (stops) i where "stopping ex = Locking i" "thread_num ex \<le> i"
      "ex' = ex\<lparr>stop_flag := True, stopping := Unlocking 0\<rparr>"
  | (unlocked) i where "stopping ex = Unlocking i" "i < thread_num ex"
      "ex' = notify_one i (ex\<lparr>stopping := Unlocking (i + 1)\<rparr>)"
  | (joins) i where "stopping ex = Unlocking i" "thread_num ex \<le> i"
      "ex' = ex\<lparr>stopping := Joining\<rparr>"
  using assms by (cases "stopping ex") (auto simp: Stop_step_def split: if_splits)

section \<open>Locks\<close>

text \<open>
  A worker that evaluates its predicate holds its mutex alone, and \<^verbatim>\<open>stop_\<close> is still false; its
  own queue is empty once it has looked at it.
\<close>

definition lock_inv :: "('q \<Rightarrow> 'f multiset) \<Rightarrow> ('q, 'f) executor \<Rightarrow> bool" where
  "lock_inv contents ex \<longleftrightarrow>
     0 < thread_num ex \<and>
     (\<forall>w<thread_num ex. in_pred ex w \<longrightarrow> \<not> stop_holds ex w \<and> \<not> stop_flag ex) \<and>
     (\<forall>w<thread_num ex. \<forall>i. workers ex w = Pred (Suc i) \<longrightarrow> contents (task_queue ex w) = {#}) \<and>
     (stop_flag ex = (case stopping ex of Unlocking _ \<Rightarrow> True | Joining \<Rightarrow> True | _ \<Rightarrow> False))"

lemma mpmc_popD:
  assumes "mpmc_queue mq contents"
  shows "try_pop mq q = (Some f, q') \<Longrightarrow> contents q = add_mset f (contents q')"
    "try_pop mq q = (None, q') \<Longrightarrow> contents q = {#}"
    "try_pop mq q = (None, q') \<Longrightarrow> contents q' = {#}"
  using spec[OF conjunct2[OF assms[unfolded mpmc_queue_def]], of q] by simp_all

lemma mpmc_pushD:
  assumes "mpmc_queue mq contents" "try_push mq q f = (ok, q')"
  shows "contents q' = (if ok then add_mset f (contents q) else contents q)"
  using spec[OF spec[OF conjunct1[OF assms(1)[unfolded mpmc_queue_def]], of q], of f] assms(2)
  by simp

lemma stop_holds_simps [simp]:
  "stop_holds (set_worker w s ex) = stop_holds ex" "stop_holds (set_queue j q ex) = stop_holds ex"
  "stop_holds (notify_one j ex) = stop_holds ex"
  "stop_holds (ex\<lparr>calls := c\<rparr>) = stop_holds ex" "stop_holds (ex\<lparr>accepted := a\<rparr>) = stop_holds ex"
  "stop_holds (ex\<lparr>executed := a\<rparr>) = stop_holds ex" "stop_holds (ex\<lparr>retiring := b\<rparr>) = stop_holds ex"
  "stop_holds (record_late t i f ex) = stop_holds ex"
  by (simp_all add: stop_holds_def fun_eq_iff)

lemma in_pred_fields [simp]:
  "in_pred (ex\<lparr>calls := c\<rparr>) = in_pred ex" "in_pred (ex\<lparr>accepted := a\<rparr>) = in_pred ex"
  "in_pred (ex\<lparr>executed := a\<rparr>) = in_pred ex" "in_pred (ex\<lparr>retiring := b\<rparr>) = in_pred ex"
  "in_pred (ex\<lparr>stopping := s\<rparr>) = in_pred ex" "in_pred (ex\<lparr>stop_flag := g\<rparr>) = in_pred ex"
  "in_pred (record_late t i f ex) = in_pred ex"
  by (simp_all add: in_pred_def fun_eq_iff)

lemma lock_inv_fields [simp]:
  "lock_inv contents (ex\<lparr>calls := c\<rparr>) = lock_inv contents ex"
  "lock_inv contents (ex\<lparr>accepted := a\<rparr>) = lock_inv contents ex"
  "lock_inv contents (ex\<lparr>executed := a\<rparr>) = lock_inv contents ex"
  "lock_inv contents (ex\<lparr>retiring := b\<rparr>) = lock_inv contents ex"
  by (simp_all add: lock_inv_def)

lemma lock_inv_queue:
  "lock_inv contents ex \<Longrightarrow> contents q \<subseteq># contents (task_queue ex j) \<Longrightarrow>
     lock_inv contents (set_queue j q ex)"
  by (auto simp: lock_inv_def)

lemma lock_inv_notify: "lock_inv contents ex \<Longrightarrow> lock_inv contents (notify_one j ex)"
  by (auto simp: lock_inv_def)

lemma lock_inv_set_worker:
  assumes "lock_inv contents ex" "\<And>i. s = Pred i \<Longrightarrow> mutex_free ex w \<and> \<not> stop_flag ex \<and> i = 0"
  shows "lock_inv contents (set_worker w s ex)"
  using assms by (auto simp: lock_inv_def mutex_free_def split: worker.splits)

lemma mpmc_pop_subset: "mpmc_queue mq contents \<Longrightarrow> try_pop mq q = (r, q') \<Longrightarrow> contents q' \<subseteq># contents q"
  using mpmc_popD[of mq contents q] by (cases r) auto

lemma lock_inv_worker:
  assumes mq: "mpmc_queue mq contents" and inv: "lock_inv contents ex" and w: "w < thread_num ex"
    and s: "WorkerMain mq w ex = Some ex'"
  shows "lock_inv contents ex'"
  using s
proof (cases rule: WorkerMain_elim)
  case (pred_stopped i)
  then show ?thesis using inv w by (auto simp: lock_inv_def in_pred_iff)
next
  case (pred_miss i q)
  then show ?thesis
    using inv w mpmc_popD(3)[OF mq pred_miss(3)]
    by (cases i) (auto simp: lock_inv_def in_pred_iff)
qed (use inv in \<open>auto intro!: lock_inv_set_worker lock_inv_queue lock_inv_notify
    intro: mpmc_pop_subset[OF mq]\<close>)

lemma lock_inv_schedule:
  assumes mq: "mpmc_queue mq contents" and inv: "lock_inv contents ex"
    and s: "schedule_step mq t ex = Some ex'"
  shows "lock_inv contents ex'"
  using s
proof (cases rule: schedule_elim)
  case (pushed f index i j q)
  then show ?thesis
    using inv by (auto simp: lock_inv_def mutex_free_def in_pred_iff)
next
  case (full f index i j q)
  then show ?thesis
    using inv mpmc_pushD[OF mq full(5)] by (auto simp: lock_inv_def)
qed (use inv in \<open>auto simp: lock_inv_def\<close>)

lemma lock_inv_stop:
  assumes inv: "lock_inv contents ex" and s: "Stop_step ex = Some ex'"
  shows "lock_inv contents ex'"
  using s
proof (cases rule: Stop_elim)
  case (locked i)
  then show ?thesis using inv by (auto simp: lock_inv_def stop_holds_def less_Suc_eq)
next
  case (stops i)
  then show ?thesis using inv by (auto simp: lock_inv_def stop_holds_def)
qed (use inv in \<open>auto simp: lock_inv_def stop_holds_def\<close>)

lemma lock_inv_step:
  assumes "mpmc_queue mq contents"
  shows "ex_step mq ex ex' \<Longrightarrow> lock_inv contents ex \<Longrightarrow> lock_inv contents ex'"
proof (induction rule: ex_step.induct)
  case (worker w ex ex')
  then show ?case using lock_inv_worker[OF assms] by blast
next
  case (schedule t ex ex')
  then show ?case using lock_inv_schedule[OF assms] by blast
next
  case (stop ex ex')
  then show ?case using lock_inv_stop by blast
next
  case (stop_call ex)
  then show ?case by (simp add: lock_inv_def stop_holds_def)
qed (auto simp: schedule_begin_def intro: lock_inv_set_worker)

section \<open>Calls, sleepers and retirement\<close>

text \<open>A worker is in a call of \<^verbatim>\<open>schedule\<close> only while it runs a task.\<close>

definition call_inv :: "('q, 'f) executor \<Rightarrow> bool" where
  "call_inv ex \<longleftrightarrow>
     (\<forall>t<thread_num ex. calls ex t \<noteq> No_call \<longrightarrow> (\<exists>f. workers ex t = Running f))"

text \<open>No worker sleeps on a task of its own queue, unless a notification is on its way.\<close>

definition sleep_inv :: "('q \<Rightarrow> 'f multiset) \<Rightarrow> ('q, 'f) executor \<Rightarrow> bool" where
  "sleep_inv contents ex \<longleftrightarrow>
     (\<forall>j<thread_num ex. workers ex j = Sleeping \<longrightarrow>
        contents (task_queue ex j) = {#} \<or> (\<exists>t. calls ex t = Notify j))"

text \<open>\<^verbatim>\<open>Stop\<close> leaves no worker asleep, and workers retire only when \<^verbatim>\<open>stop_\<close> is set.\<close>

definition wake_inv :: "('q, 'f) executor \<Rightarrow> bool" where
  "wake_inv ex \<longleftrightarrow>
     (\<forall>w<thread_num ex.
        (workers ex w = Sleeping \<longrightarrow>
           (case stopping ex of Unlocking k \<Rightarrow> k \<le> w | Joining \<Rightarrow> False | _ \<Rightarrow> True)) \<and>
        (retiring ex w \<longrightarrow> stop_flag ex) \<and>
        (workers ex w = Returned \<longrightarrow> retiring ex w))"

lemma call_invD:
  "call_inv ex \<Longrightarrow> calls ex t \<noteq> No_call \<Longrightarrow> t < thread_num ex \<Longrightarrow> \<exists>f. workers ex t = Running f"
  by (simp add: call_inv_def)

lemma call_inv_worker:
  assumes inv: "call_inv ex" and s: "WorkerMain mq w ex = Some ex'" and w: "w < thread_num ex"
  shows "call_inv ex'"
proof -
  have other: "calls ex w = No_call" if "\<And>f. workers ex w \<noteq> Running f"
    using inv that w by (auto simp: call_inv_def)
  show ?thesis
    using s
  proof (cases rule: WorkerMain_elim)
    case (pred_stopped i)
    then show ?thesis
      using s inv other
      by (auto simp: call_inv_def WorkerMain_def TryPop_at_def Let_def split: prod.splits option.splits)
  qed (use inv other in \<open>auto simp: call_inv_def\<close>)
qed

lemma call_inv_step: "ex_step mq ex ex' \<Longrightarrow> call_inv ex \<Longrightarrow> call_inv ex'"
proof (induction rule: ex_step.induct)
  case (worker w ex ex')
  then show ?case using call_inv_worker by blast
next
  case (schedule t ex ex')
  then show ?case
    by (cases rule: schedule_elim[OF schedule.hyps]) (fastforce simp: call_inv_def split: if_splits)+
next
  case (stop ex ex')
  then show ?case
    by (cases rule: Stop_elim[OF stop.hyps]) (auto simp: call_inv_def)
next
  case (stop_call ex)
  then show ?case by (auto simp: call_inv_def not_less)
qed (auto simp: call_inv_def schedule_begin_def may_call_def)

lemma sleep_invI:
  "(\<And>j. j < thread_num ex \<Longrightarrow> workers ex j = Sleeping \<Longrightarrow> contents (task_queue ex j) \<noteq> {#} \<Longrightarrow>
     \<exists>t. calls ex t = Notify j) \<Longrightarrow> sleep_inv contents ex"
  by (auto simp: sleep_inv_def)

lemma sleep_inv_queue:
  "sleep_inv contents ex \<Longrightarrow> contents q \<subseteq># contents (task_queue ex j) \<Longrightarrow>
     sleep_inv contents (set_queue j q ex)"
  by (auto simp: sleep_inv_def)

lemma sleep_inv_set_worker:
  "sleep_inv contents ex \<Longrightarrow> s \<noteq> Sleeping \<Longrightarrow> sleep_inv contents (set_worker w s ex)"
  by (simp add: sleep_inv_def)

lemma sleep_inv_notify: "sleep_inv contents ex \<Longrightarrow> sleep_inv contents (notify_one j ex)"
  by (simp add: sleep_inv_def)

lemma sleep_inv_fields [simp]:
  "sleep_inv contents (ex\<lparr>executed := a\<rparr>) = sleep_inv contents ex"
  "sleep_inv contents (ex\<lparr>retiring := b\<rparr>) = sleep_inv contents ex"
  by (simp_all add: sleep_inv_def)

lemma sleep_inv_worker:
  assumes mq: "mpmc_queue mq contents" and lock: "lock_inv contents ex" and inv: "sleep_inv contents ex"
    and w: "w < thread_num ex" and s: "WorkerMain mq w ex = Some ex'"
  shows "sleep_inv contents ex'"
  using s
proof (cases rule: WorkerMain_elim)
  case (sleep i)
  then obtain k where "i = Suc k" using lock by (cases i) (auto simp: lock_inv_def)
  then have "contents (task_queue ex w) = {#}" using sleep(1) lock w by (simp add: lock_inv_def)
  then show ?thesis using inv sleep(3) by (simp add: sleep_inv_def)
next
  case (pred_stopped i)
  then show ?thesis using lock w by (auto simp: lock_inv_def in_pred_iff)
qed (use inv in \<open>auto intro!: sleep_inv_set_worker sleep_inv_queue sleep_inv_notify
    intro: mpmc_pop_subset[OF mq]\<close>)

lemma sleep_inv_step:
  assumes "mpmc_queue mq contents"
  shows "ex_step mq ex ex' \<Longrightarrow> lock_inv contents ex \<Longrightarrow> sleep_inv contents ex \<Longrightarrow> sleep_inv contents ex'"
proof (induction rule: ex_step.induct)
  case (worker w ex ex')
  then show ?case using sleep_inv_worker[OF assms] by blast
next
  case (schedule t ex ex')
  have other: "contents (task_queue ex j) = {#} \<or> (\<exists>u. u \<noteq> t \<and> calls ex u = Notify j)"
    if "workers ex j = Sleeping" "j < thread_num ex" "calls ex t \<noteq> Notify j" for j
    using schedule.prems(2) that by (metis sleep_inv_def)
  show ?case
  proof (rule sleep_invI)
    fix k
    assume k: "k < thread_num ex'" "workers ex' k = Sleeping" "contents (task_queue ex' k) \<noteq> {#}"
    from schedule.hyps show "\<exists>u. calls ex' u = Notify k"
    proof (cases rule: schedule_elim)
      case (pushed f index i j q)
      then show ?thesis using other[of k] k by (cases "k = j") (auto split: if_splits)
    next
      case (full f index i j q)
      then have "contents (task_queue ex' k) = contents (task_queue ex k)"
        using mpmc_pushD[OF assms full(5)] by simp
      then show ?thesis using other[of k] k full by auto
    qed (use other[of k] k in \<open>auto split: if_splits\<close>)
  qed
next
  case (stop ex ex')
  then show ?case
    by (cases rule: Stop_elim[OF stop.hyps]) (auto simp: sleep_inv_def)
next
  case (call ex t r f rn)
  then have "calls ex t = No_call" by (simp add: may_call_def)
  then have keep: "calls (schedule_begin t f rn r ex) u = Notify k" if "calls ex u = Notify k" for u k
    using that by (auto simp: schedule_begin_def)
  show ?case
  proof (rule sleep_invI)
    fix j
    assume "j < thread_num (schedule_begin t f rn r ex)"
      "workers (schedule_begin t f rn r ex) j = Sleeping"
      "contents (task_queue (schedule_begin t f rn r ex) j) \<noteq> {#}"
    then have "\<exists>u. calls ex u = Notify j"
      using call.prems(2) by (auto simp: sleep_inv_def schedule_begin_def)
    then show "\<exists>u. calls (schedule_begin t f rn r ex) u = Notify j" using keep by blast
  qed
qed (auto simp: sleep_inv_def)

lemma wake_inv_worker:
  assumes lock: "lock_inv contents ex" and inv: "wake_inv ex"
    and w: "w < thread_num ex" and s: "WorkerMain mq w ex = Some ex'"
  shows "wake_inv ex'"
  using s
proof (cases rule: WorkerMain_elim)
  case (sleep i)
  then have "\<not> stop_flag ex" using lock w by (auto simp: lock_inv_def in_pred_iff)
  then have "case stopping ex of Unlocking k \<Rightarrow> k \<le> w | Joining \<Rightarrow> False | _ \<Rightarrow> True"
    using lock by (auto simp: lock_inv_def split: stopper.splits)
  then show ?thesis using inv sleep by (auto simp: wake_inv_def)
next
  case (pred_stopped i)
  then show ?thesis using lock w by (auto simp: lock_inv_def in_pred_iff)
qed (use inv w in \<open>auto simp: wake_inv_def\<close>)

lemma wake_inv_step:
  "ex_step mq ex ex' \<Longrightarrow> lock_inv contents ex \<Longrightarrow> wake_inv ex \<Longrightarrow> wake_inv ex'"
proof (induction rule: ex_step.induct)
  case (worker w ex ex')
  then show ?case using wake_inv_worker by blast
next
  case (schedule t ex ex')
  then show ?case
    by (cases rule: schedule_elim[OF schedule.hyps]) (auto simp: wake_inv_def)
next
  case (stop ex ex')
  from stop.hyps show ?case
  proof (cases rule: Stop_elim)
    case (unlocked i)
    then have "Suc i \<le> w" if "workers ex w = Sleeping" "w < thread_num ex" "w \<noteq> i" for w
      using stop.prems(2) that by (fastforce simp: wake_inv_def)
    then show ?thesis using stop.prems(2) unlocked by (auto simp: wake_inv_def)
  next
    case (stops i)
    then show ?thesis using stop.prems(2) by (auto simp: wake_inv_def)
  next
    case (joins i)
    then have "workers ex w \<noteq> Sleeping" if "w < thread_num ex" for w
      using stop.prems(2) that by (fastforce simp: wake_inv_def)
    then show ?thesis using stop.prems(2) joins by (auto simp: wake_inv_def)
  next
    case (locked i)
    then show ?thesis using stop.prems(2) by (auto simp: wake_inv_def)
  qed
qed (auto simp: wake_inv_def schedule_begin_def)

section \<open>No task is lost\<close>

text \<open>The task a worker has taken from a queue and not yet finished.\<close>

definition in_hand :: "'f worker \<Rightarrow> 'f multiset" where
  "in_hand s = (case s of Wake f \<Rightarrow> {#f#} | Running f \<Rightarrow> {#f#} | _ \<Rightarrow> {#})"

definition hands :: "('q, 'f) executor \<Rightarrow> 'f multiset" where
  "hands ex = (\<Sum>w<thread_num ex. in_hand (workers ex w))"

definition queued :: "('q \<Rightarrow> 'f multiset) \<Rightarrow> ('q, 'f) executor \<Rightarrow> 'f multiset" where
  "queued contents ex = (\<Sum>j<thread_num ex. contents (task_queue ex j))"

definition task_inv :: "('q \<Rightarrow> 'f multiset) \<Rightarrow> ('q, 'f) executor \<Rightarrow> bool" where
  "task_inv contents ex \<longleftrightarrow> accepted ex = executed ex + hands ex + queued contents ex"

lemma sum_update:
  fixes h :: "'a \<Rightarrow> 'b::comm_monoid_add" and w n :: nat
  assumes "w < n"
  shows "(\<Sum>x<n. h ((f(w := v)) x)) + h (f w) = (\<Sum>x<n. h (f x)) + h v"
proof -
  have "(\<Sum>x<n. h ((f(w := v)) x)) = h v + (\<Sum>x\<in>{..<n} - {w}. h ((f(w := v)) x))"
    using sum.remove[of "{..<n}" w "\<lambda>x. h ((f(w := v)) x)"] assms by simp
  also have "(\<Sum>x\<in>{..<n} - {w}. h ((f(w := v)) x)) = (\<Sum>x\<in>{..<n} - {w}. h (f x))"
    by (intro sum.cong) auto
  finally have "(\<Sum>x<n. h ((f(w := v)) x)) = h v + (\<Sum>x\<in>{..<n} - {w}. h (f x))" .
  moreover have "(\<Sum>x<n. h (f x)) = h (f w) + (\<Sum>x\<in>{..<n} - {w}. h (f x))"
    using sum.remove[of "{..<n}" w "\<lambda>x. h (f x)"] assms by simp
  ultimately show ?thesis by (simp only: ac_simps)
qed

lemma hands_set_worker:
  "w < thread_num ex \<Longrightarrow>
     hands (set_worker w s ex) + in_hand (workers ex w) = hands ex + in_hand s"
  unfolding hands_def using sum_update[of w "thread_num ex" in_hand "workers ex" s] by simp

lemma queued_set_queue:
  "j < thread_num ex \<Longrightarrow>
     queued contents (set_queue j q ex) + contents (task_queue ex j) = queued contents ex + contents q"
  unfolding queued_def using sum_update[of j "thread_num ex" contents "task_queue ex" q] by simp

lemma hands_simps [simp]:
  "hands (set_queue j q ex) = hands ex" "hands (ex\<lparr>executed := a\<rparr>) = hands ex"
  "hands (ex\<lparr>retiring := b\<rparr>) = hands ex" "hands (ex\<lparr>calls := c\<rparr>) = hands ex"
  "hands (ex\<lparr>accepted := a\<rparr>) = hands ex" "hands (ex\<lparr>stopping := s\<rparr>) = hands ex"
  "hands (ex\<lparr>stop_flag := g\<rparr>) = hands ex" "hands (record_late t i f ex) = hands ex"
  by (simp_all add: hands_def)

lemma hands_notify [simp]: "hands (notify_one j ex) = hands ex"
  unfolding hands_def by (intro sum.cong) (auto simp: in_hand_def)

lemma queued_simps [simp]:
  "queued contents (set_worker w s ex) = queued contents ex"
  "queued contents (notify_one j ex) = queued contents ex"
  "queued contents (ex\<lparr>executed := a\<rparr>) = queued contents ex"
  "queued contents (ex\<lparr>retiring := b\<rparr>) = queued contents ex"
  "queued contents (ex\<lparr>calls := c\<rparr>) = queued contents ex"
  "queued contents (ex\<lparr>accepted := a\<rparr>) = queued contents ex"
  "queued contents (ex\<lparr>stopping := p\<rparr>) = queued contents ex"
  "queued contents (ex\<lparr>stop_flag := g\<rparr>) = queued contents ex"
  "queued contents (record_late t i f ex) = queued contents ex"
  by (simp_all add: queued_def)

text \<open>What a worker takes leaves the queue, and what it finishes has been in its hands.\<close>

lemma queued_pop:
  assumes "mpmc_queue mq contents" "j < thread_num ex" "try_pop mq (task_queue ex j) = (r, q)"
  shows "queued contents ex =
    queued contents (set_queue j q ex) + (case r of None \<Rightarrow> {#} | Some f \<Rightarrow> {#f#})"
proof (cases r)
  case None
  then show ?thesis
    using queued_set_queue[OF assms(2), of contents q] mpmc_popD(2,3)[OF assms(1)] assms(3) by simp
next
  case (Some f)
  then have "contents (task_queue ex j) = add_mset f (contents q)"
    using mpmc_popD(1)[OF assms(1)] assms(3) by simp
  then show ?thesis
    using queued_set_queue[OF assms(2), of contents q] Some by simp
qed

lemma task_inv_worker:
  assumes mq: "mpmc_queue mq contents" and lock: "lock_inv contents ex" and inv: "task_inv contents ex"
    and w: "w < thread_num ex" and s: "WorkerMain mq w ex = Some ex'"
  shows "task_inv contents ex'"
proof -
  have n: "(w + i) mod thread_num ex < thread_num ex" for i
    using lock by (simp add: lock_inv_def)
  note pop = queued_pop[OF mq n]
  note hand = hands_set_worker[OF w]
  show ?thesis
    using s
  proof (cases rule: WorkerMain_elim)
    case (scan_hit i f q)
    then show ?thesis
      using inv pop[OF scan_hit(3)] hands_set_worker[of w "set_queue ((w + i) mod thread_num ex) q ex"] w
      by (simp add: task_inv_def in_hand_def)
  next
    case (scan_miss i q)
    then show ?thesis
      using inv pop[OF scan_miss(3)] hands_set_worker[of w "set_queue ((w + i) mod thread_num ex) q ex"] w
      by (simp add: task_inv_def in_hand_def)
  next
    case (wake f)
    then show ?thesis
      using inv hands_set_worker[of w "notify_one ((w + 1) mod thread_num ex) ex" "Running f"] w
      by (simp add: task_inv_def in_hand_def)
  next
    case (ended f)
    then show ?thesis
      using inv hands_set_worker[of w "ex\<lparr>executed := add_mset f (executed ex)\<rparr>" "Scan 0"] w
      by (simp add: task_inv_def in_hand_def)
  next
    case wait_stop
    then show ?thesis
      using inv hands_set_worker[of w "ex\<lparr>retiring := (retiring ex)(w := True)\<rparr>" "Scan 0"] w
      by (auto simp: task_inv_def in_hand_def)
  next
    case (pred_hit i f q)
    then show ?thesis
      using inv pop[OF pred_hit(4)] hands_set_worker[of w "set_queue ((w + i) mod thread_num ex) q ex"] w
      by (simp add: task_inv_def in_hand_def)
  next
    case (pred_stopped i)
    then show ?thesis using lock w by (auto simp: lock_inv_def in_pred_iff)
  next
    case (pred_miss i q)
    then show ?thesis
      using inv pop[OF pred_miss(3)] hands_set_worker[of w "set_queue ((w + i) mod thread_num ex) q ex"] w
      by (simp add: task_inv_def in_hand_def)
  qed (use inv hand in \<open>auto simp: task_inv_def in_hand_def\<close>)
qed

lemma task_inv_step:
  assumes "mpmc_queue mq contents"
  shows "ex_step mq ex ex' \<Longrightarrow> lock_inv contents ex \<Longrightarrow> task_inv contents ex \<Longrightarrow> task_inv contents ex'"
proof (induction rule: ex_step.induct)
  case (worker w ex ex')
  then show ?case using task_inv_worker[OF assms] by blast
next
  case (spurious w ex)
  then show ?case
    using hands_set_worker[OF spurious.hyps(1), of Relock] by (simp add: task_inv_def in_hand_def)
next
  case (schedule t ex ex')
  have n: "(k :: nat) mod thread_num ex < thread_num ex" for k
    using schedule.prems by (simp add: lock_inv_def)
  from schedule.hyps show ?case
  proof (cases rule: schedule_elim)
    case (pushed f index i j q)
    then show ?thesis
      using schedule.prems queued_set_queue[of j ex contents q] n mpmc_pushD[OF assms pushed(5)]
      by (simp add: task_inv_def)
  next
    case (full f index i j q)
    then show ?thesis
      using schedule.prems queued_set_queue[of j ex contents q] n mpmc_pushD[OF assms full(5)]
      by (simp add: task_inv_def)
  qed (use schedule.prems in \<open>auto simp: task_inv_def\<close>)
next
  case (stop ex ex')
  then show ?case
    by (cases rule: Stop_elim[OF stop.hyps]) (auto simp: task_inv_def)
qed (auto simp: task_inv_def schedule_begin_def)

section \<open>Stopping drains the queues\<close>

text \<open>
  A worker covers a queue when it has not returned and, if it is about to return, its last scan
  has not passed the queue yet.
\<close>

definition covers :: "('q, 'f) executor \<Rightarrow> nat \<Rightarrow> nat \<Rightarrow> bool" where
  "covers ex w j \<longleftrightarrow>
     workers ex w \<noteq> Returned \<and>
     (\<forall>i. workers ex w = Scan i \<and> retiring ex w \<longrightarrow>
        (\<exists>k. i \<le> k \<and> k < thread_num ex \<and> (w + k) mod thread_num ex = j))"

definition cover_inv :: "('q \<Rightarrow> 'f multiset) \<Rightarrow> ('q, 'f) executor \<Rightarrow> bool" where
  "cover_inv contents ex \<longleftrightarrow>
     (\<forall>j<thread_num ex. contents (task_queue ex j) \<subseteq># late ex j \<or> (\<exists>w<thread_num ex. covers ex w j))"

lemma scan_offset:
  fixes n :: nat
  assumes "w < n" "j < n"
  shows "\<exists>k<n. (w + k) mod n = j"
proof (cases "w \<le> j")
  case True
  then show ?thesis using assms by (intro exI[of _ "j - w"]) auto
next
  case False
  then have "(w + (n + j - w)) mod n = j" "n + j - w < n" using assms by auto
  then show ?thesis by blast
qed

lemma covers_other:
  "v \<noteq> w \<Longrightarrow> covers (set_worker w s ex) v j = covers ex v j"
  "covers (set_queue i q ex) = covers ex" "covers (ex\<lparr>executed := a\<rparr>) = covers ex"
  "covers (ex\<lparr>calls := c\<rparr>) = covers ex" "covers (ex\<lparr>accepted := a\<rparr>) = covers ex"
  "covers (ex\<lparr>stopping := p\<rparr>) = covers ex" "covers (ex\<lparr>stop_flag := g\<rparr>) = covers ex"
  "covers (record_late t i f ex) = covers ex"
  by (simp_all add: covers_def fun_eq_iff)

lemma covers_notify: "covers ex v j \<Longrightarrow> covers (notify_one i ex) v j"
  by (auto simp: covers_def)

lemma covers_retiring: "v \<noteq> w \<Longrightarrow> covers (ex\<lparr>retiring := (retiring ex)(w := b)\<rparr>) v j = covers ex v j"
  by (simp add: covers_def)

lemma covers_self:
  "w < thread_num ex \<Longrightarrow> j < thread_num ex \<Longrightarrow> s \<noteq> Returned \<Longrightarrow>
     (\<And>i. s = Scan i \<Longrightarrow> i = 0) \<Longrightarrow> covers (set_worker w s ex) w j"
  using scan_offset[of w "thread_num ex" j] by (auto simp: covers_def)

text \<open>A step of a worker keeps every non-empty queue covered.\<close>

lemma covers_worker:
  assumes mq: "mpmc_queue mq contents" and lock: "lock_inv contents ex"
    and w: "w < thread_num ex" and s: "WorkerMain mq w ex = Some ex'"
    and j: "j < thread_num ex" "contents (task_queue ex' j) \<noteq> {#}" and c: "covers ex w j"
  shows "covers ex' w j"
  using s
proof (cases rule: WorkerMain_elim)
  case (scan_miss i q)
  have "(w + i) mod thread_num ex \<noteq> j"
    using j(2) scan_miss mpmc_popD(3)[OF mq scan_miss(3)] by auto
  then have "Suc i \<le> k" if "i \<le> k" "(w + k) mod thread_num ex = j" for k
    using that by (metis Suc_leI le_neq_implies_less)
  then show ?thesis using c scan_miss by (fastforce simp: covers_def)
next
  case (scan_end i)
  then show ?thesis using c by (auto simp: covers_def)
next
  case (pred_stopped i)
  then show ?thesis using lock w by (auto simp: lock_inv_def in_pred_iff)
qed (use w j(1) in \<open>auto intro: covers_self\<close>)

lemma covers_worker_other:
  assumes lock: "lock_inv contents ex" and w: "w < thread_num ex" and s: "WorkerMain mq w ex = Some ex'"
    and v: "v \<noteq> w" "covers ex v j"
  shows "covers ex' v j"
  using s
proof (cases rule: WorkerMain_elim)
  case (pred_stopped i)
  then show ?thesis using lock w by (auto simp: lock_inv_def in_pred_iff)
qed (use v in \<open>simp_all add: covers_other covers_retiring covers_notify\<close>)

lemma worker_contents:
  assumes mq: "mpmc_queue mq contents" and lock: "lock_inv contents ex" and w: "w < thread_num ex"
    and s: "WorkerMain mq w ex = Some ex'"
  shows "thread_num ex' = thread_num ex" "contents (task_queue ex' j) \<subseteq># contents (task_queue ex j)" "late ex' = late ex"
  using s
  by (cases rule: WorkerMain_elim;
      use lock w mpmc_pop_subset[OF mq] in \<open>auto simp: lock_inv_def in_pred_iff\<close>)+

lemma cover_inv_worker:
  assumes mq: "mpmc_queue mq contents" and lock: "lock_inv contents ex" and inv: "cover_inv contents ex"
    and w: "w < thread_num ex" and s: "WorkerMain mq w ex = Some ex'"
  shows "cover_inv contents ex'"
  unfolding cover_inv_def worker_contents(1,3)[OF mq lock w s]
proof (intro allI impI)
  fix j assume j: "j < thread_num ex"
  note less = worker_contents(2)[OF mq lock w s, of j]
  show "contents (task_queue ex' j) \<subseteq># late ex j \<or> (\<exists>w<thread_num ex. covers ex' w j)"
  proof (cases "contents (task_queue ex j) \<subseteq># late ex j \<or> contents (task_queue ex' j) = {#}")
    case True
    then show ?thesis using less subset_mset.order_trans by auto
  next
    case False
    then obtain v where v: "v < thread_num ex" "covers ex v j" using inv j by (auto simp: cover_inv_def)
    then have "covers ex' v j"
      using covers_worker[OF mq lock w s j] covers_worker_other[OF lock w s] False by (cases "v = w") auto
    then show ?thesis using v(1) by blast
  qed
qed

text \<open>A task pushed by a worker, or before \<^verbatim>\<open>stop_\<close> is set, finds a worker that will look at the queue; any other is late.\<close>

lemma cover_inv_schedule:
  assumes mq: "mpmc_queue mq contents" and lock: "lock_inv contents ex" and calls: "call_inv ex" and wake: "wake_inv ex"
    and inv: "cover_inv contents ex" and s: "schedule_step mq t ex = Some ex'"
  shows "cover_inv contents ex'"
proof -
  have someone: "\<exists>v<thread_num ex. covers ex v j" if "calls ex t \<noteq> No_call" "t < thread_num ex \<or> \<not> stop_flag ex" for j
  proof (cases "t < thread_num ex")
    case True
    then obtain f where "workers ex t = Running f" using call_invD[OF calls \<open>calls ex t \<noteq> No_call\<close>] by auto
    then show ?thesis using True by (auto simp: covers_def)
  next
    case False
    then have "covers ex 0 j" "0 < thread_num ex"
      using that lock wake by (auto simp: covers_def wake_inv_def lock_inv_def)
    then show ?thesis by blast
  qed
  from s show ?thesis
  proof (cases rule: schedule_elim)
    case (pushed f index i j q)
    have "contents q = add_mset f (contents (task_queue ex j))" using mpmc_pushD[OF mq pushed(5)] by simp
    moreover have "\<exists>v<thread_num ex. covers ex v k" if "\<not> (stop_flag ex \<and> thread_num ex \<le> t)" for k
      using someone[of k] pushed(1) that by auto
    ultimately show ?thesis
      using inv pushed by (cases "stop_flag ex \<and> thread_num ex \<le> t") (auto simp: cover_inv_def covers_other)
  next
    case (full f index i j q)
    then show ?thesis using inv mpmc_pushD[OF mq full(5)] by (auto simp: cover_inv_def covers_other)
  next
    case (failed f index i)
    then show ?thesis using inv by (simp add: cover_inv_def covers_other)
  next
    case (notified j)
    then have "covers ex' v k" if "covers ex v k" for v k
      using that by (simp add: covers_notify covers_other)
    moreover have "thread_num ex' = thread_num ex" "task_queue ex' = task_queue ex" "late ex' = late ex"
      using notified by simp_all
    ultimately show ?thesis using inv unfolding cover_inv_def by metis
  qed
qed

lemma cover_inv_step:
  assumes mq: "mpmc_queue mq contents"
  shows "ex_step mq ex ex' \<Longrightarrow> lock_inv contents ex \<Longrightarrow> call_inv ex \<Longrightarrow> wake_inv ex \<Longrightarrow>
    cover_inv contents ex \<Longrightarrow> cover_inv contents ex'"
proof (induction rule: ex_step.induct)
  case (worker w ex ex')
  then show ?case using cover_inv_worker[OF mq] by blast
next
  case (spurious w ex)
  have "covers (set_worker w Relock ex) v j" if "covers ex v j" for v j
    using that by (auto simp: covers_def)
  then show ?case using spurious.prems(4) unfolding cover_inv_def set_worker_simps by blast
next
  case (schedule t ex ex')
  then show ?case using cover_inv_schedule[OF mq] by blast
next
  case (stop ex ex')
  have "thread_num ex' = thread_num ex" "task_queue ex' = task_queue ex" "late ex' = late ex"
    and "\<And>v j. covers ex v j \<Longrightarrow> covers ex' v j"
    using stop.hyps by (cases rule: Stop_elim; auto simp: covers_other covers_notify)+
  then show ?case using stop.prems(4) unfolding cover_inv_def by metis
qed (simp_all add: cover_inv_def covers_other schedule_begin_def)

section \<open>The invariant of the executor\<close>

definition ex_inv :: "('q \<Rightarrow> 'f multiset) \<Rightarrow> ('q, 'f) executor \<Rightarrow> bool" where
  "ex_inv contents ex \<longleftrightarrow>
     lock_inv contents ex \<and> call_inv ex \<and> sleep_inv contents ex \<and> wake_inv ex \<and>
     task_inv contents ex \<and> cover_inv contents ex"

lemma ex_inv_init:
  assumes "TunnelExecutor n q = Some ex" "contents q = {#}"
  shows "ex_inv contents ex"
proof -
  have "0 < n" "ex = \<lparr>stop_flag = False, thread_num = n, task_queue = (\<lambda>_. q),
        workers = (\<lambda>_. Scan 0), retiring = (\<lambda>_. False), calls = (\<lambda>_. No_call),
        stopping = Not_stopping, accepted = {#}, executed = {#}, late = (\<lambda>_. {#})\<rparr>"
    using assms(1) by (auto simp: TunnelExecutor_def split: if_splits)
  then show ?thesis
    using assms(2)
    by (simp add: ex_inv_def lock_inv_def call_inv_def sleep_inv_def wake_inv_def task_inv_def
        cover_inv_def hands_def queued_def in_hand_def in_pred_def)
qed

lemma ex_inv_reach:
  assumes "mpmc_queue mq contents"
  shows "ex_reach mq ex ex' \<Longrightarrow> ex_inv contents ex \<Longrightarrow> ex_inv contents ex'"
proof (induction rule: ex_reach.induct)
  case (step ex ex' ex'')
  then show ?case
    using lock_inv_step[OF assms] call_inv_step sleep_inv_step[OF assms] wake_inv_step
      task_inv_step[OF assms] cover_inv_step[OF assms]
    unfolding ex_inv_def by metis
qed

lemma ex_inv_reachable:
  assumes "mpmc_queue mq contents" "TunnelExecutor n q = Some ex0" "contents q = {#}"
    "ex_reach mq ex0 ex"
  shows "ex_inv contents ex"
  by (rule ex_inv_reach[OF assms(1,4)], rule ex_inv_init[OF assms(2)], rule assms(3))

section \<open>Properties\<close>

text \<open>A bounded list as a queue, and a run of one worker that executes one task and is stopped:
  the hypotheses of the theorems hold for it.\<close>

definition list_mpmc :: "('f list, 'f) mpmc" where
  "list_mpmc =
     \<lparr>try_push = (\<lambda>q f. if length q < 102400 then (True, q @ [f]) else (False, q)),
      try_pop = (\<lambda>q. case q of [] \<Rightarrow> (None, []) | f # q \<Rightarrow> (Some f, q))\<rparr>"

lemma list_mpmc_queue: "mpmc_queue list_mpmc mset"
  by (simp add: mpmc_queue_def list_mpmc_def split: list.split)

definition demo_state ::
  "nat worker \<Rightarrow> nat list \<Rightarrow> nat call \<Rightarrow> bool \<Rightarrow> bool \<Rightarrow> stopper \<Rightarrow> nat multiset \<Rightarrow> nat multiset \<Rightarrow>
   (nat list, nat) executor" where
  "demo_state w q c r g p acc exe =
     \<lparr>stop_flag = g, thread_num = 1, task_queue = (\<lambda>_. [])(0 := q),
      workers = (\<lambda>_. Scan 0)(0 := w), retiring = (\<lambda>_. False)(0 := r), calls = (\<lambda>_. No_call)(1 := c),
      stopping = p, accepted = acc, executed = exe, late = (\<lambda>_. {#})\<rparr>"

lemmas demo_step_simps = demo_state_def WorkerMain_def TryPop_at_def enter_wait_def mutex_free_def
  in_pred_def stop_holds_def WakeUpNextWorker_def notify_one_def set_worker_def set_queue_def
  schedule_begin_def schedule_step_def worker_index_def Stop_step_def may_call_def record_late_def Let_def list_mpmc_def fun_eq_iff

lemma demo_init:
  "TunnelExecutor 1 [] = Some (demo_state (Scan 0) [] No_call False False Not_stopping {#} {#})"
  by (simp add: TunnelExecutor_def demo_state_def fun_eq_iff)

lemma demo_worker:
  assumes "WorkerMain list_mpmc 0 (demo_state w q c r g p a e) = Some (demo_state w' q' c' r' g' p' a' e')"
  shows "ex_step list_mpmc (demo_state w q c r g p a e) (demo_state w' q' c' r' g' p' a' e')"
  by (rule ex_step.worker[of 0]) (use assms in \<open>simp_all add: demo_state_def\<close>)

text \<open>A task arrives from outside while the worker is between two scans.\<close>

lemma demo_scheduled:
  "ex_reach list_mpmc (demo_state (Scan 0) [] No_call False False Not_stopping {#} {#})
     (demo_state (Scan 0) [7] No_call False False Not_stopping {#7#} {#})"
proof -
  let ?a = "demo_state (Scan 0) [] No_call False False Not_stopping {#} {#}"
  let ?b = "demo_state (Scan 0) [] (Try 7 0 0) False False Not_stopping {#} {#}"
  let ?c = "demo_state (Scan 0) [7] (Notify 0) False False Not_stopping {#7#} {#}"
  let ?d = "demo_state (Scan 0) [7] No_call False False Not_stopping {#7#} {#}"
  have "?b = schedule_begin 1 7 0 0 ?a" by (simp add: demo_step_simps)
  then have "ex_step list_mpmc ?a ?b"
    using ex_step.call[of ?a 1 0 list_mpmc 7 0] by (simp add: demo_step_simps)
  moreover have "ex_step list_mpmc ?b ?c"
    by (rule ex_step.schedule[of _ 1]) (simp add: demo_step_simps)
  moreover have "ex_step list_mpmc ?c ?d"
    by (rule ex_step.schedule[of _ 1]) (simp add: demo_step_simps)
  ultimately show ?thesis by (meson ex_reach.intros)
qed

lemma demo_executed:
  "ex_reach list_mpmc (demo_state (Scan 0) [] No_call False False Not_stopping {#} {#})
     (demo_state (Scan 0) [] No_call False False Not_stopping {#7#} {#7#})"
proof -
  have "ex_step list_mpmc (demo_state (Scan 0) [7] No_call False False Not_stopping {#7#} {#})
      (demo_state (Wake 7) [] No_call False False Not_stopping {#7#} {#})"
    by (rule demo_worker) (simp add: demo_step_simps)
  moreover have "ex_step list_mpmc (demo_state (Wake 7) [] No_call False False Not_stopping {#7#} {#})
      (demo_state (Running 7) [] No_call False False Not_stopping {#7#} {#})"
    by (rule demo_worker) (simp add: demo_step_simps)
  moreover have "ex_step list_mpmc (demo_state (Running 7) [] No_call False False Not_stopping {#7#} {#})
      (demo_state (Scan 0) [] No_call False False Not_stopping {#7#} {#7#})"
    by (rule demo_worker) (simp add: demo_step_simps)
  ultimately show ?thesis using demo_scheduled by (meson ex_reach.intros)
qed

lemma demo_asleep:
  "ex_reach list_mpmc (demo_state (Scan 0) [] No_call False False Not_stopping {#} {#})
     (demo_state Sleeping [] No_call False False Not_stopping {#7#} {#7#})"
proof -
  let ?s = "\<lambda>w. demo_state w [] No_call False False Not_stopping {#7#} {#7#}"
  have "ex_step list_mpmc (?s (Scan 0)) (?s (Scan 1))" "ex_step list_mpmc (?s (Scan 1)) (?s Lock)"
    "ex_step list_mpmc (?s Lock) (?s (Pred 0))" "ex_step list_mpmc (?s (Pred 0)) (?s (Pred 1))"
    "ex_step list_mpmc (?s (Pred 1)) (?s Sleeping)"
    by (rule demo_worker, simp add: demo_step_simps)+
  then show ?thesis using demo_executed by (meson ex_reach.intros)
qed

lemma demo_stopping:
  "ex_reach list_mpmc (demo_state (Scan 0) [] No_call False False Not_stopping {#} {#})
     (demo_state Relock [] No_call False True Joining {#7#} {#7#})"
proof -
  let ?s = "\<lambda>w g p. demo_state w [] No_call False g p {#7#} {#7#}"
  have "?s Sleeping False (Locking 0) = (?s Sleeping False Not_stopping)\<lparr>stopping := Locking 0\<rparr>"
    by (simp add: demo_state_def)
  then have "ex_step list_mpmc (?s Sleeping False Not_stopping) (?s Sleeping False (Locking 0))"
    using ex_step.stop_call[of "?s Sleeping False Not_stopping" list_mpmc]
    by (simp add: demo_state_def)
  moreover have "ex_step list_mpmc (?s Sleeping False (Locking 0)) (?s Sleeping False (Locking 1))"
    "ex_step list_mpmc (?s Sleeping False (Locking 1)) (?s Sleeping True (Unlocking 0))"
    "ex_step list_mpmc (?s Sleeping True (Unlocking 0)) (?s Relock True (Unlocking 1))"
    "ex_step list_mpmc (?s Relock True (Unlocking 1)) (?s Relock True Joining)"
    by (rule ex_step.stop, simp add: demo_step_simps)+
  ultimately show ?thesis using demo_asleep by (meson ex_reach.intros)
qed

lemma demo_returned:
  "ex_reach list_mpmc (demo_state (Scan 0) [] No_call False False Not_stopping {#} {#})
     (demo_state Returned [] No_call True True Joining {#7#} {#7#})"
proof -
  let ?s = "\<lambda>w r. demo_state w [] No_call r True Joining {#7#} {#7#}"
  have "ex_step list_mpmc (?s Relock False) (?s (Scan 0) True)"
    "ex_step list_mpmc (?s (Scan 0) True) (?s (Scan 1) True)"
    "ex_step list_mpmc (?s (Scan 1) True) (?s Returned True)"
    by (rule demo_worker, simp add: demo_step_simps)+
  then show ?thesis using demo_stopping by (meson ex_reach.intros)
qed

text \<open>
  C11: what becomes of the tasks. Threads may call \<^verbatim>\<open>schedule\<close> at any time, also during and after \<^verbatim>\<open>Stop\<close>. In every state
  the executor can reach, whatever the interleaving, the tasks accepted by \<^verbatim>\<open>schedule\<close> are, with their
  multiplicities, those that have been executed, those a worker has in hand and those in the queues. When all workers
  have returned after \<^verbatim>\<open>Stop\<close>, no worker has one in hand, and what is left in a queue was pushed there by a thread that is not a
  worker after \<^verbatim>\<open>stop_\<close> was set. So all accepted tasks have been executed exactly once, including those that tasks
  scheduled while the executor was stopping, unless some other thread scheduled one after \<^verbatim>\<open>stop_\<close> was set.
\<close>

theorem executor_loses_no_task:
  assumes "mpmc_queue mq contents" "TunnelExecutor n q = Some ex0" "contents q = {#}"
    and "ex_reach mq ex0 ex"
  shows "accepted ex = executed ex + hands ex + queued contents ex \<and>
    ((\<forall>w<thread_num ex. workers ex w = Returned) \<longrightarrow>
       hands ex = {#} \<and> (\<forall>j<thread_num ex. contents (task_queue ex j) \<subseteq># late ex j) \<and>
       ((\<forall>j<thread_num ex. late ex j = {#}) \<longrightarrow> executed ex = accepted ex))"
proof -
  have inv: "ex_inv contents ex"
    by (rule ex_inv_reachable[where contents = contents, OF assms(1-4)])
  then have acc: "accepted ex = executed ex + hands ex + queued contents ex"
    by (simp add: ex_inv_def task_inv_def)
  have "hands ex = {#} \<and> (\<forall>j<thread_num ex. contents (task_queue ex j) \<subseteq># late ex j)"
    if "\<forall>w<thread_num ex. workers ex w = Returned"
    using that inv unfolding ex_inv_def cover_inv_def covers_def by (auto simp: hands_def in_hand_def)
  moreover have "queued contents ex = {#}" if "\<forall>j<thread_num ex. contents (task_queue ex j) \<subseteq># {#}"
    using that by (simp add: queued_def)
  ultimately show ?thesis using acc by auto
qed

theorem executor_loses_no_task_witness:
  "\<exists>ex0 ex. TunnelExecutor 1 [] = Some ex0 \<and> ex_reach list_mpmc ex0 ex \<and>
     (\<forall>w<thread_num ex. workers ex w = Returned) \<and> accepted ex = {#7#} \<and> executed ex = {#7 :: nat#}"
proof -
  let ?ex = "demo_state Returned [] No_call True True Joining {#7#} {#7#}"
  have "executed ?ex = accepted ?ex"
    using executor_loses_no_task[OF list_mpmc_queue demo_init _ demo_returned] by (simp add: demo_state_def)
  moreover have "accepted ?ex = {#7#}" "\<forall>w<thread_num ?ex. workers ?ex w = Returned"
    by (simp_all add: demo_state_def)
  ultimately show ?thesis using demo_init demo_returned by metis
qed

text \<open>A late task can indeed be lost: \<^verbatim>\<open>schedule\<close> accepts it when the only worker has already returned.\<close>

lemma late_task_lost:
  "\<exists>ex. ex_reach list_mpmc (demo_state (Scan 0) [] No_call False False Not_stopping {#} {#}) ex \<and>
     (\<forall>w<thread_num ex. workers ex w = Returned) \<and> accepted ex = {#7, 8#} \<and> executed ex = {#7#}"
proof -
  let ?a = "demo_state Returned [] No_call True True Joining {#7#} {#7#}"
  let ?b = "demo_state Returned [] (Try 8 0 0) True True Joining {#7#} {#7#}"
  let ?c = "(demo_state Returned [8] (Notify 0) True True Joining {#7, 8#} {#7#})\<lparr>late := (\<lambda>_. {#})(0 := {#8#})\<rparr>"
  have "?b = schedule_begin 1 8 0 0 ?a" by (simp add: demo_step_simps)
  then have "ex_step list_mpmc ?a ?b"
    using ex_step.call[of ?a 1 0 list_mpmc 8 0] by (simp add: demo_step_simps)
  moreover have "ex_step list_mpmc ?b ?c"
    by (rule ex_step.schedule[of _ 1]) (simp add: demo_step_simps add_mset_commute)
  ultimately have "ex_reach list_mpmc (demo_state (Scan 0) [] No_call False False Not_stopping {#} {#}) ?c"
    using demo_returned by (meson ex_reach.intros)
  then show ?thesis by (rule exI[of _ ?c, OF conjI]) (simp add: demo_state_def)
qed

text \<open>
  C25: no lost wake-up.  A worker never sleeps while there is a task in its own queue, unless the
  thread that pushed it has not yet reached its \<^verbatim>\<open>notify_one\<close>.
\<close>

theorem executor_no_lost_wakeup:
  assumes "mpmc_queue mq contents" "TunnelExecutor n q = Some ex0" "contents q = {#}"
    and "ex_reach mq ex0 ex" "w < thread_num ex" "workers ex w = Sleeping"
  shows "contents (task_queue ex w) = {#} \<or> (\<exists>t. calls ex t = Notify w)"
  using ex_inv_reachable[where contents = contents, OF assms(1-4)] assms(5,6)
  by (simp add: ex_inv_def sleep_inv_def)

theorem executor_no_lost_wakeup_witness:
  "mset (task_queue (demo_state Sleeping [] No_call False False Not_stopping {#7#} {#7#}) 0) = {#} \<or>
   (\<exists>t. calls (demo_state Sleeping [] No_call False False Not_stopping {#7#} {#7#}) t = Notify 0)"
  by (rule executor_no_lost_wakeup[OF list_mpmc_queue demo_init _ demo_asleep])
    (simp_all add: demo_state_def)

text \<open>
  C26: \<^verbatim>\<open>Stop\<close> does not hang.  Once it has notified all workers and joins them, none of them is
  asleep or blocked on a mutex: every worker has returned, or can take its next step, or runs a
  task that is in a call of \<^verbatim>\<open>schedule\<close> which can take its next step.
\<close>

theorem executor_stop_progress:
  assumes "mpmc_queue mq contents" "TunnelExecutor n q = Some ex0" "contents q = {#}"
    and "ex_reach mq ex0 ex" "stopping ex = Joining" "w < thread_num ex"
  shows "workers ex w = Returned \<or> WorkerMain mq w ex \<noteq> None \<or>
    (calls ex w \<noteq> No_call \<and> schedule_step mq w ex \<noteq> None)"
proof -
  have inv: "ex_inv contents ex"
    by (rule ex_inv_reachable[where contents = contents, OF assms(1-4)])
  have "stop_flag ex" using inv assms(5) by (simp add: ex_inv_def lock_inv_def)
  then have free: "mutex_free ex j" if "j < thread_num ex" for j
    using inv assms(5) that by (auto simp: ex_inv_def lock_inv_def mutex_free_def stop_holds_def)
  have mod: "k mod thread_num ex < thread_num ex" for k
    using assms(6) by simp
  have "workers ex w \<noteq> Sleeping"
    using inv assms(5,6) by (auto simp: ex_inv_def wake_inv_def)
  moreover have "schedule_step mq w ex \<noteq> None" if "calls ex w \<noteq> No_call"
    using that free[OF mod]
    by (cases "calls ex w") (auto simp: schedule_step_def Let_def split: prod.splits)
  ultimately show ?thesis
    using free[OF assms(6)]
    by (cases "workers ex w")
      (auto simp: WorkerMain_def TryPop_at_def enter_wait_def Let_def split: prod.splits option.splits)
qed

theorem executor_stop_progress_witness:
  "let ex = demo_state Relock [] No_call False True Joining {#7#} {#7#} in
   workers ex 0 = Returned \<or> WorkerMain list_mpmc 0 ex \<noteq> None \<or>
   (calls ex 0 \<noteq> No_call \<and> schedule_step list_mpmc 0 ex \<noteq> None)"
  unfolding Let_def
  by (rule executor_stop_progress[OF list_mpmc_queue demo_init _ demo_stopping])
    (simp_all add: demo_state_def)

end
