(* ===== verification/Spec2Isabelle.thy ===== *)
theory Spec2Isabelle
  imports Queue_Monitor Number_Handle Embed_Pipeline Fork_Concat Switcher_Client Switcher_Server Socket_Nodes Executor
begin

text \<open>
  \<^bold>\<open>tunnel\<close> is a C++20 library for pipelines of coroutines. A pipeline is a graph of nodes; a node
  is an object of a class derived from \<^verbatim>\<open>Processor<T>\<close> whose coroutine pops elements from the queues of
  its input ports, runs code of the user and pushes elements to the queues of its output ports. The
  end of a stream is an empty \<^verbatim>\<open>std::optional\<close>, called EOF below. The library has
  a builder for pipelines, an executor of its own, serialisation, nodes that talk to other processes through
  sockets, and a server, the switcher, that matches clients that push to a topic with
  clients that pop from it.

  \<^bold>\<open>Theories and what they model\<close> (paths are relative to \<^verbatim>\<open>src/include\<close>):

  \<^item> \<open>Tunnel_Prelude\<close>: generic lemmas on lists, sums and words, and the exceptions of the program.
  \<^item> \<open>Bounded_Queue\<close>, \<open>Queue_Monitor\<close>: \<^verbatim>\<open>queue/boundedqueue.h\<close>, first as atomic operations on a
    deque, then with the waiters on the two condition variables, one step for each critical section.
    Every history of critical sections of the second is one of the first, with the same arguments and results, no call and no wake-up
    is lost, and the queue is FIFO and bounded.
  \<^item> \<open>Channel\<close>, \<open>Event_Collector\<close>: \<^verbatim>\<open>tunnel/channel.h\<close>, \<^verbatim>\<open>tunnel/event_collector.h\<close>
    and the byte counting of \<^verbatim>\<open>tunnel/tunnel_traits.h\<close>. Queues behind shared pointers live in a heap
    \<open>qheap\<close>, a channel is an optional address.
  \<^item> \<open>Processor\<close>, \<open>Nodes\<close>, \<open>Coroutine\<close>: \<^verbatim>\<open>tunnel/processor.h\<close> and all node classes
    (\<^verbatim>\<open>source.h\<close> to \<^verbatim>\<open>fork.h\<close>). The record \<open>processor\<close> holds the members, \<open>node_class\<close> the class
    with the overrides of the user, \<open>pc\<close> the suspension point. \<open>pending\<close> is the queue operation a
    suspended coroutine waits for and \<open>resume\<close> the code up to its next suspension;
    \<open>Nodes\<close> has one body for each \<^verbatim>\<open>work()\<close> and \<^verbatim>\<open>hosted_mode()\<close>.
  \<^item> \<open>Network\<close>, \<open>Coroutine_Inv\<close>, \<open>Schedule\<close>: coroutines interleaved over shared queues. The locale
    \<open>coroutine_contract\<close> states what a coroutine promises about the EOFs it reads and writes; from it follow
    conservation of EOFs, empty queues at the end and the absence of deadlocks. \<open>Coroutine_Inv\<close>
    interprets the locale on the processors, \<open>Schedule\<close> computes concrete runs.
  \<^item> \<open>Pipeline\<close>, \<open>Pipeline_Inv\<close>, \<open>Pipeline_Roles\<close>, \<open>Pipeline_Merge\<close>, \<open>Pipeline_Run\<close>, \<open>Merge_Run\<close>:
    \<^verbatim>\<open>tunnel/pipeline.h\<close>. \<open>Pipeline\<close> has every operation of the builder with its error
    branches, \<open>Dump\<close> and \<open>Run\<close>; \<open>Pipeline_Merge\<close> has \<^verbatim>\<open>MergePipeline\<close>. Every operation that returns keeps
    \<open>pipe_inv\<close> (\<open>Pipeline_Inv\<close>) and \<open>roles_ok\<close> (\<open>Pipeline_Roles\<close>). The theorems are about the pipelines of the inductive
    set \<open>built\<close>: those made by calls of the builder that return, from nodes of the library or of the user each of which is passed once. Not in
    \<open>built\<close> are pipelines with a \<^verbatim>\<open>ChannelSource\<close> or \<^verbatim>\<open>ChannelSink\<close>, whose queues belong to other code too (\<open>Embed_Pipeline\<close> treats
    one), and those made by giving \<^verbatim>\<open>SetSink\<close> or \<^verbatim>\<open>Merge\<close> an empty set of leaves or \<^verbatim>\<open>Concat\<close> the same leaf twice,
    which the code does not check, a \<^verbatim>\<open>Dispatch\<close> without outputs, or ids that wrap. \<open>Pipeline_Run\<close> and \<open>Merge_Run\<close> carry the
    results of \<open>Network\<close> over to every run of every pipeline in \<open>built\<close>, merged ones included; where a node may throw
    anything, they ask for a bound abort channel.
    Progress is proved for untangled pipelines, which have no \<^verbatim>\<open>Concat\<close> of several inputs or no \<^verbatim>\<open>Fork\<close> and \<^verbatim>\<open>Dispatch\<close>
    with several outputs; \<open>Fork_Concat\<close> shows that a pipeline with both can get stuck.
  \<^item> \<open>Net_Measure\<close>, \<open>Termination\<close>, \<open>Pipeline_Ends\<close>: how long a pipeline runs. The locale \<open>using_energy\<close>
    bounds the number of steps of a network whose operations use up a potential; \<open>Termination\<close>
    interprets it on the processors, \<open>Pipeline_Ends\<close> finds the weights of the queues of a
    pipeline along its graph. Together with the absence of deadlocks every pipeline whose
    sources end runs to its end.
  \<^item> \<open>Net_Flow\<close>, \<open>Flow\<close>, \<open>Pipeline_Flow\<close>: where the data goes. The locale \<open>passing_on\<close> is the contract of
    coroutines that keep or send what they were worth together with what they take; the total of a network is then
    constant. \<open>Flow\<close> interprets it on the processors with a \<open>ledger\<close> for each node, \<open>Pipeline_Flow\<close> on
    pipelines: data is conserved, user code that does not throw gives runs without a failure, with or without a
    bound abort channel.
  \<^item> \<open>Program\<close>, \<open>Number_Handle\<close>, \<open>Hello_World\<close>, \<open>Embed_Pipeline\<close>: the programs under \<^verbatim>\<open>src/example\<close>, from the
    calls of \<^verbatim>\<open>main\<close> to what every run of them has computed or printed in the end. In \<open>Embed_Pipeline\<close> a transform runs a
    pipeline of its own between its ports.
  \<^item> \<open>Sedeserialize\<close>: \<^verbatim>\<open>tunnel/util.h\<close>, \<^verbatim>\<open>tunnel/sedeserialize.h\<close>, \<^verbatim>\<open>tunnel/package.h\<close>. The
    locale \<open>codec\<close> is the contract of a pair of functions \<^verbatim>\<open>Serialize\<close> and
    \<^verbatim>\<open>Deserialize\<close>, interpreted for every pair.
  \<^item> \<open>Socket_Awaiter\<close>: \<^verbatim>\<open>awaiter/asio/socket.h\<close>; \<open>Socket_Nodes\<close>: \<^verbatim>\<open>tunnel/socket_sink.h\<close> and
    \<^verbatim>\<open>tunnel/socket_source.h\<close>.
  \<^item> \<open>Switcher_Protocol\<close>, \<open>Switcher\<close>, \<open>Switcher_Client\<close>: \<^verbatim>\<open>switcher/switcher.h\<close> and
    \<^verbatim>\<open>switcher/switcher_client.h\<close>: the packages and frames, the server as a transition system with its
    invariant of ownership and the ways a coroutine can end the process, and the client. In \<open>Switcher_Client\<close> two clients and the server are
    composed: bytes arrive in portions, coroutines run in any order, and the relation \<open>phase\<close> follows the delivery of a value
    to its end. \<open>Switcher_Server\<close>: the program \<^verbatim>\<open>src/switcher_server.cc\<close> around it, with the condition variable on which \<^verbatim>\<open>main\<close>
    waits for the signal.
  \<^item> \<open>Executor\<close>: \<^verbatim>\<open>executor/tunnel_executor.h\<close>, workers, \<^verbatim>\<open>schedule\<close> and \<^verbatim>\<open>Stop\<close> as a
    transition system in which any thread may call \<^verbatim>\<open>schedule\<close> at any time; the ghost field \<open>late\<close> records what other threads push
    after \<^verbatim>\<open>stop_\<close> was set, the only tasks that can be lost. \<open>Event_Count\<close>: \<^verbatim>\<open>tunnel/event_count.h\<close> with its condition variable, and \<^verbatim>\<open>executor/timer.h\<close>.

  \<^bold>\<open>Conventions.\<close> Exceptions are the left side of a sum or the outcome \<open>Thrown\<close>; a failed
  \<^verbatim>\<open>assert\<close>, \<^verbatim>\<open>std::abort\<close> and undefined behaviour the code can reach (a null queue, a read out of
  bounds) are values of their own (\<open>Died\<close>, \<open>Aborted\<close>, \<open>Crashed\<close>). The overrides of the user are
  functions of the node's state that may throw. The clock, iteration orders of unordered
  containers and uninitialised members are arguments. Identifiers and counters wrap at 64 bits; theorems about ids
  assume that the counter has not wrapped yet. Theories that compute a run use no fuel: every
  definition is total by structural recursion.

  \<^bold>\<open>Third-party code\<close> is a parameter with its documented behaviour as a named hypothesis:
  \<open>notifies_one\<close> (condition variables of \<^verbatim>\<open>async_simple\<close>), \<open>asio_streams\<close> and
  \<open>asio_reliable\<close>, \<open>asio_waits\<close>, \<open>net_arrives\<close> and \<open>reads_keep_open\<close> (sockets of \<^verbatim>\<open>asio\<close>), \<open>mpmc_queue\<close> (the lock-free queue of the executor). Each
  is instantiated by a concrete function in a witness. The parsers of command lines and addresses are
  arbitrary functions.

  \<^bold>\<open>Not modelled\<close>: logging and what the programs print beside their results (the dump of a pipeline, error
  messages), which have no effect on the state; \<^verbatim>\<open>DumpToFile\<close>, which writes the modelled dump to a file; the
  accessors of the executor that only serve statistics of \<^verbatim>\<open>async_simple\<close>; memory orderings finer
  than the atomic steps of the executor; the virtual destructors and constructors without
  effect on the model. In \<open>Embed_Pipeline\<close> the coroutine that waits for the inner pipeline is not a process of its own: it does
  nothing between the start of the inner coroutines and their end.
\<close>

end
